(* ===== verification/Prelude.thy ===== *)
theory Prelude
  imports Complex_Main "HOL-Library.Word" "HOL-Library.Log_Nat"
begin

text \<open>
  Shared vocabulary of the development: bytes and C strings, the C library calls on strings
  that the sources use, the allocator, the facts about lists and decimal digits that the
  components share, and the collections their proofs draw from.

  A byte is a \<^typ>\<open>char\<close> (an 8-bit value), a block of bytes a list of them. A C string is the
  list of its bytes before the terminating NUL; a pointer that may be NULL is an option.
\<close>

named_theorems parse_intros \<open>one step of the parser succeeds\<close>
named_theorems print_simps \<open>equations of the printer on the success path\<close>
named_theorems wire_simps \<open>facts about bytes on the wire\<close>

section \<open>Bytes and C strings\<close>

type_synonym bytes = "char list"

abbreviation NUL :: char where "NUL \<equiv> CHR 0x00"
abbreviation QUOTE :: char where "QUOTE \<equiv> CHR 0x22"
abbreviation BSLASH :: char where "BSLASH \<equiv> CHR 0x5C"
abbreviation code :: "char \<Rightarrow> nat" where "code c \<equiv> of_char c"

definition nul_free :: "bytes \<Rightarrow> bool" where
  "nul_free s \<longleftrightarrow> NUL \<notin> set s"

text \<open>What a \<open>char *\<close> to the start of a block denotes: the bytes before the first NUL.\<close>

definition c_str :: "bytes \<Rightarrow> bytes" where
  "c_str s = takeWhile (\<lambda>c. c \<noteq> NUL) s"

lemma nul_free_simps [simp]:
  "nul_free []"
  "nul_free (c # s) \<longleftrightarrow> c \<noteq> NUL \<and> nul_free s"
  "nul_free (s @ t) \<longleftrightarrow> nul_free s \<and> nul_free t"
  by (auto simp: nul_free_def)

lemma nul_free_drop: "nul_free s \<Longrightarrow> nul_free (drop n s)"
  and nul_free_take: "nul_free s \<Longrightarrow> nul_free (take n s)"
  by (auto simp: nul_free_def dest: in_set_dropD in_set_takeD)

lemma c_str_nul_free [simp]: "nul_free s \<Longrightarrow> c_str s = s"
  by (induction s) (auto simp: c_str_def)

lemma nul_free_c_str [simp]: "nul_free (c_str s)"
  by (induction s) (auto simp: c_str_def)

lemma c_str_append_NUL [simp]: "nul_free s \<Longrightarrow> c_str (s @ NUL # t) = s"
  by (induction s) (auto simp: c_str_def)

text \<open>\<open>strnlen(s, n)\<close> and the test \<open>strncmp(s, t, n) == 0\<close> on C strings.\<close>

definition strnlen :: "bytes \<Rightarrow> nat \<Rightarrow> nat" where
  "strnlen s n = min n (length s)"

definition strncmp_eq :: "bytes \<Rightarrow> bytes \<Rightarrow> nat \<Rightarrow> bool" where
  "strncmp_eq s t n \<longleftrightarrow> take n (s @ [NUL]) = take n (t @ [NUL])"

lemma strncmp_eq_prefix:
  assumes "nul_free s" and "nul_free t"
  shows "strncmp_eq s t (length s) \<longleftrightarrow> take (length s) t = s"
proof (cases "length s \<le> length t")
  case True
  then show ?thesis by (auto simp: strncmp_eq_def)
next
  case False
  then have t: "take (length s) (t @ [NUL]) = t @ [NUL]" by simp
  have "s \<noteq> t @ [NUL]" using assms(1) by auto
  with False t show ?thesis by (auto simp: strncmp_eq_def)
qed

lemma strncmp_eq_all:
  assumes "nul_free s" and "nul_free t"
  shows "strncmp_eq s t (Suc (length s)) \<longleftrightarrow> s = t"
proof
  assume "strncmp_eq s t (Suc (length s))"
  then have e: "s @ [NUL] = take (Suc (length s)) (t @ [NUL])"
    by (simp add: strncmp_eq_def)
  show "s = t"
  proof (cases "length s < length t")
    case True
    then have "s @ [NUL] = take (Suc (length s)) t" using e by simp
    then have "NUL \<in> set t" by (metis in_set_conv_decomp in_set_takeD)
    then show ?thesis using assms(2) by (simp add: nul_free_def)
  next
    case False
    then have "take (Suc (length s)) (t @ [NUL]) = t @ [NUL]" by simp
    then show ?thesis using e by simp
  qed
qed (simp add: strncmp_eq_def)

section \<open>Reading a block\<close>

text \<open>
  \<open>nth_opt xs i\<close> is the read \<open>xs[i]\<close> of a block of \<open>length xs\<close> bytes; \<^const>\<open>None\<close> is a read
  outside the block, which the models turn into a fault.
\<close>

definition nth_opt :: "'a list \<Rightarrow> nat \<Rightarrow> 'a option" where
  "nth_opt xs i = (if i < length xs then Some (xs ! i) else None)"

lemma nth_opt_simps [simp]:
  "nth_opt [] i = None"
  "nth_opt (x # xs) 0 = Some x"
  "nth_opt (x # xs) (Suc i) = nth_opt xs i"
  by (auto simp: nth_opt_def)

lemma nth_opt_None_iff [simp]: "nth_opt xs i = None \<longleftrightarrow> length xs \<le> i"
  by (auto simp: nth_opt_def)

lemma nth_opt_drop: "nth_opt (drop n xs) i = nth_opt xs (n + i)"
  by (auto simp: nth_opt_def)

lemma nth_opt_append_right [simp]: "nth_opt (xs @ ys) (length xs + i) = nth_opt ys i"
  by (auto simp: nth_opt_def nth_append)

section \<open>The allocator\<close>

text \<open>
  The outcome of the allocations to come, in order; once the list is used up every allocation
  succeeds. A finite run makes finitely many allocations, so every pattern of failures of
  \<open>malloc\<close> (or of the hook that replaces it) is one such list. The empty list is the allocator
  that never fails.
\<close>

type_synonym mem = "bool list"

fun alloc :: "mem \<Rightarrow> bool \<times> mem" where
  "alloc [] = (True, [])"
| "alloc (ok # m) = (ok, m)"

end
