(* ===== verification/C_Double.thy ===== *)
theory C_Double
  imports Prelude
begin

text \<open>
  The C type \<open>double\<close> (IEEE 754 binary64) and the three library calls through which cJSON
  touches it: \<open>strtod\<close>, \<open>sprintf\<close> with \<open>%1.Pg\<close>, and \<open>sscanf\<close> with \<open>%lg\<close>. A finite value
  is its exact rational; zero keeps its sign. Conversions are correctly rounded, ties to
  even, as Annex F of C11 (and glibc) have it. The first half is executable definitions, the
  second the facts about integers below \<open>10 ^ 15\<close> that the message codec rests on.
\<close>

section \<open>Values and rounding\<close>

datatype double = Fin rat | NegZero | PInf | NInf | NaN

abbreviation dbl_int :: "int \<Rightarrow> double" where "dbl_int n \<equiv> Fin (of_int n)"

text \<open>The nearest integer, ties to even.\<close>

definition rhe :: "rat \<Rightarrow> int" where
  "rhe x = (let f = \<lfloor>x\<rfloor>; d = x - of_int f
     in if d < 1 / 2 then f else if 1 / 2 < d then f + 1
        else if even f then f else f + 1)"

text \<open>The exponent of the leading digit of \<open>x > 0\<close> in base \<open>b\<close>.\<close>

definition ilog :: "nat \<Rightarrow> rat \<Rightarrow> int" where
  "ilog b x = (let (p, q) = quotient_of x;
       e = int (floorlog b (nat p)) - int (floorlog b (nat q))
     in if of_nat b powi e \<le> x then e else e - 1)"

text \<open>
  The double nearest to the magnitude \<open>x > 0\<close>, the exponent range left unbounded above:
  53 significant bits, and multiples of \<open>2 ^ -1074\<close> in the subnormal range.
\<close>

definition round_mag :: "rat \<Rightarrow> rat" where
  "round_mag x = (let e = max (ilog 2 x - 52) (- 1074) in of_int (rhe (x / 2 powi e)) * 2 powi e)"

definition to_double :: "bool \<Rightarrow> rat \<Rightarrow> double" where
  "to_double neg x =
     (let r = (if x = 0 then 0 else round_mag x)
      in if r = 0 then (if neg then NegZero else Fin 0)
         else if 2 ^ 1024 \<le> r then (if neg then NInf else PInf)
         else Fin (if neg then - r else r))"

text \<open>The C comparisons \<open>d == e\<close>, \<open>d >= n\<close>, \<open>d <= n\<close>; each is false on a NaN.\<close>

fun deq :: "double \<Rightarrow> double \<Rightarrow> bool" where
  "deq NaN _ = False"
| "deq _ NaN = False"
| "deq (Fin x) (Fin y) = (x = y)"
| "deq (Fin x) NegZero = (x = 0)"
| "deq NegZero (Fin y) = (y = 0)"
| "deq d e = (d = e)"

fun dge :: "double \<Rightarrow> int \<Rightarrow> bool" where
  "dge (Fin x) n = (of_int n \<le> x)"
| "dge NegZero n = (n \<le> 0)"
| "dge PInf n = True"
| "dge d n = False"

fun dle :: "double \<Rightarrow> int \<Rightarrow> bool" where
  "dle (Fin x) n = (x \<le> of_int n)"
| "dle NegZero n = (0 \<le> n)"
| "dle NInf n = True"
| "dle d n = False"

text \<open>
  The cast \<open>(int) d\<close>: truncation towards zero. C leaves the cast of a NaN undefined; the value
  here is the one the \<open>cvttsd2si\<close> instruction gives.
\<close>

definition INT_MAX :: int where "INT_MAX = 2147483647"
definition INT_MIN :: int where "INT_MIN = - 2147483648"

fun trunc_int :: "double \<Rightarrow> int" where
  "trunc_int (Fin x) = (if 0 \<le> x then \<lfloor>x\<rfloor> else \<lceil>x\<rceil>)"
| "trunc_int NegZero = 0"
| "trunc_int d = INT_MIN"

section \<open>Decimal digits\<close>

definition digit :: "nat \<Rightarrow> char" where
  "digit n = char_of (48 + n)"

definition is_digit :: "char \<Rightarrow> bool" where
  "is_digit c \<longleftrightarrow> 48 \<le> code c \<and> code c \<le> 57"

definition digit_val :: "char \<Rightarrow> nat" where
  "digit_val c = code c - 48"

fun dec_digits :: "nat \<Rightarrow> bytes" where
  "dec_digits n = (if n < 10 then [digit n] else dec_digits (n div 10) @ [digit (n mod 10)])"

declare dec_digits.simps [simp del]

definition dec_val :: "bytes \<Rightarrow> nat" where
  "dec_val ds = foldl (\<lambda>n c. 10 * n + digit_val c) 0 ds"

section \<open>strtod\<close>

text \<open>
  \<open>strtod\<close> on a text without leading white space that does not begin a hexadecimal constant,
  an infinity or a NaN (the only kind cJSON passes): an optional sign, decimal digits with at
  most one point, and an exponent if it is complete. The result is the value and the number
  of bytes read, 0 when there is no number.
\<close>

definition scan_sign :: "bytes \<Rightarrow> bool \<times> bytes" where
  "scan_sign s = (case s of c # r \<Rightarrow>
      if c = CHR ''-'' then (True, r) else if c = CHR ''+'' then (False, r) else (False, s)
    | [] \<Rightarrow> (False, s))"

definition scan_frac :: "bytes \<Rightarrow> bytes \<times> bytes" where
  "scan_frac s = (case s of c # r \<Rightarrow>
      if c = CHR ''.'' then (takeWhile is_digit r, dropWhile is_digit r) else ([], s)
    | [] \<Rightarrow> ([], s))"

definition scan_exp :: "bytes \<Rightarrow> int \<times> bytes" where
  "scan_exp s = (case s of c # r \<Rightarrow>
      if c = CHR ''e'' \<or> c = CHR ''E'' then
        let (neg, r') = scan_sign r; ds = takeWhile is_digit r'
        in if ds = [] then (0, s)
           else (if neg then - int (dec_val ds) else int (dec_val ds), dropWhile is_digit r')
      else (0, s)
    | [] \<Rightarrow> (0, s))"

definition strtod :: "bytes \<Rightarrow> double \<times> nat" where
  "strtod s =
     (let (neg, s1) = scan_sign s;
          ip = takeWhile is_digit s1; s2 = dropWhile is_digit s1;
          (fp, s3) = scan_frac s2
      in if ip @ fp = [] then (Fin 0, 0)
         else let (e, s4) = scan_exp s3
              in (to_double neg (of_nat (dec_val (ip @ fp)) * 10 powi (e - int (length fp))),
                  length s - length s4))"

section \<open>sprintf and sscanf\<close>

definition strip_zeros :: "bytes \<Rightarrow> bytes" where
  "strip_zeros ds = rev (dropWhile (\<lambda>c. c = CHR ''0'') (rev ds))"

definition frac_part :: "bytes \<Rightarrow> bytes" where
  "frac_part ds = (if strip_zeros ds = [] then [] else CHR ''.'' # strip_zeros ds)"

definition exp_part :: "int \<Rightarrow> bytes" where
  "exp_part x = CHR ''e'' # (if x < 0 then CHR ''-'' else CHR ''+'')
     # (if \<bar>x\<bar> < 10 then CHR ''0'' # dec_digits (nat \<bar>x\<bar>) else dec_digits (nat \<bar>x\<bar>))"

text \<open>The text of a magnitude \<open>x > 0\<close> under \<open>%.Pg\<close>: \<open>P\<close> significant digits, rounded.\<close>

definition fmt_mag :: "nat \<Rightarrow> rat \<Rightarrow> bytes" where
  "fmt_mag P x =
     (let X0 = ilog 10 x; n0 = nat (rhe (x * 10 powi (int P - 1 - X0)));
          (n, X) = (if n0 = 10 ^ P then (10 ^ (P - 1), X0 + 1) else (n0, X0));
          ds = dec_digits n
      in if X < - 4 \<or> int P \<le> X then hd ds # frac_part (tl ds) @ exp_part X
         else if 0 \<le> X then take (nat X + 1) ds @ frac_part (drop (nat X + 1) ds)
         else CHR ''0'' # frac_part (replicate (nat (- X) - 1) (CHR ''0'') @ ds))"

fun sprintf_g :: "nat \<Rightarrow> double \<Rightarrow> bytes" where
  "sprintf_g P (Fin x) = (if x = 0 then ''0''
     else if x < 0 then CHR ''-'' # fmt_mag P (- x) else fmt_mag P x)"
| "sprintf_g P NegZero = ''-0''"
| "sprintf_g P PInf = ''inf''"
| "sprintf_g P NInf = ''-inf''"
| "sprintf_g P NaN = ''nan''"

text \<open>
  \<open>sscanf(s, "%lg", &d)\<close>: the value, or \<^const>\<open>None\<close> when the call does not return 1. cJSON
  calls it on the output of \<open>sprintf\<close> only.
\<close>

definition sscanf_lg :: "bytes \<Rightarrow> double option" where
  "sscanf_lg s = (let (d, n) = strtod s in if n = 0 then None else Some d)"

section \<open>Facts: digits\<close>

lemma code_char_of_small [simp]: "n < 256 \<Longrightarrow> code (char_of n) = n"
  by (simp add: of_char_of)

lemma digit_props [simp]:
  assumes "n < 10"
  shows "is_digit (digit n)" and "digit_val (digit n) = n"
  using assms by (simp_all add: digit_def is_digit_def digit_val_def)

lemma digit_0: "digit 0 = CHR ''0''"
  by (rule of_char_eq_iff[where 'a = nat, THEN iffD1]) (simp add: digit_def)

lemma dec_digits_digits: "c \<in> set (dec_digits n) \<Longrightarrow> is_digit c"
  by (induction n rule: dec_digits.induct) (subst (asm) dec_digits.simps, auto split: if_splits)

lemma dec_digits_nonempty [simp]: "dec_digits n \<noteq> []"
  by (subst dec_digits.simps) simp

lemma dec_val_snoc: "dec_val (ds @ [c]) = 10 * dec_val ds + digit_val c"
  by (simp add: dec_val_def)

lemma dec_val_dec_digits [simp]: "dec_val (dec_digits n) = n"
proof (induction n rule: dec_digits.induct)
  case (1 n)
  show ?case
  proof (cases "n < 10")
    case True
    then show ?thesis by (subst dec_digits.simps) (simp add: dec_val_def)
  next
    case False
    with 1 show ?thesis by (subst dec_digits.simps) (simp add: dec_val_snoc)
  qed
qed

lemma dec_digits_times_10:
  "0 < n \<Longrightarrow> dec_digits (n * 10 ^ k) = dec_digits n @ replicate k (CHR ''0'')"
proof (induction k)
  case (Suc k)
  have "dec_digits (n * 10 ^ Suc k) = dec_digits (n * 10 ^ k) @ [digit 0]"
    using Suc.prems by (subst dec_digits.simps) (simp add: less_eq_div_iff_mult_less_eq)
  then show ?case
    using Suc by (simp add: digit_0 replicate_append_same)
qed simp

lemma length_dec_digits_le: "n < 10 ^ k \<Longrightarrow> 0 < k \<Longrightarrow> length (dec_digits n) \<le> k"
proof (induction n arbitrary: k rule: dec_digits.induct)
  case (1 n)
  show ?case
  proof (cases "n < 10")
    case True
    then show ?thesis using 1 by (subst dec_digits.simps) simp
  next
    case False
    with "1.prems" have "k \<noteq> 1" by auto
    with "1.prems" have "1 < k" by simp
    then obtain k' where k: "k = Suc k'" "0 < k'" by (cases k) auto
    then have "n div 10 < 10 ^ k'" using "1.prems" by (simp add: less_mult_imp_div_less mult.commute)
    with 1 False k show ?thesis by (subst dec_digits.simps) simp
  qed
qed

lemma length_dec_digits_gt: "10 ^ k \<le> n \<Longrightarrow> k < length (dec_digits n)"
proof (induction n arbitrary: k rule: dec_digits.induct)
  case (1 n)
  show ?case
  proof (cases "n < 10")
    case True
    with "1.prems" have "(10::nat) ^ k < 10 ^ 1" by simp
    then have "k = 0" by (simp only: power_strict_increasing_iff)
    then show ?thesis by simp
  next
    case False
    show ?thesis
    proof (cases k)
      case (Suc k')
      then have "10 ^ k' \<le> n div 10" using "1.prems" by (simp add: less_eq_div_iff_mult_less_eq mult.commute)
      with 1 False Suc show ?thesis by (subst dec_digits.simps) simp
    qed simp
  qed
qed

lemma length_dec_digits:
  assumes "10 ^ k \<le> n" and "n < 10 ^ Suc k"
  shows "length (dec_digits n) = Suc k"
  using length_dec_digits_le[OF assms(2)] length_dec_digits_gt[OF assms(1)] by simp

section \<open>Facts: rounding\<close>

lemma rhe_of_int [simp]: "rhe (of_int n) = n"
  by (simp add: rhe_def)

lemma ilog_bounds:
  assumes "1 < b" and "0 < x"
  shows "of_nat b powi ilog b x \<le> x" and "x < of_nat b powi (ilog b x + 1)"
proof -
  obtain p q where pq: "quotient_of x = (p, q)" by force
  have q: "0 < q" and x: "x = of_int p / of_int q"
    using quotient_of_denom_pos[OF pq] quotient_of_div[OF pq] by auto
  have p: "0 < p" using assms(2) q x by (simp add: zero_less_divide_iff)
  let ?lp = "floorlog b (nat p)" and ?lq = "floorlog b (nat q)"
  define B :: rat where "B = of_nat b"
  have B: "1 < B" using assms(1) by (simp add: B_def)
  have fl: "B powi (int (floorlog b (nat z)) - 1) \<le> of_int z"
      "of_int z < B powi int (floorlog b (nat z))" if "0 < z" for z :: int
  proof -
    have "b ^ (floorlog b (nat z) - 1) \<le> nat z" and lt: "nat z < b ^ floorlog b (nat z)"
      using floorlog_bounds[of "nat z" b] that assms(1) by auto
    then have "of_nat (b ^ (floorlog b (nat z) - 1)) \<le> (of_nat (nat z) :: rat)"
      by (simp only: of_nat_le_iff)
    moreover have "0 < floorlog b (nat z)"
      using that assms(1) by (simp add: floorlog_def)
    ultimately show "B powi (int (floorlog b (nat z)) - 1) \<le> of_int z"
      using that by (simp add: B_def power_int_def nat_diff_distrib)
    have "(of_nat (nat z) :: rat) < of_nat (b ^ floorlog b (nat z))"
      using lt by (simp only: of_nat_less_iff)
    then show "of_int z < B powi int (floorlog b (nat z))"
      using that by (simp add: B_def)
  qed
  have up: "x < B powi (int ?lp - int ?lq + 1)"
  proof -
    have "x < B powi int ?lp / B powi (int ?lq - 1)"
      unfolding x using fl[OF p] fl[OF q] B q p by (intro frac_less) auto
    also have "\<dots> = B powi (int ?lp - (int ?lq - 1))"
      using B by (intro power_int_diff[symmetric]) simp
    also have "int ?lp - (int ?lq - 1) = int ?lp - int ?lq + 1" by simp
    finally show ?thesis .
  qed
  have low: "B powi (int ?lp - int ?lq - 1) \<le> x"
  proof -
    have "B powi (int ?lp - 1) / B powi int ?lq \<le> x"
      unfolding x using fl[OF p] fl[OF q] B q p by (intro frac_le) auto
    moreover have "B powi (int ?lp - 1) / B powi int ?lq = B powi (int ?lp - 1 - int ?lq)"
      using B by (intro power_int_diff[symmetric]) simp
    moreover have "int ?lp - 1 - int ?lq = int ?lp - int ?lq - 1" by simp
    ultimately show ?thesis by (simp only:)
  qed
  show "of_nat b powi ilog b x \<le> x" and "x < of_nat b powi (ilog b x + 1)"
    using up low by (auto simp: ilog_def pq Let_def B_def)
qed

section \<open>Facts: integers through the conversions\<close>

lemma powi_less_exp:
  fixes B :: rat
  shows "1 < B \<Longrightarrow> B powi i < B powi j \<Longrightarrow> i < j"
  by (metis less_le_not_le linorder_not_less power_int_increasing)

lemma ilog_nat_range:
  assumes "1 < b" and "0 < m" and "m < b ^ k"
  shows "0 \<le> ilog b (of_nat m)" and "ilog b (of_nat m) < int k"
    and "b ^ nat (ilog b (of_nat m)) \<le> m" and "m < b ^ Suc (nat (ilog b (of_nat m)))"
proof -
  define B :: rat where "B = of_nat b"
  define i where "i = ilog b (of_nat m)"
  have B: "1 < B" using assms(1) by (simp add: B_def)
  have b: "B powi i \<le> of_nat m" "of_nat m < B powi (i + 1)"
    using ilog_bounds[OF assms(1), of "of_nat m"] assms(2) by (simp_all add: B_def i_def)
  have "B powi 0 < B powi (i + 1)" using b(2) assms(2)
    by (simp add: less_le_trans[of 1 "of_nat m"] le_less_trans[of 1 "of_nat m"])
  then show i0: "0 \<le> ilog b (of_nat m)" using powi_less_exp[OF B, of 0 "i + 1"] by (simp add: i_def)
  have "(of_nat m :: rat) < of_nat (b ^ k)" using assms(3) by (simp only: of_nat_less_iff)
  then have "(of_nat m :: rat) < B powi int k" by (simp add: B_def)
  with b(1) have "B powi i < B powi int k" by (rule le_less_trans)
  then show "ilog b (of_nat m) < int k" using powi_less_exp[OF B] by (simp add: i_def)
  have i: "i = int (nat i)" using i0 by (simp add: i_def)
  have "(of_nat (b ^ nat i) :: rat) \<le> of_nat m"
    using b(1) i0 by (simp add: B_def i_def power_int_def)
  then show "b ^ nat (ilog b (of_nat m)) \<le> m" by (simp only: of_nat_le_iff i_def)
  have "i + 1 = int (Suc (nat i))" using i by simp
  then have "(of_nat m :: rat) < of_nat (b ^ Suc (nat i))"
    using b(2) by (simp only: B_def power_int_of_nat of_nat_power)
  then show "m < b ^ Suc (nat (ilog b (of_nat m)))" by (simp only: of_nat_less_iff i_def)
qed

lemma round_mag_nat:
  assumes "0 < m" and "m < 2 ^ 53"
  shows "round_mag (of_nat m) = of_nat m"
proof -
  define e where "e = max (ilog 2 (of_nat m) - 52) (- 1074)"
  define k where "k = nat (- e)"
  have "ilog 2 (of_nat m) < int 53" by (rule ilog_nat_range) (use assms in auto)
  then have e: "e = - int k" by (simp add: e_def k_def)
  have "(of_nat m :: rat) / 2 powi e = of_int (int (m * 2 ^ k))"
    by (simp add: e power_int_minus divide_inverse)
  then have "rhe (of_nat m / 2 powi e) = int (m * 2 ^ k)" by (simp only: rhe_of_int)
  then show ?thesis
    by (simp add: round_mag_def e_def[symmetric] Let_def) (simp add: e power_int_minus)
qed

lemma to_double_nat:
  assumes "m < 2 ^ 53"
  shows "to_double neg (of_nat m) =
    (if m = 0 then if neg then NegZero else Fin 0
     else Fin (if neg then - of_nat m else of_nat m))"
proof -
  have "(of_nat m :: rat) < of_nat (2 ^ 53)" using assms by (simp only: of_nat_less_iff)
  also have "(of_nat (2 ^ 53) :: rat) < 2 ^ 1024" by simp
  finally have "\<not> 2 ^ 1024 \<le> (of_nat m :: rat)" by simp
  then show ?thesis using assms by (auto simp: to_double_def round_mag_nat)
qed

text \<open>The decimal text of an integer.\<close>

definition show_int :: "int \<Rightarrow> bytes" where
  "show_int n = (if n < 0 then CHR ''-'' # dec_digits (nat (- n)) else dec_digits (nat n))"

lemma strip_zeros_replicate [simp]: "strip_zeros (replicate k (CHR ''0'')) = []"
  by (simp add: strip_zeros_def)

lemma fmt_mag_nat:
  assumes "0 < m" and "m < 10 ^ P"
  shows "fmt_mag P (of_nat m) = dec_digits m"
proof -
  define i where "i = ilog 10 (of_nat m)"
  define j where "j = nat i"
  define k where "k = P - Suc j"
  have i: "0 \<le> i" "i < int P" "10 ^ j \<le> m" "m < 10 ^ Suc j"
    using ilog_nat_range[of 10 m P] assms by (simp_all add: i_def j_def)
  have ij: "i = int j" using i(1) by (simp add: j_def)
  have k: "int P - 1 - i = int k" using i(2) ij by (simp add: k_def)
  have "(of_nat m :: rat) * 10 powi int k = of_int (int (m * 10 ^ k))" by simp
  then have n0: "nat (rhe (of_nat m * 10 powi (int P - 1 - i))) = m * 10 ^ k"
    unfolding k by (simp only: rhe_of_int nat_int)
  have "m * 10 ^ k < 10 ^ Suc j * 10 ^ k" using i(4) by simp
  also have "\<dots> = 10 ^ P" 
    using i(2) ij by (simp add: k_def power_add[symmetric] del: power_Suc)
  finally have lt: "m * 10 ^ k \<noteq> 10 ^ P" by simp
  have len: "length (dec_digits m) = Suc j" by (rule length_dec_digits[OF i(3,4)])
  have small: "\<not> (i < - 4 \<or> int P \<le> i)" "nat i + 1 = Suc j" using ij i(2) by auto
  have "fmt_mag P (of_nat m) = take (Suc j) (dec_digits (m * 10 ^ k))
      @ frac_part (drop (Suc j) (dec_digits (m * 10 ^ k)))"
    by (simp only: fmt_mag_def Let_def i_def[symmetric] n0 if_not_P[OF lt] prod.case
        if_not_P[OF small(1)] if_P[OF i(1)] small(2))
  then show ?thesis using len assms(1) by (simp add: dec_digits_times_10 frac_part_def)
qed

lemma sprintf_g_int:
  assumes "\<bar>n\<bar> < 10 ^ P" and "0 < P"
  shows "sprintf_g P (dbl_int n) = show_int n"
proof -
  have *: "fmt_mag P (of_int z) = dec_digits (nat z)" if "0 < z" "z < 10 ^ P" for z
  proof -
    have "nat z < 10 ^ P" using that by (simp add: nat_less_iff)
    with fmt_mag_nat[of "nat z" P] that show ?thesis by simp
  qed
  have z: "dec_digits 0 = ''0''" by (simp add: dec_digits.simps digit_0)
  show ?thesis
    using *[of n] *[of "- n"] assms z by (auto simp: show_int_def not_less)
qed

lemma takeWhile_digits [simp]: "takeWhile is_digit (dec_digits n) = dec_digits n"
  and dropWhile_digits [simp]: "dropWhile is_digit (dec_digits n) = []"
  using dec_digits_digits by (auto simp: takeWhile_eq_all_conv dropWhile_eq_Nil_conv)

lemma scan_sign_digits [simp]: "scan_sign (dec_digits n) = (False, dec_digits n)"
proof (cases "dec_digits n")
  case (Cons c r)
  then have "is_digit c" using dec_digits_digits[of c n] by simp
  then show ?thesis using Cons by (auto simp: scan_sign_def is_digit_def)
qed simp

lemma strtod_show_int:
  assumes "\<bar>n\<bar> < 2 ^ 53"
  shows "strtod (show_int n) = (dbl_int n, length (show_int n))"
proof -
  have *: "to_double neg (of_nat (nat z)) =
      (if z = 0 then if neg then NegZero else Fin 0
       else Fin (if neg then - of_int z else of_int z))" if "0 \<le> z" "z < 2 ^ 53" for neg z
  proof -
    have "nat z < 2 ^ 53" using that by (simp add: nat_less_iff)
    from to_double_nat[OF this, of neg] show ?thesis using that by auto
  qed
  have m: "scan_sign (CHR ''-'' # ds) = (True, ds)" for ds by (simp add: scan_sign_def)
  show ?thesis
    using *[of n] *[of "- n"] assms
    by (auto simp: show_int_def strtod_def m scan_frac_def scan_exp_def not_less)
qed

end
