(* ===== verification/CJson.thy ===== *)
theory CJson
  imports C_Double
begin

unbundle bit_operations_syntax

text \<open>
  The cJSON item (\<open>include/contrib/cJSON.h\<close>) as a tree, and the operations of
  \<open>src/contrib/cJSON.c\<close> that read a tree: the type tests, the lookups, comparison. A node's
  \<open>child\<close> list stands for the chain of \<open>next\<close> pointers that starts at the C field \<open>child\<close>;
  the operations that relink nodes in place are in the theory \<open>CJson_Heap\<close>.
\<close>

section \<open>Items\<close>

definition cJSON_Invalid :: "32 word" where [simp]: "cJSON_Invalid = 0"
definition cJSON_False :: "32 word" where [simp]: "cJSON_False = 1"
definition cJSON_True :: "32 word" where [simp]: "cJSON_True = 2"
definition cJSON_NULL :: "32 word" where [simp]: "cJSON_NULL = 4"
definition cJSON_Number :: "32 word" where [simp]: "cJSON_Number = 8"
definition cJSON_String :: "32 word" where [simp]: "cJSON_String = 16"
definition cJSON_Array :: "32 word" where [simp]: "cJSON_Array = 32"
definition cJSON_Object :: "32 word" where [simp]: "cJSON_Object = 64"
definition cJSON_Raw :: "32 word" where [simp]: "cJSON_Raw = 128"
definition cJSON_IsReference :: "32 word" where [simp]: "cJSON_IsReference = 256"
definition cJSON_StringIsConst :: "32 word" where [simp]: "cJSON_StringIsConst = 512"

datatype cJSON = CJSON (ctype: "32 word") (valuestring: "bytes option") (valueint: int)
  (valuedouble: double) (ckey: "bytes option") (child: "cJSON list")

text \<open>\<open>cJSON_New_Item\<close> fills the node with zero bytes; the C field \<open>string\<close> is \<^const>\<open>ckey\<close>.\<close>

definition blank_item :: cJSON where
  "blank_item = CJSON 0 None 0 (Fin 0) None []"

definition cJSON_New_Item :: "mem \<Rightarrow> cJSON option \<times> mem" where
  "cJSON_New_Item m = (let (ok, m') = alloc m in (if ok then Some blank_item else None, m'))"

text \<open>The saturating conversion shared by \<open>cJSON_CreateNumber\<close>, \<open>cJSON_SetNumberHelper\<close>
  and \<open>parse_number\<close>.\<close>

definition saturate :: "double \<Rightarrow> int" where
  "saturate d = (if dge d INT_MAX then INT_MAX else if dle d INT_MIN then INT_MIN else trunc_int d)"

definition cJSON_SetNumberHelper :: "cJSON \<Rightarrow> double \<Rightarrow> cJSON" where
  "cJSON_SetNumberHelper item d = (case item of CJSON t vs vi vd k ch \<Rightarrow> CJSON t vs (saturate d) d k ch)"

section \<open>Type tests\<close>

definition type_is :: "32 word \<Rightarrow> cJSON option \<Rightarrow> bool" where
  "type_is t item = (case item of None \<Rightarrow> False | Some i \<Rightarrow> ctype i AND 255 = t)"

definition cJSON_IsInvalid :: "cJSON option \<Rightarrow> bool" where "cJSON_IsInvalid = type_is cJSON_Invalid"
definition cJSON_IsFalse :: "cJSON option \<Rightarrow> bool" where "cJSON_IsFalse = type_is cJSON_False"
definition cJSON_IsTrue :: "cJSON option \<Rightarrow> bool" where "cJSON_IsTrue = type_is cJSON_True"
definition cJSON_IsNull :: "cJSON option \<Rightarrow> bool" where "cJSON_IsNull = type_is cJSON_NULL"
definition cJSON_IsNumber :: "cJSON option \<Rightarrow> bool" where "cJSON_IsNumber = type_is cJSON_Number"
definition cJSON_IsString :: "cJSON option \<Rightarrow> bool" where "cJSON_IsString = type_is cJSON_String"
definition cJSON_IsArray :: "cJSON option \<Rightarrow> bool" where "cJSON_IsArray = type_is cJSON_Array"
definition cJSON_IsObject :: "cJSON option \<Rightarrow> bool" where "cJSON_IsObject = type_is cJSON_Object"
definition cJSON_IsRaw :: "cJSON option \<Rightarrow> bool" where "cJSON_IsRaw = type_is cJSON_Raw"

definition cJSON_IsBool :: "cJSON option \<Rightarrow> bool" where
  "cJSON_IsBool item = (case item of None \<Rightarrow> False
     | Some i \<Rightarrow> ctype i AND (cJSON_True OR cJSON_False) \<noteq> 0)"

section \<open>Lookups\<close>

definition tolower :: "char \<Rightarrow> int" where
  "tolower c = (if 65 \<le> code c \<and> code c \<le> 90 then int (code c) + 32 else int (code c))"

text \<open>The loop of \<open>case_insensitive_strcmp\<close>; an exhausted list is at its terminating NUL.\<close>

fun ci_loop :: "bytes \<Rightarrow> bytes \<Rightarrow> int" where
  "ci_loop [] [] = 0"
| "ci_loop [] (c # t) = (if tolower NUL = tolower c then 0 else tolower NUL - tolower c)"
| "ci_loop (c # s) [] = (if tolower c = tolower NUL then 0 else tolower c - tolower NUL)"
| "ci_loop (c # s) (d # t) = (if tolower c = tolower d then ci_loop s t else tolower c - tolower d)"

definition case_insensitive_strcmp :: "bytes option \<Rightarrow> bytes option \<Rightarrow> int" where
  "case_insensitive_strcmp string1 string2 = (case (string1, string2) of
     (Some s, Some t) \<Rightarrow> ci_loop s t | _ \<Rightarrow> 1)"

definition cJSON_GetArraySize :: "cJSON option \<Rightarrow> int" where
  "cJSON_GetArraySize array = (case array of None \<Rightarrow> 0
     | Some a \<Rightarrow> sint (word_of_nat (length (child a)) :: 32 word))"

definition get_array_item :: "cJSON option \<Rightarrow> nat \<Rightarrow> cJSON option" where
  "get_array_item array index = (case array of None \<Rightarrow> None | Some a \<Rightarrow> nth_opt (child a) index)"

definition cJSON_GetArrayItem :: "cJSON option \<Rightarrow> int \<Rightarrow> cJSON option" where
  "cJSON_GetArrayItem array index = (if index < 0 then None else get_array_item array (nat index))"

text \<open>
  The two search loops of \<open>get_object_item\<close>. The case sensitive one passes the item's name to
  \<open>strcmp\<close>, which a nameless item (an array element) makes undefined: the outer \<^const>\<open>None\<close>.
\<close>

fun find_cs :: "bytes \<Rightarrow> cJSON list \<Rightarrow> cJSON option option" where
  "find_cs name [] = Some None"
| "find_cs name (i # is) = (case ckey i of None \<Rightarrow> None
     | Some k \<Rightarrow> if name \<noteq> k then find_cs name is else Some (Some i))"

fun find_ci :: "bytes \<Rightarrow> cJSON list \<Rightarrow> cJSON option" where
  "find_ci name [] = None"
| "find_ci name (i # is) =
     (if case_insensitive_strcmp (Some name) (ckey i) \<noteq> 0 then find_ci name is else Some i)"

definition get_object_item :: "cJSON option \<Rightarrow> bytes option \<Rightarrow> bool \<Rightarrow> cJSON option option" where
  "get_object_item object name case_sensitive = (case (object, name) of
     (Some ob, Some n) \<Rightarrow> if case_sensitive then find_cs n (child ob) else Some (find_ci n (child ob))
   | _ \<Rightarrow> Some None)"

definition cJSON_GetObjectItem :: "cJSON option \<Rightarrow> bytes option \<Rightarrow> cJSON option" where
  "cJSON_GetObjectItem object name = (case get_object_item object name False of
     Some r \<Rightarrow> r | None \<Rightarrow> None)"

definition cJSON_GetObjectItemCaseSensitive :: "cJSON option \<Rightarrow> bytes option \<Rightarrow> cJSON option option" where
  "cJSON_GetObjectItemCaseSensitive object name = get_object_item object name True"

definition cJSON_HasObjectItem :: "cJSON option \<Rightarrow> bytes option \<Rightarrow> bool" where
  "cJSON_HasObjectItem object name = (cJSON_GetObjectItem object name \<noteq> None)"

end
