(* ===== verification/CJson_Heap.thy ===== *)
theory CJson_Heap
  imports CJson "HOL-Library.Monad_Syntax"
begin

text \<open>
  The operations of \<open>src/contrib/cJSON.c\<close> that build and relink items in place. The store maps
  addresses to nodes and to the string blocks that \<open>cJSON_strdup\<close> makes; \<^const>\<open>None\<close> as a
  result is undefined behaviour (an access to an address that is not allocated, a double
  \<open>free\<close>) or a loop that does not end on a cyclic list. Addresses are not used again.
\<close>

section \<open>The store\<close>

type_synonym addr = nat

record node =
  ntype :: "32 word"
  nvaluestring :: "addr option"
  nvalueint :: int
  nvaluedouble :: double
  nstring :: "addr option"
  nnext :: "addr option"
  nprev :: "addr option"
  nchild :: "addr option"

record heap =
  nodes :: "addr \<rightharpoonup> node"
  strs :: "addr \<rightharpoonup> bytes"
  brk :: addr
  hmem :: mem

definition blank_node :: node where
  "blank_node = \<lparr>ntype = 0, nvaluestring = None, nvalueint = 0, nvaluedouble = Fin 0,
     nstring = None, nnext = None, nprev = None, nchild = None\<rparr>"

text \<open>\<open>New_Item\<close> is \<open>cJSON_New_Item\<close> on the store; \<open>update a f\<close> is an assignment to fields of \<open>*a\<close>.\<close>

definition New_Item :: "heap \<Rightarrow> addr option \<times> heap" where
  "New_Item h = (let (ok, m) = alloc (hmem h) in
     if ok then (Some (brk h), h\<lparr>nodes := (nodes h)(brk h \<mapsto> blank_node), brk := brk h + 1, hmem := m\<rparr>)
     else (None, h\<lparr>hmem := m\<rparr>))"

definition cJSON_strdup :: "bytes option \<Rightarrow> heap \<Rightarrow> addr option \<times> heap" where
  "cJSON_strdup string h = (case string of None \<Rightarrow> (None, h) | Some s \<Rightarrow>
     (let (ok, m) = alloc (hmem h) in
      if ok then (Some (brk h), h\<lparr>strs := (strs h)(brk h \<mapsto> s), brk := brk h + 1, hmem := m\<rparr>)
      else (None, h\<lparr>hmem := m\<rparr>)))"

definition update :: "addr \<Rightarrow> (node \<Rightarrow> node) \<Rightarrow> heap \<Rightarrow> heap option" where
  "update a f h = do { n \<leftarrow> nodes h a; Some (h\<lparr>nodes := (nodes h)(a \<mapsto> f n)\<rparr>) }"

definition free_node :: "addr \<Rightarrow> heap \<Rightarrow> heap option" where
  "free_node a h = (if nodes h a = None then None else Some (h\<lparr>nodes := (nodes h)(a := None)\<rparr>))"

definition free_string :: "addr option \<Rightarrow> heap \<Rightarrow> heap option" where
  "free_string p h = (case p of None \<Rightarrow> Some h | Some a \<Rightarrow>
     if strs h a = None then None else Some (h\<lparr>strs := (strs h)(a := None)\<rparr>))"

definition has_flag :: "32 word \<Rightarrow> 32 word \<Rightarrow> bool" where
  "has_flag t flag \<longleftrightarrow> t AND flag \<noteq> 0"

text \<open>The fields of the item are read again after the children are deleted, as the code does.\<close>

partial_function (option) cJSON_Delete :: "addr option \<Rightarrow> heap \<Rightarrow> heap option" where
  "cJSON_Delete item h = (case item of None \<Rightarrow> Some h | Some a \<Rightarrow> do {
     n \<leftarrow> nodes h a;
     h1 \<leftarrow> (if \<not> has_flag (ntype n) cJSON_IsReference \<and> nchild n \<noteq> None
            then cJSON_Delete (nchild n) h else Some h);
     n1 \<leftarrow> nodes h1 a;
     h2 \<leftarrow> (if \<not> has_flag (ntype n1) cJSON_IsReference then free_string (nvaluestring n1) h1 else Some h1);
     h3 \<leftarrow> (if \<not> has_flag (ntype n1) cJSON_StringIsConst then free_string (nstring n1) h2 else Some h2);
     h4 \<leftarrow> free_node a h3;
     cJSON_Delete (nnext n) h4
   })"

section \<open>Creation\<close>

definition create :: "(node \<Rightarrow> node) \<Rightarrow> heap \<Rightarrow> (addr option \<times> heap) option" where
  "create f h = (case New_Item h of (None, h1) \<Rightarrow> Some (None, h1)
     | (Some a, h1) \<Rightarrow> do { h2 \<leftarrow> update a f h1; Some (Some a, h2) })"

definition cJSON_CreateNull :: "heap \<Rightarrow> (addr option \<times> heap) option" where
  "cJSON_CreateNull = create (\<lambda>n. n\<lparr>ntype := cJSON_NULL\<rparr>)"

definition cJSON_CreateTrue :: "heap \<Rightarrow> (addr option \<times> heap) option" where
  "cJSON_CreateTrue = create (\<lambda>n. n\<lparr>ntype := cJSON_True\<rparr>)"

definition cJSON_CreateFalse :: "heap \<Rightarrow> (addr option \<times> heap) option" where
  "cJSON_CreateFalse = create (\<lambda>n. n\<lparr>ntype := cJSON_False\<rparr>)"

definition cJSON_CreateBool :: "bool \<Rightarrow> heap \<Rightarrow> (addr option \<times> heap) option" where
  "cJSON_CreateBool b = create (\<lambda>n. n\<lparr>ntype := (if b then cJSON_True else cJSON_False)\<rparr>)"

definition cJSON_CreateNumber :: "double \<Rightarrow> heap \<Rightarrow> (addr option \<times> heap) option" where
  "cJSON_CreateNumber num = create (\<lambda>n. n\<lparr>ntype := cJSON_Number, nvaluedouble := num,
     nvalueint := saturate num\<rparr>)"

definition cJSON_CreateArray :: "heap \<Rightarrow> (addr option \<times> heap) option" where
  "cJSON_CreateArray = create (\<lambda>n. n\<lparr>ntype := cJSON_Array\<rparr>)"

definition cJSON_CreateObject :: "heap \<Rightarrow> (addr option \<times> heap) option" where
  "cJSON_CreateObject = create (\<lambda>n. n\<lparr>ntype := cJSON_Object\<rparr>)"

definition create_text :: "32 word \<Rightarrow> bytes option \<Rightarrow> heap \<Rightarrow> (addr option \<times> heap) option" where
  "create_text t string h = (case New_Item h of (None, h1) \<Rightarrow> Some (None, h1)
     | (Some a, h1) \<Rightarrow> do {
         h2 \<leftarrow> update a (\<lambda>n. n\<lparr>ntype := t\<rparr>) h1;
         (case cJSON_strdup string h2 of
            (None, h3) \<Rightarrow> do { h4 \<leftarrow> cJSON_Delete (Some a) h3; Some (None, h4) }
          | (Some p, h3) \<Rightarrow> do { h4 \<leftarrow> update a (\<lambda>n. n\<lparr>nvaluestring := Some p\<rparr>) h3; Some (Some a, h4) }) })"

definition cJSON_CreateString :: "bytes option \<Rightarrow> heap \<Rightarrow> (addr option \<times> heap) option" where
  "cJSON_CreateString = create_text cJSON_String"

definition cJSON_CreateRaw :: "bytes option \<Rightarrow> heap \<Rightarrow> (addr option \<times> heap) option" where
  "cJSON_CreateRaw = create_text cJSON_Raw"

section \<open>Linking\<close>

definition suffix_object :: "addr \<Rightarrow> addr \<Rightarrow> heap \<Rightarrow> heap option" where
  "suffix_object prev item h = do {
     h1 \<leftarrow> update prev (\<lambda>n. n\<lparr>nnext := Some item\<rparr>) h;
     update item (\<lambda>n. n\<lparr>nprev := Some prev\<rparr>) h1 }"

partial_function (option) last_sibling :: "addr \<Rightarrow> heap \<Rightarrow> addr option" where
  "last_sibling a h = do { n \<leftarrow> nodes h a;
     (case nnext n of None \<Rightarrow> Some a | Some b \<Rightarrow> last_sibling b h) }"

definition cJSON_AddItemToArray :: "addr option \<Rightarrow> addr option \<Rightarrow> heap \<Rightarrow> heap option" where
  "cJSON_AddItemToArray array item h = (case (array, item) of
     (Some a, Some i) \<Rightarrow> do {
       n \<leftarrow> nodes h a;
       (case nchild n of
          None \<Rightarrow> update a (\<lambda>n. n\<lparr>nchild := Some i\<rparr>) h
        | Some c \<Rightarrow> do { l \<leftarrow> last_sibling c h; suffix_object l i h }) }
   | _ \<Rightarrow> Some h)"

definition cJSON_AddItemToObjectCS :: "addr option \<Rightarrow> addr option \<Rightarrow> addr option \<Rightarrow> heap \<Rightarrow> heap option" where
  "cJSON_AddItemToObjectCS object string item h = (case (item, string) of
     (Some i, Some s) \<Rightarrow> do {
       n \<leftarrow> nodes h i;
       h1 \<leftarrow> (if \<not> has_flag (ntype n) cJSON_StringIsConst then free_string (nstring n) h else Some h);
       h2 \<leftarrow> update i (\<lambda>n. n\<lparr>nstring := Some s, ntype := ntype n OR cJSON_StringIsConst\<rparr>) h1;
       cJSON_AddItemToArray object item h2 }
   | _ \<Rightarrow> Some h)"

definition cJSON_AddItemToObject :: "addr option \<Rightarrow> bytes option \<Rightarrow> addr option \<Rightarrow> heap \<Rightarrow> heap option" where
  "cJSON_AddItemToObject object string item h = (case item of None \<Rightarrow> Some h | Some i \<Rightarrow>
     (case cJSON_strdup string h of (s, h1) \<Rightarrow> do {
        h2 \<leftarrow> cJSON_AddItemToObjectCS object s item h1;
        update i (\<lambda>n. n\<lparr>ntype := ntype n AND NOT cJSON_StringIsConst\<rparr>) h2 }))"

text \<open>A reference shares the child and the value string of the item.\<close>

definition create_reference :: "addr option \<Rightarrow> heap \<Rightarrow> (addr option \<times> heap) option" where
  "create_reference item h = (case item of None \<Rightarrow> Some (None, h) | Some i \<Rightarrow>
     (case New_Item h of (None, h1) \<Rightarrow> Some (None, h1)
      | (Some r, h1) \<Rightarrow> do {
          n \<leftarrow> nodes h1 i;
          h2 \<leftarrow> update r (\<lambda>_. n\<lparr>nstring := None, ntype := ntype n OR cJSON_IsReference,
                 nnext := None, nprev := None\<rparr>) h1;
          Some (Some r, h2) }))"

definition cJSON_AddItemReferenceToArray :: "addr option \<Rightarrow> addr option \<Rightarrow> heap \<Rightarrow> heap option" where
  "cJSON_AddItemReferenceToArray array item h = (if array = None then Some h
     else do { (r, h1) \<leftarrow> create_reference item h; cJSON_AddItemToArray array r h1 })"

definition cJSON_AddItemReferenceToObject ::
    "addr option \<Rightarrow> bytes option \<Rightarrow> addr option \<Rightarrow> heap \<Rightarrow> heap option" where
  "cJSON_AddItemReferenceToObject object string item h =
     (if object = None \<or> string = None then Some h
      else do { (r, h1) \<leftarrow> create_reference item h; cJSON_AddItemToObject object string r h1 })"

section \<open>Lookups in the store\<close>

fun nth_sibling :: "nat \<Rightarrow> addr option \<Rightarrow> heap \<Rightarrow> addr option option" where
  "nth_sibling k None h = Some None"
| "nth_sibling 0 (Some a) h = Some (Some a)"
| "nth_sibling (Suc k) (Some a) h = do { n \<leftarrow> nodes h a; nth_sibling k (nnext n) h }"

definition get_array_item_h :: "addr option \<Rightarrow> nat \<Rightarrow> heap \<Rightarrow> addr option option" where
  "get_array_item_h array index h = (case array of None \<Rightarrow> Some None
     | Some a \<Rightarrow> do { n \<leftarrow> nodes h a; nth_sibling index (nchild n) h })"

text \<open>The string a pointer denotes; the outer \<^const>\<open>None\<close> is a dangling pointer.\<close>

definition deref :: "addr option \<Rightarrow> heap \<Rightarrow> bytes option option" where
  "deref p h = (case p of None \<Rightarrow> Some None | Some a \<Rightarrow> do { s \<leftarrow> strs h a; Some (Some s) })"

partial_function (option) find_sibling :: "bytes \<Rightarrow> bool \<Rightarrow> addr option \<Rightarrow> heap \<Rightarrow> addr option option" where
  "find_sibling name cs a h = (case a of None \<Rightarrow> Some None | Some i \<Rightarrow> do {
     n \<leftarrow> nodes h i;
     k \<leftarrow> deref (nstring n) h;
     (if cs \<and> k = None then None
      else if (if cs then k = Some name else case_insensitive_strcmp (Some name) k = 0) then Some (Some i)
      else find_sibling name cs (nnext n) h) })"

definition get_object_item_h :: "addr option \<Rightarrow> bytes option \<Rightarrow> bool \<Rightarrow> heap \<Rightarrow> addr option option" where
  "get_object_item_h object name case_sensitive h = (case (object, name) of
     (Some ob, Some s) \<Rightarrow> do { n \<leftarrow> nodes h ob; find_sibling s case_sensitive (nchild n) h }
   | _ \<Rightarrow> Some None)"

section \<open>Detaching, inserting, replacing\<close>

definition update_opt :: "addr option \<Rightarrow> (node \<Rightarrow> node) \<Rightarrow> heap \<Rightarrow> heap option" where
  "update_opt a f h = (case a of None \<Rightarrow> Some h | Some b \<Rightarrow> update b f h)"

definition cJSON_DetachItemViaPointer ::
    "addr option \<Rightarrow> addr option \<Rightarrow> heap \<Rightarrow> (addr option \<times> heap) option" where
  "cJSON_DetachItemViaPointer parent item h = (case (parent, item) of
     (Some p, Some i) \<Rightarrow> do {
       n \<leftarrow> nodes h i;
       h1 \<leftarrow> update_opt (nprev n) (\<lambda>m. m\<lparr>nnext := nnext n\<rparr>) h;
       n1 \<leftarrow> nodes h1 i;
       h2 \<leftarrow> update_opt (nnext n1) (\<lambda>m. m\<lparr>nprev := nprev n1\<rparr>) h1;
       pn \<leftarrow> nodes h2 p;
       n2 \<leftarrow> nodes h2 i;
       h3 \<leftarrow> (if nchild pn = Some i then update p (\<lambda>m. m\<lparr>nchild := nnext n2\<rparr>) h2 else Some h2);
       h4 \<leftarrow> update i (\<lambda>m. m\<lparr>nprev := None, nnext := None\<rparr>) h3;
       Some (item, h4) }
   | _ \<Rightarrow> Some (None, h))"

definition cJSON_DetachItemFromArray :: "addr option \<Rightarrow> int \<Rightarrow> heap \<Rightarrow> (addr option \<times> heap) option" where
  "cJSON_DetachItemFromArray array which h = (if which < 0 then Some (None, h)
     else do { i \<leftarrow> get_array_item_h array (nat which) h; cJSON_DetachItemViaPointer array i h })"

definition cJSON_DeleteItemFromArray :: "addr option \<Rightarrow> int \<Rightarrow> heap \<Rightarrow> heap option" where
  "cJSON_DeleteItemFromArray array which h =
     do { (i, h1) \<leftarrow> cJSON_DetachItemFromArray array which h; cJSON_Delete i h1 }"

definition detach_from_object ::
    "bool \<Rightarrow> addr option \<Rightarrow> bytes option \<Rightarrow> heap \<Rightarrow> (addr option \<times> heap) option" where
  "detach_from_object cs object string h =
     do { i \<leftarrow> get_object_item_h object string cs h; cJSON_DetachItemViaPointer object i h }"

definition cJSON_DetachItemFromObject :: "addr option \<Rightarrow> bytes option \<Rightarrow> heap \<Rightarrow> (addr option \<times> heap) option" where
  "cJSON_DetachItemFromObject = detach_from_object False"

definition cJSON_DetachItemFromObjectCaseSensitive ::
    "addr option \<Rightarrow> bytes option \<Rightarrow> heap \<Rightarrow> (addr option \<times> heap) option" where
  "cJSON_DetachItemFromObjectCaseSensitive = detach_from_object True"

definition cJSON_DeleteItemFromObject :: "addr option \<Rightarrow> bytes option \<Rightarrow> heap \<Rightarrow> heap option" where
  "cJSON_DeleteItemFromObject object string h =
     do { (i, h1) \<leftarrow> cJSON_DetachItemFromObject object string h; cJSON_Delete i h1 }"

definition cJSON_DeleteItemFromObjectCaseSensitive :: "addr option \<Rightarrow> bytes option \<Rightarrow> heap \<Rightarrow> heap option" where
  "cJSON_DeleteItemFromObjectCaseSensitive object string h =
     do { (i, h1) \<leftarrow> cJSON_DetachItemFromObjectCaseSensitive object string h; cJSON_Delete i h1 }"

text \<open>\<open>newitem\<close> is not tested for NULL before it is written to.\<close>

definition cJSON_InsertItemInArray :: "addr option \<Rightarrow> int \<Rightarrow> addr option \<Rightarrow> heap \<Rightarrow> heap option" where
  "cJSON_InsertItemInArray array which newitem h =
     (if which < 0 then Some h
      else do {
        after \<leftarrow> get_array_item_h array (nat which) h;
        (case after of None \<Rightarrow> cJSON_AddItemToArray array newitem h
         | Some b \<Rightarrow> do {
             i \<leftarrow> newitem;
             a \<leftarrow> array;
             bn \<leftarrow> nodes h b;
             h1 \<leftarrow> update i (\<lambda>m. m\<lparr>nnext := Some b, nprev := nprev bn\<rparr>) h;
             h2 \<leftarrow> update b (\<lambda>m. m\<lparr>nprev := Some i\<rparr>) h1;
             an \<leftarrow> nodes h2 a;
             (if nchild an = Some b then update a (\<lambda>m. m\<lparr>nchild := Some i\<rparr>) h2
              else do { m \<leftarrow> nodes h2 i; q \<leftarrow> nprev m; update q (\<lambda>m. m\<lparr>nnext := Some i\<rparr>) h2 }) }) })"

definition cJSON_ReplaceItemViaPointer ::
    "addr option \<Rightarrow> addr option \<Rightarrow> addr option \<Rightarrow> heap \<Rightarrow> (bool \<times> heap) option" where
  "cJSON_ReplaceItemViaPointer parent item replacement h = (case (parent, replacement, item) of
     (Some p, Some r, Some i) \<Rightarrow>
       if r = i then Some (True, h)
       else do {
         n \<leftarrow> nodes h i;
         h1 \<leftarrow> update r (\<lambda>m. m\<lparr>nnext := nnext n, nprev := nprev n\<rparr>) h;
         rn \<leftarrow> nodes h1 r;
         h2 \<leftarrow> update_opt (nnext rn) (\<lambda>m. m\<lparr>nprev := Some r\<rparr>) h1;
         rn2 \<leftarrow> nodes h2 r;
         h3 \<leftarrow> update_opt (nprev rn2) (\<lambda>m. m\<lparr>nnext := Some r\<rparr>) h2;
         pn \<leftarrow> nodes h3 p;
         h4 \<leftarrow> (if nchild pn = Some i then update p (\<lambda>m. m\<lparr>nchild := Some r\<rparr>) h3 else Some h3);
         h5 \<leftarrow> update i (\<lambda>m. m\<lparr>nnext := None, nprev := None\<rparr>) h4;
         h6 \<leftarrow> cJSON_Delete (Some i) h5;
         Some (True, h6) }
   | _ \<Rightarrow> Some (False, h))"

definition cJSON_ReplaceItemInArray :: "addr option \<Rightarrow> int \<Rightarrow> addr option \<Rightarrow> heap \<Rightarrow> heap option" where
  "cJSON_ReplaceItemInArray array which newitem h = (if which < 0 then Some h
     else do { i \<leftarrow> get_array_item_h array (nat which) h;
               (_, h1) \<leftarrow> cJSON_ReplaceItemViaPointer array i newitem h; Some h1 })"

definition replace_item_in_object ::
    "addr option \<Rightarrow> bytes option \<Rightarrow> addr option \<Rightarrow> bool \<Rightarrow> heap \<Rightarrow> (bool \<times> heap) option" where
  "replace_item_in_object object string replacement case_sensitive h =
     (case (replacement, string) of
        (Some r, Some s) \<Rightarrow> do {
          n \<leftarrow> nodes h r;
          h1 \<leftarrow> (if \<not> has_flag (ntype n) cJSON_StringIsConst then free_string (nstring n) h else Some h);
          (case cJSON_strdup string h1 of (p, h2) \<Rightarrow> do {
             h3 \<leftarrow> update r (\<lambda>m. m\<lparr>nstring := p, ntype := ntype m AND NOT cJSON_StringIsConst\<rparr>) h2;
             i \<leftarrow> get_object_item_h object string case_sensitive h3;
             (_, h4) \<leftarrow> cJSON_ReplaceItemViaPointer object i replacement h3;
             Some (True, h4) }) }
      | _ \<Rightarrow> Some (False, h))"

definition cJSON_ReplaceItemInObject :: "addr option \<Rightarrow> bytes option \<Rightarrow> addr option \<Rightarrow> heap \<Rightarrow> heap option" where
  "cJSON_ReplaceItemInObject object string newitem h =
     do { (_, h1) \<leftarrow> replace_item_in_object object string newitem False h; Some h1 }"

definition cJSON_ReplaceItemInObjectCaseSensitive ::
    "addr option \<Rightarrow> bytes option \<Rightarrow> addr option \<Rightarrow> heap \<Rightarrow> heap option" where
  "cJSON_ReplaceItemInObjectCaseSensitive object string newitem h =
     do { (_, h1) \<leftarrow> replace_item_in_object object string newitem True h; Some h1 }"

section \<open>Arrays of values\<close>

text \<open>
  The loop shared by the \<open>Create...Array\<close> functions: \<open>mk\<close> makes the items, \<open>a\<close> is the array,
  \<open>p\<close> the last item linked, \<open>k\<close> the number of items to come and \<open>xs\<close> the rest of the block
  \<open>numbers\<close>, whose end the loop does not know.
\<close>

fun fill_array :: "('a \<Rightarrow> heap \<Rightarrow> (addr option \<times> heap) option) \<Rightarrow> addr \<Rightarrow> addr option \<Rightarrow> nat \<Rightarrow> 'a list
    \<Rightarrow> heap \<Rightarrow> (addr option \<times> heap) option" where
  "fill_array mk a p 0 xs h = Some (Some a, h)"
| "fill_array mk a p (Suc k) [] h = None"
| "fill_array mk a p (Suc k) (x # xs) h = do {
     (n, h1) \<leftarrow> mk x h;
     (case n of None \<Rightarrow> do { h2 \<leftarrow> cJSON_Delete (Some a) h1; Some (None, h2) }
      | Some c \<Rightarrow> do {
          h2 \<leftarrow> (case p of None \<Rightarrow> update a (\<lambda>m. m\<lparr>nchild := Some c\<rparr>) h1 | Some q \<Rightarrow> suffix_object q c h1);
          fill_array mk a (Some c) k xs h2 }) }"

definition create_array ::
    "('a \<Rightarrow> heap \<Rightarrow> (addr option \<times> heap) option) \<Rightarrow> 'a list option \<Rightarrow> int \<Rightarrow> heap \<Rightarrow> (addr option \<times> heap) option" where
  "create_array mk numbers count h = (case numbers of None \<Rightarrow> Some (None, h) | Some xs \<Rightarrow>
     if count < 0 then Some (None, h)
     else do {
       (a, h1) \<leftarrow> cJSON_CreateArray h;
       (case a of None \<Rightarrow> Some (None, h1) | Some r \<Rightarrow> fill_array mk r None (nat count) xs h1) })"

definition cJSON_CreateIntArray :: "int list option \<Rightarrow> int \<Rightarrow> heap \<Rightarrow> (addr option \<times> heap) option" where
  "cJSON_CreateIntArray = create_array (\<lambda>n. cJSON_CreateNumber (dbl_int n))"

text \<open>A \<open>float\<close> is given by the \<open>double\<close> of the same value.\<close>

definition cJSON_CreateFloatArray :: "double list option \<Rightarrow> int \<Rightarrow> heap \<Rightarrow> (addr option \<times> heap) option" where
  "cJSON_CreateFloatArray = create_array cJSON_CreateNumber"

definition cJSON_CreateDoubleArray :: "double list option \<Rightarrow> int \<Rightarrow> heap \<Rightarrow> (addr option \<times> heap) option" where
  "cJSON_CreateDoubleArray = create_array cJSON_CreateNumber"

definition cJSON_CreateStringArray :: "bytes option list option \<Rightarrow> int \<Rightarrow> heap \<Rightarrow> (addr option \<times> heap) option" where
  "cJSON_CreateStringArray = create_array cJSON_CreateString"

section \<open>Reading a tree\<close>

text \<open>
  The tree below a chain of siblings, as the printer walks it: the strings are read through
  their pointers, the children before the next sibling.
\<close>

partial_function (option) load :: "addr option \<Rightarrow> heap \<Rightarrow> cJSON list option" where
  "load a h = (case a of None \<Rightarrow> Some [] | Some i \<Rightarrow> do {
     n \<leftarrow> nodes h i;
     vs \<leftarrow> deref (nvaluestring n) h;
     k \<leftarrow> deref (nstring n) h;
     ch \<leftarrow> load (nchild n) h;
     rest \<leftarrow> load (nnext n) h;
     Some (CJSON (ntype n) vs (nvalueint n) (nvaluedouble n) k ch # rest) })"

end
