(* ===== verification/HeapTrees.thy ===== *)
theory HeapTrees
  imports CJson_Heap "HOL-Library.Multiset"
begin

text \<open>
  Memory safety of the items in the store: which trees a store holds, that \<open>cJSON_Delete\<close>
  frees each block of a tree exactly once, and that linking an item keeps the store a forest.
\<close>

section \<open>Trees in the store\<close>

text \<open>
  A tree together with the addresses of its nodes and strings, and what it means that the store
  holds a list of siblings: every node at its address with the links of the list, every string
  at its address. \<open>node_addrs\<close> and \<open>string_addrs\<close> are what \<open>cJSON_Delete\<close> has to free.
\<close>

datatype ltree = LT (laddr: addr) (ltype: "32 word") (lvs: "(addr \<times> bytes) option") (lvi: int)
  (lvd: double) (lkey: "(addr \<times> bytes) option") (lchildren: "ltree list")

fun erase :: "ltree \<Rightarrow> cJSON" where
  "erase (LT a t vs vi vd k ch) = CJSON t (map_option snd vs) vi vd (map_option snd k) (map erase ch)"

definition first :: "ltree list \<Rightarrow> addr option" where
  "first ts = (case ts of [] \<Rightarrow> None | t # _ \<Rightarrow> Some (laddr t))"

definition string_at :: "heap \<Rightarrow> (addr \<times> bytes) option \<Rightarrow> bool" where
  "string_at h p = (case p of None \<Rightarrow> True | Some (a, s) \<Rightarrow> strs h a = Some s)"

definition string_list :: "(addr \<times> bytes) option \<Rightarrow> addr list" where
  "string_list p = (case p of None \<Rightarrow> [] | Some (a, s) \<Rightarrow> [a])"

fun node_addrs :: "ltree list \<Rightarrow> addr list" where
  "node_addrs [] = []"
| "node_addrs (LT a t vs vi vd k ch # ts) = a # node_addrs ch @ node_addrs ts"

fun string_addrs :: "ltree list \<Rightarrow> addr list" where
  "string_addrs [] = []"
| "string_addrs (LT a t vs vi vd k ch # ts) = string_list vs @ string_list k @ string_addrs ch @ string_addrs ts"

definition lnode :: "addr option \<Rightarrow> ltree \<Rightarrow> ltree list \<Rightarrow> node" where
  "lnode prev t ts = \<lparr>ntype = ltype t, nvaluestring = map_option fst (lvs t), nvalueint = lvi t,
     nvaluedouble = lvd t, nstring = map_option fst (lkey t), nnext = first ts, nprev = prev,
     nchild = first (lchildren t)\<rparr>"

fun linked :: "heap \<Rightarrow> addr option \<Rightarrow> ltree list \<Rightarrow> bool" where
  "linked h prev [] = True"
| "linked h prev (LT a t vs vi vd k ch # ts) =
     (nodes h a = Some (lnode prev (LT a t vs vi vd k ch) ts) \<and> string_at h vs \<and> string_at h k
      \<and> linked h None ch \<and> linked h (Some a) ts)"

text \<open>Trees without references and constant names: each node owns what it points to.\<close>

fun owning :: "ltree list \<Rightarrow> bool" where
  "owning [] = True"
| "owning (LT a t vs vi vd k ch # ts) =
     (\<not> has_flag t cJSON_IsReference \<and> \<not> has_flag t cJSON_StringIsConst \<and> owning ch \<and> owning ts)"

definition separate :: "ltree list \<Rightarrow> bool" where
  "separate ts \<longleftrightarrow> distinct (node_addrs ts) \<and> distinct (string_addrs ts)"

definition release :: "addr list \<Rightarrow> addr list \<Rightarrow> heap \<Rightarrow> heap" where
  "release ns ss h = h\<lparr>nodes := nodes h |` (- set ns), strs := strs h |` (- set ss)\<rparr>"

lemma first_simps [simp]: "first [] = None" "first (t # ts) = Some (laddr t)"
  by (simp_all add: first_def)

lemma first_None_iff [simp]: "first ts = None \<longleftrightarrow> ts = []"
  by (cases ts) auto

lemma linked_agree:
  assumes "linked h prev ts"
    and "\<And>a. a \<in> set (node_addrs ts) \<Longrightarrow> nodes h' a = nodes h a"
    and "\<And>a. a \<in> set (string_addrs ts) \<Longrightarrow> strs h' a = strs h a"
  shows "linked h' prev ts"
  using assms
proof (induction h prev ts rule: linked.induct)
  case (2 h prev a t vs vi vd k ch ts)
  then show ?case by (auto simp: string_at_def string_list_def split: option.splits)
qed simp

lemma load_linked: "linked h prev ts \<Longrightarrow> load (first ts) h = Some (map erase ts)"
proof (induction h prev ts rule: linked.induct)
  case (1 h prev)
  then show ?case by (simp add: load.simps)
next
  case (2 h prev a t vs vi vd k ch ts)
  have d: "deref (map_option fst p) h = Some (map_option snd p)" if "string_at h p" for p
    using that by (auto simp: deref_def string_at_def split: option.splits)
  show ?case using 2 by (subst load.simps) (simp add: d lnode_def)
qed

lemma restrict_UNIV [simp]: "m |` UNIV = m"
  by (rule ext) (simp add: restrict_map_def)

lemma release_nil [simp]: "release [] [] h = h"
  by (simp add: release_def)

lemma release_append [simp]: "release ns' ss' (release ns ss h) = release (ns @ ns') (ss @ ss') h"
  by (simp add: release_def Compl_Un inf_commute restrict_restrict)

lemma release_cong: "set ns = set ns' \<Longrightarrow> set ss = set ss' \<Longrightarrow> release ns ss h = release ns' ss' h"
  by (simp add: release_def)

lemma free_string_at:
  "string_at h p \<Longrightarrow> free_string (map_option fst p) h = Some (release [] (string_list p) h)"
  by (auto simp: free_string_def string_at_def string_list_def release_def restrict_complement_singleton_eq
      split: option.splits)

lemma free_node_at: "nodes h a \<noteq> None \<Longrightarrow> free_node a h = Some (release [a] [] h)"
  by (simp add: free_node_def release_def restrict_complement_singleton_eq)

lemma linked_release:
  "linked h prev ts \<Longrightarrow> set ns \<inter> set (node_addrs ts) = {} \<Longrightarrow> set ss \<inter> set (string_addrs ts) = {}
    \<Longrightarrow> linked (release ns ss h) prev ts"
  by (rule linked_agree[of h]) (auto simp: release_def restrict_map_def)

text \<open>\<open>cJSON_Delete\<close> frees every node and every string of the list once and nothing else.\<close>

lemma Delete_linked:
  assumes "linked h prev ts" and "separate ts" and "owning ts"
  shows "cJSON_Delete (first ts) h = Some (release (node_addrs ts) (string_addrs ts) h)"
  using assms
proof (induction ts arbitrary: h prev rule: node_addrs.induct)
  case 1
  show ?case by (simp add: cJSON_Delete.simps)
next
  case (2 a t vs vi vd k ch ts)
  let ?n = "lnode prev (LT a t vs vi vd k ch) ts"
  have l: "nodes h a = Some ?n" "string_at h vs" "string_at h k" "linked h None ch" "linked h (Some a) ts"
    using "2.prems"(1) by auto
  have f: "\<not> has_flag t cJSON_IsReference" "\<not> has_flag t cJSON_StringIsConst" "owning ch" "owning ts"
    using "2.prems"(3) by auto
  have s: "separate ch" "separate ts" and dis: "a \<notin> set (node_addrs ch)"
    "set (node_addrs ch) \<inter> set (node_addrs ts) = {}" "a \<notin> set (node_addrs ts)"
    "set (string_list vs) \<inter> set (string_list k) = {}" "set (string_list vs) \<inter> set (string_addrs ch) = {}"
    "set (string_list k) \<inter> set (string_addrs ch) = {}"
    "(set (string_list vs) \<union> set (string_list k) \<union> set (string_addrs ch)) \<inter> set (string_addrs ts) = {}"
    using "2.prems"(2) by (auto simp: separate_def)
  define h1 where "h1 = release (node_addrs ch) (string_addrs ch) h"
  have h1: "(if ch \<noteq> [] then cJSON_Delete (first ch) h else Some h) = Some h1"
    using "2.IH"(1)[OF l(4) s(1) f(3)] by (auto simp: h1_def)
  have at: "nodes h1 a = Some ?n" "string_at h1 vs" "string_at h1 k"
    using l dis by (auto simp: h1_def release_def string_at_def string_list_def restrict_map_def split: option.splits)
  define h2 where "h2 = release [] (string_list vs) h1"
  have "string_at h2 k"
    using at(3) dis(4) by (auto simp: h2_def release_def string_at_def string_list_def restrict_map_def split: option.splits)
  note fs = free_string_at[OF at(2)] free_string_at[OF this]
  define h4 where "h4 = release [a] [] (release [] (string_list k) h2)"
  have "nodes (release [] (string_list k) h2) a \<noteq> None" using at(1) by (simp add: h2_def release_def)
  note fn = free_node_at[OF this]
  have h4: "h4 = release (node_addrs ch @ [a]) (string_addrs ch @ string_list vs @ string_list k) h"
    by (simp add: h4_def h2_def h1_def)
  have "linked h4 (Some a) ts"
    unfolding h4 using l(5) dis by (intro linked_release) auto
  from "2.IH"(2)[OF this s(2) f(4)]
  have "cJSON_Delete (first ts) h4 = Some (release (node_addrs ts) (string_addrs ts) h4)" .
  moreover have "release (node_addrs ts) (string_addrs ts) h4
      = release (node_addrs (LT a t vs vi vd k ch # ts)) (string_addrs (LT a t vs vi vd k ch # ts)) h"
    unfolding h4 release_append by (rule release_cong) auto
  ultimately show ?case
    using l(1) f h1 at(1) fs fn
    by (subst cJSON_Delete.simps) (simp add: lnode_def h2_def h4_def del: not_None_eq split del: if_split cong: if_cong)
qed

section \<open>Linking an item below a node\<close>

fun adopt :: "addr \<Rightarrow> ltree \<Rightarrow> ltree list \<Rightarrow> ltree list" where
  "adopt d x [] = []"
| "adopt d x (LT a t vs vi vd k ch # ts) =
     LT a t vs vi vd k (if a = d then ch @ [x] else adopt d x ch) # adopt d x ts"

lemma adopt_other [simp]: "d \<notin> set (node_addrs ts) \<Longrightarrow> adopt d x ts = ts"
  by (induction ts rule: node_addrs.induct) auto

lemma first_adopt [simp]: "first (adopt d x ts) = first ts"
  by (cases ts rule: node_addrs.cases) auto

lemma adopt_append [simp]: "adopt d x (ts @ us) = adopt d x ts @ adopt d x us"
  by (induction ts rule: node_addrs.induct) auto

lemma addrs_append [simp]:
  "node_addrs (ts @ us) = node_addrs ts @ node_addrs us"
  "string_addrs (ts @ us) = string_addrs ts @ string_addrs us"
  "owning (ts @ us) \<longleftrightarrow> owning ts \<and> owning us"
  by (induction ts rule: node_addrs.induct) auto

lemma adopt_addrs:
  assumes "distinct (node_addrs ts)" and "d \<in> set (node_addrs ts)"
  shows "mset (node_addrs (adopt d x ts)) = mset (node_addrs ts) + mset (node_addrs [x])"
    and "mset (string_addrs (adopt d x ts)) = mset (string_addrs ts) + mset (string_addrs [x])"
proof -
  have "mset (node_addrs (adopt d x ts)) = mset (node_addrs ts) + mset (node_addrs [x])
      \<and> mset (string_addrs (adopt d x ts)) = mset (string_addrs ts) + mset (string_addrs [x])"
    using assms
  proof (induction ts rule: node_addrs.induct)
    case (2 a t vs vi vd k ch ts)
    consider "a = d" "d \<notin> set (node_addrs ts)" | "a \<noteq> d" "d \<in> set (node_addrs ch)" "d \<notin> set (node_addrs ts)"
      | "a \<noteq> d" "d \<notin> set (node_addrs ch)" "d \<in> set (node_addrs ts)"
      using "2.prems" by auto
    then show ?case by cases (use 2 in \<open>simp_all add: ac_simps\<close>)
  qed simp
  then show "mset (node_addrs (adopt d x ts)) = mset (node_addrs ts) + mset (node_addrs [x])"
    and "mset (string_addrs (adopt d x ts)) = mset (string_addrs ts) + mset (string_addrs [x])" by auto
qed

lemma adopt_owning: "owning ts \<Longrightarrow> owning [x] \<Longrightarrow> owning (adopt d x ts)"
  by (induction ts rule: node_addrs.induct) auto

text \<open>The children of a node in a linked tree, and what relinking them does to the tree.\<close>

lemma adopt_context:
  assumes "linked h prev ts" and "distinct (node_addrs ts)" and "d \<in> set (node_addrs ts)"
  shows "\<exists>n ch. nodes h d = Some n \<and> nchild n = first ch \<and> linked h None ch
    \<and> set (node_addrs ch) \<subseteq> set (node_addrs ts) - {d} \<and> set (string_addrs ch) \<subseteq> set (string_addrs ts)
    \<and> distinct (node_addrs ch)
    \<and> (\<forall>h' x. nodes h' d = Some (n\<lparr>nchild := first (ch @ [x])\<rparr>) \<longrightarrow> linked h' None (ch @ [x])
      \<longrightarrow> (\<forall>a \<in> set (node_addrs ts) - insert d (set (node_addrs ch)). nodes h' a = nodes h a)
      \<longrightarrow> (\<forall>a \<in> set (string_addrs ts). strs h' a = strs h a) \<longrightarrow> linked h' prev (adopt d x ts))"
  using assms
proof (induction ts arbitrary: prev rule: node_addrs.induct)
  case (2 a t vs vi vd k ch ts)
  let ?n = "lnode prev (LT a t vs vi vd k ch) ts"
  have l: "nodes h a = Some ?n" "string_at h vs" "string_at h k" "linked h None ch" "linked h (Some a) ts"
    using "2.prems"(1) by auto
  have str: "string_at h' vs \<and> string_at h' k"
    if "\<forall>a \<in> set (string_addrs (LT a t vs vi vd k ch # ts)). strs h' a = strs h a" for h'
    using that l(2,3) by (auto simp: string_at_def string_list_def split: option.splits)
  consider "a = d" | "a \<noteq> d" "d \<in> set (node_addrs ch)" | "a \<noteq> d" "d \<notin> set (node_addrs ch)" "d \<in> set (node_addrs ts)"
    using "2.prems"(3) by auto
  then show ?case
  proof cases
    case 1
    have "linked h' prev (adopt d x (LT a t vs vi vd k ch # ts))"
      if h': "nodes h' d = Some (?n\<lparr>nchild := first (ch @ [x])\<rparr>)" "linked h' None (ch @ [x])"
        "\<forall>b \<in> set (node_addrs (LT a t vs vi vd k ch # ts)) - insert d (set (node_addrs ch)). nodes h' b = nodes h b"
        "\<forall>b \<in> set (string_addrs (LT a t vs vi vd k ch # ts)). strs h' b = strs h b" for h' x
    proof -
      have "linked h' (Some a) ts"
        by (rule linked_agree[OF l(5)]) (use h'(3,4) "2.prems"(2) 1 in auto)
      then show ?thesis using h'(1,2) str[OF h'(4)] 1 "2.prems"(2) by (auto simp: lnode_def)
    qed
    then show ?thesis using l(1,4) 1 "2.prems"(2)
      by (intro exI[of _ ?n] exI[of _ ch]) (auto simp: lnode_def)
  next
    case 2
    then obtain n c where c: "nodes h d = Some n" "nchild n = first c" "linked h None c"
      "set (node_addrs c) \<subseteq> set (node_addrs ch) - {d}" "set (string_addrs c) \<subseteq> set (string_addrs ch)"
      "distinct (node_addrs c)"
      and ctx: "\<And>h' x. nodes h' d = Some (n\<lparr>nchild := first (c @ [x])\<rparr>) \<Longrightarrow> linked h' None (c @ [x])
      \<Longrightarrow> (\<forall>a \<in> set (node_addrs ch) - insert d (set (node_addrs c)). nodes h' a = nodes h a)
      \<Longrightarrow> (\<forall>a \<in> set (string_addrs ch). strs h' a = strs h a) \<Longrightarrow> linked h' None (adopt d x ch)"
      using "2.IH"(1)[OF l(4)] "2.prems"(2) by (auto 0 0)
    have "linked h' prev (adopt d x (LT a t vs vi vd k ch # ts))"
      if h': "nodes h' d = Some (n\<lparr>nchild := first (c @ [x])\<rparr>)" "linked h' None (c @ [x])"
        "\<forall>b \<in> set (node_addrs (LT a t vs vi vd k ch # ts)) - insert d (set (node_addrs c)). nodes h' b = nodes h b"
        "\<forall>b \<in> set (string_addrs (LT a t vs vi vd k ch # ts)). strs h' b = strs h b" for h' x
    proof -
      have "linked h' (Some a) ts"
        by (rule linked_agree[OF l(5)]) (use h'(3,4) "2.prems"(2) 2 c(4) in auto)
      moreover have "linked h' None (adopt d x ch)"
        by (rule ctx[OF h'(1,2)]) (use h'(3,4) in auto)
      moreover have "nodes h' a = nodes h a" using h'(3) 2 c(4) "2.prems"(2) by auto
      moreover have "d \<notin> set (node_addrs ts)" using 2 "2.prems"(2) by auto
      ultimately show ?thesis using str[OF h'(4)] 2 "2.prems"(2) l(1) by (auto simp: lnode_def)
    qed
    then show ?thesis using c 2 "2.prems"(2) by (intro exI[of _ n] exI[of _ c]) auto
  next
    case 3
    then obtain n c where c: "nodes h d = Some n" "nchild n = first c" "linked h None c"
      "set (node_addrs c) \<subseteq> set (node_addrs ts) - {d}" "set (string_addrs c) \<subseteq> set (string_addrs ts)"
      "distinct (node_addrs c)"
      and ctx: "\<And>h' x. nodes h' d = Some (n\<lparr>nchild := first (c @ [x])\<rparr>) \<Longrightarrow> linked h' None (c @ [x])
      \<Longrightarrow> (\<forall>a \<in> set (node_addrs ts) - insert d (set (node_addrs c)). nodes h' a = nodes h a)
      \<Longrightarrow> (\<forall>a \<in> set (string_addrs ts). strs h' a = strs h a) \<Longrightarrow> linked h' (Some a) (adopt d x ts)"
      using "2.IH"(2)[OF l(5)] "2.prems"(2) by (auto 0 0)
    have "linked h' prev (adopt d x (LT a t vs vi vd k ch # ts))"
      if h': "nodes h' d = Some (n\<lparr>nchild := first (c @ [x])\<rparr>)" "linked h' None (c @ [x])"
        "\<forall>b \<in> set (node_addrs (LT a t vs vi vd k ch # ts)) - insert d (set (node_addrs c)). nodes h' b = nodes h b"
        "\<forall>b \<in> set (string_addrs (LT a t vs vi vd k ch # ts)). strs h' b = strs h b" for h' x
    proof -
      have "linked h' None ch"
        by (rule linked_agree[OF l(4)]) (use h'(3,4) "2.prems"(2) 3 c(4) in auto)
      moreover have "linked h' (Some a) (adopt d x ts)"
        by (rule ctx[OF h'(1,2)]) (use h'(3,4) in auto)
      moreover have "nodes h' a = nodes h a" using h'(3) 3 c(4) "2.prems"(2) by auto
      ultimately show ?thesis using str[OF h'(4)] 3 "2.prems"(2) l(1) by (auto simp: lnode_def)
    qed
    then show ?thesis using c 3 "2.prems"(2) by (intro exI[of _ n] exI[of _ c]) auto
  qed
qed simp

lemma last_sibling_linked:
  "linked h prev ts \<Longrightarrow> ts \<noteq> [] \<Longrightarrow> last_sibling (laddr (hd ts)) h = Some (laddr (last ts))"
proof (induction ts arbitrary: prev rule: node_addrs.induct)
  case (2 a t vs vi vd k ch ts)
  show ?case
  proof (cases ts)
    case Nil
    then show ?thesis using "2.prems" by (subst last_sibling.simps) (simp add: lnode_def)
  next
    case (Cons u us)
    then show ?thesis using "2.IH"(2)[of "Some a"] "2.prems" by (subst last_sibling.simps) (simp add: lnode_def)
  qed
qed simp

lemma laddr_in [simp]: "t \<in> set ts \<Longrightarrow> laddr t \<in> set (node_addrs ts)"
  by (induction ts rule: node_addrs.induct) auto

lemma linked_snoc:
  assumes "linked h prev ts" and "ts \<noteq> []" and "distinct (node_addrs ts)"
    and "nodes h' (laddr (last ts)) = map_option (\<lambda>n. n\<lparr>nnext := Some (laddr x)\<rparr>) (nodes h (laddr (last ts)))"
    and "\<forall>a \<in> set (node_addrs ts) - {laddr (last ts)}. nodes h' a = nodes h a"
    and "\<forall>a \<in> set (string_addrs ts). strs h' a = strs h a"
    and "linked h' (Some (laddr (last ts))) [x]"
  shows "linked h' prev (ts @ [x])"
  using assms
proof (induction ts arbitrary: prev rule: node_addrs.induct)
  case (2 a t vs vi vd k ch ts)
  have l: "string_at h vs" "string_at h k" "linked h None ch" "linked h (Some a) ts"
    using "2.prems"(1) by auto
  have str: "string_at h' vs" "string_at h' k"
    using "2.prems"(6) l(1,2) by (auto simp: string_at_def string_list_def split: option.splits)
  have "laddr (last (LT a t vs vi vd k ch # ts)) \<notin> set (node_addrs ch)"
    using "2.prems"(3) laddr_in[of "last ts" ts] by (auto simp del: laddr_in)
  then have ch: "linked h' None ch"
    using "2.prems"(5,6) by (intro linked_agree[OF l(3)]) auto
  show ?case
  proof (cases "ts = []")
    case True
    then show ?thesis using "2.prems"(1,4,7) str ch by (simp add: lnode_def)
  next
    case False
    then have "a \<noteq> laddr (last ts)" using "2.prems"(3) laddr_in[of "last ts" ts] by auto
    moreover have "linked h' (Some a) (ts @ [x])"
      by (rule "2.IH"(2)[OF l(4) False]) (use "2.prems" False in auto)
    moreover have "first (ts @ [x]) = first ts" using False by (cases ts) auto
    ultimately show ?thesis using "2.prems"(1,5) str ch False by (simp add: lnode_def)
  qed
qed simp

lemma linked_prev:
  assumes "linked h None [x]" and "distinct (node_addrs [x])"
    and "nodes h' (laddr x) = map_option (\<lambda>n. n\<lparr>nprev := p\<rparr>) (nodes h (laddr x))"
    and "\<forall>a \<in> set (node_addrs [x]) - {laddr x}. nodes h' a = nodes h a" and "strs h' = strs h"
  shows "linked h' p [x]"
proof (cases x)
  case (LT a t vs vi vd k ch)
  have "linked h' None ch" by (rule linked_agree[of h]) (use assms LT in auto)
  then show ?thesis using assms LT by (auto simp: lnode_def string_at_def split: option.splits)
qed

text \<open>\<open>cJSON_AddItemToArray\<close> on a node of a tree makes the item its last child.\<close>

lemma AddItemToArray_linked:
  assumes "linked h prev ts" and "linked h None [x]" and "separate (ts @ [x])" and "d \<in> set (node_addrs ts)"
  shows "\<exists>h'. cJSON_AddItemToArray (Some d) (Some (laddr x)) h = Some h' \<and> linked h' prev (adopt d x ts)
    \<and> strs h' = strs h \<and> brk h' = brk h \<and> hmem h' = hmem h
    \<and> (\<forall>a. a \<notin> set (node_addrs (ts @ [x])) \<longrightarrow> nodes h' a = nodes h a)"
proof -
  have dis: "distinct (node_addrs ts)" "distinct (node_addrs [x])" "set (node_addrs ts) \<inter> set (node_addrs [x]) = {}"
    using assms(3) by (auto simp: separate_def)
  obtain n ch where n: "nodes h d = Some n" "nchild n = first ch" "linked h None ch"
    "set (node_addrs ch) \<subseteq> set (node_addrs ts) - {d}" "set (string_addrs ch) \<subseteq> set (string_addrs ts)"
    "distinct (node_addrs ch)"
    and ctx: "\<And>h'. nodes h' d = Some (n\<lparr>nchild := first (ch @ [x])\<rparr>) \<Longrightarrow> linked h' None (ch @ [x])
      \<Longrightarrow> (\<forall>a \<in> set (node_addrs ts) - insert d (set (node_addrs ch)). nodes h' a = nodes h a)
      \<Longrightarrow> (\<forall>a \<in> set (string_addrs ts). strs h' a = strs h a) \<Longrightarrow> linked h' prev (adopt d x ts)"
    using adopt_context[OF assms(1) dis(1) assms(4)] by (auto 0 0)
  have x: "laddr x \<in> set (node_addrs [x])" "laddr x \<noteq> d" "laddr x \<notin> set (node_addrs ch)"
    using laddr_in[of x "[x]"] dis(3) assms(4) n(4) by auto
  obtain xn where xn: "nodes h (laddr x) = Some xn" using assms(2) by (cases x) auto
  show ?thesis
  proof (cases ch)
    case Nil
    define h' where "h' = h\<lparr>nodes := (nodes h)(d \<mapsto> n\<lparr>nchild := Some (laddr x)\<rparr>)\<rparr>"
    have "cJSON_AddItemToArray (Some d) (Some (laddr x)) h = Some h'"
      using n(1,2) Nil by (simp add: cJSON_AddItemToArray_def update_def h'_def)
    moreover have "linked h' None [x]"
      by (rule linked_agree[OF assms(2)]) (use dis(3) assms(4) in \<open>auto simp: h'_def\<close>)
    then have "linked h' prev (adopt d x ts)"
      by (intro ctx) (use Nil in \<open>auto simp: h'_def\<close>)
    ultimately show ?thesis using assms(4) by (auto simp: h'_def)
  next
    case (Cons c cs)
    then have ne: "ch \<noteq> []" by simp
    define l where "l = laddr (last ch)"
    have ll: "l \<in> set (node_addrs ch)" using Cons laddr_in[of "last ch" ch] by (simp add: l_def del: laddr_in)
    have lx: "l \<noteq> laddr x" "l \<noteq> d" using ll x n(4) by auto
    have ls: "last_sibling (laddr c) h = Some l"
      using last_sibling_linked[OF n(3)] Cons by (simp add: l_def)
    have "\<exists>ln. nodes h b = Some ln" if "linked h q us" "b \<in> set (node_addrs us)" for us b q
      using that by (induction us arbitrary: q rule: node_addrs.induct) auto
    from this[OF n(3) ll] obtain ln where ln: "nodes h l = Some ln" by blast
    define h' where "h' = h\<lparr>nodes := (nodes h)(l \<mapsto> ln\<lparr>nnext := Some (laddr x)\<rparr>, laddr x \<mapsto> xn\<lparr>nprev := Some l\<rparr>)\<rparr>"
    have "cJSON_AddItemToArray (Some d) (Some (laddr x)) h = Some h'"
      using n(1,2) Cons ls ln xn lx
      by (simp add: cJSON_AddItemToArray_def update_def suffix_object_def h'_def)
    moreover have "linked h' (Some l) [x]"
      by (rule linked_prev[OF assms(2) dis(2)])
        (use xn lx dis(3) ll n(4) in \<open>auto simp: h'_def\<close>)
    then have "linked h' None (ch @ [x])"
      using ne ln lx x(3) n(6)
      by (intro linked_snoc[OF n(3)]) (auto simp: h'_def simp flip: l_def)
    then have "linked h' prev (adopt d x ts)"
      by (rule ctx[rotated]) (use Cons n(1,2) ll lx x dis(3) in \<open>auto simp: h'_def\<close>)
    ultimately show ?thesis using x ll n(4) by (auto simp: h'_def)
  qed
qed

section \<open>The store as a forest\<close>

text \<open>
  The store holds exactly the trees of a list, each with its own blocks. An operation that
  keeps this loses no block and frees none twice; blocks that stay in the list without a
  pointer to them are leaked.
\<close>

definition forest :: "heap \<Rightarrow> ltree list \<Rightarrow> bool" where
  "forest h F \<longleftrightarrow> (\<forall>t \<in> set F. linked h None [t]) \<and> separate F \<and> owning F
     \<and> dom (nodes h) = set (node_addrs F) \<and> dom (strs h) = set (string_addrs F)
     \<and> (\<forall>a \<in> set (node_addrs F) \<union> set (string_addrs F). a < brk h)"

lemma forest_distinct: "forest h F \<Longrightarrow> distinct (node_addrs F)"
  by (simp add: forest_def separate_def)

lemma addrs_concat:
  "node_addrs F = concat (map (\<lambda>t. node_addrs [t]) F)" "string_addrs F = concat (map (\<lambda>t. string_addrs [t]) F)"
  by (induction F rule: node_addrs.induct) auto

lemma forest_fresh:
  assumes "forest h F" and "brk h \<le> a"
  shows "a \<notin> set (node_addrs F)" and "a \<notin> set (string_addrs F)" and "nodes h a = None" and "strs h a = None"
proof -
  have b: "\<forall>b \<in> set (node_addrs F) \<union> set (string_addrs F). b < brk h"
    using assms(1) by (simp add: forest_def)
  then show "a \<notin> set (node_addrs F)" "a \<notin> set (string_addrs F)"
    using assms(2) leD by blast+
  then show "nodes h a = None" "strs h a = None" using assms(1) by (auto simp: forest_def dom_def)
qed

lemma forest_hmem [simp]: "forest (h\<lparr>hmem := m\<rparr>) F \<longleftrightarrow> forest h F"
proof -
  have "linked (h\<lparr>hmem := m\<rparr>) p ts = linked h p ts" for p ts
    using linked_agree[of h p ts "h\<lparr>hmem := m\<rparr>"] linked_agree[of "h\<lparr>hmem := m\<rparr>" p ts h] by auto
  then show ?thesis by (simp add: forest_def)
qed

lemma linked_node:
  "linked h prev ts \<Longrightarrow> a \<in> set (node_addrs ts) \<Longrightarrow> nodes h a \<noteq> None"
  by (induction ts arbitrary: prev rule: node_addrs.induct) auto

section \<open>Replacing trees of a forest\<close>

lemma linked_string:
  "linked h prev ts \<Longrightarrow> a \<in> set (string_addrs ts) \<Longrightarrow> strs h a \<noteq> None"
  by (induction ts arbitrary: prev rule: node_addrs.induct)
    (auto simp: string_at_def string_list_def split: option.splits)

lemma separate_append:
  "separate (A @ B) \<longleftrightarrow> separate A \<and> separate B
    \<and> set (node_addrs A) \<inter> set (node_addrs B) = {} \<and> set (string_addrs A) \<inter> set (string_addrs B) = {}"
  by (auto simp: separate_def)

lemma node_addrs_member: "t \<in> set F \<Longrightarrow> set (node_addrs [t]) \<subseteq> set (node_addrs F)"
  and string_addrs_member: "t \<in> set F \<Longrightarrow> set (string_addrs [t]) \<subseteq> set (string_addrs F)"
  by (auto simp: addrs_concat[of F])

text \<open>The frame rule: what changes is the trees \<open>L\<close>, and only their blocks and fresh ones.\<close>

lemma forest_frame:
  assumes F: "forest h (L @ F)"
    and new: "\<forall>t \<in> set L'. linked h' None [t]" "separate L'" "owning L'"
    and nodes: "\<And>a. a \<notin> set (node_addrs L) \<Longrightarrow> a \<notin> set (node_addrs L') \<Longrightarrow> nodes h' a = nodes h a"
      "\<And>a. a \<in> set (node_addrs L) \<Longrightarrow> a \<notin> set (node_addrs L') \<Longrightarrow> nodes h' a = None"
      "set (node_addrs L') \<subseteq> set (node_addrs L) \<union> {brk h..<brk h'}"
    and strs: "\<And>a. a \<notin> set (string_addrs L) \<Longrightarrow> a \<notin> set (string_addrs L') \<Longrightarrow> strs h' a = strs h a"
      "\<And>a. a \<in> set (string_addrs L) \<Longrightarrow> a \<notin> set (string_addrs L') \<Longrightarrow> strs h' a = None"
      "set (string_addrs L') \<subseteq> set (string_addrs L) \<union> {brk h..<brk h'}"
    and brk: "brk h \<le> brk h'"
  shows "forest h' (L' @ F)"
proof -
  have f: "\<forall>t \<in> set F. linked h None [t]" "separate F" "owning F"
    "set (node_addrs L) \<inter> set (node_addrs F) = {}" "set (string_addrs L) \<inter> set (string_addrs F) = {}"
    "dom (nodes h) = set (node_addrs L) \<union> set (node_addrs F)" "dom (strs h) = set (string_addrs L) \<union> set (string_addrs F)"
    using F by (auto simp: forest_def separate_append)
  have below: "a < brk h" if "a \<in> set (node_addrs (L @ F)) \<union> set (string_addrs (L @ F))" for a
    using F that by (simp only: forest_def)
  have fresh: "set (node_addrs L') \<inter> set (node_addrs F) = {}" "set (string_addrs L') \<inter> set (string_addrs F) = {}"
    using nodes(3) strs(3) f(4,5) below by fastforce+
  have "linked h' None [t]" if "t \<in> set F" for t
    by (rule linked_agree[of h]) (use f(1,4,5) fresh nodes(1) strs(1) that node_addrs_member[OF that] string_addrs_member[OF that] in blast)+
  moreover have "dom (nodes h') = set (node_addrs (L' @ F))"
  proof -
    have "nodes h' a \<noteq> None \<longleftrightarrow> a \<in> set (node_addrs (L' @ F))" for a
    proof (cases "a \<in> set (node_addrs L')")
      case True
      then obtain t where "t \<in> set L'" "a \<in> set (node_addrs [t])" by (auto simp: addrs_concat(1)[of L'])
      then show ?thesis using linked_node new(1) True by auto
    next
      case False
      then show ?thesis using nodes(1,2)[of a] f(4,6) by (cases "a \<in> set (node_addrs L)") auto
    qed
    then show ?thesis by blast
  qed
  moreover have "dom (strs h') = set (string_addrs (L' @ F))"
  proof -
    have "strs h' a \<noteq> None \<longleftrightarrow> a \<in> set (string_addrs (L' @ F))" for a
    proof (cases "a \<in> set (string_addrs L')")
      case True
      then obtain t where "t \<in> set L'" "a \<in> set (string_addrs [t])" by (auto simp: addrs_concat(2)[of L'])
      then show ?thesis using linked_string new(1) True by auto
    next
      case False
      then show ?thesis using strs(1,2)[of a] f(5,7) by (cases "a \<in> set (string_addrs L)") auto
    qed
    then show ?thesis by blast
  qed
  moreover have "a < brk h'" if "a \<in> set (node_addrs (L' @ F)) \<union> set (string_addrs (L' @ F))" for a
    using that below[of a] nodes(3) strs(3) brk by fastforce
  ultimately show ?thesis using new f(2,3) fresh by (auto simp: forest_def separate_append)
qed

lemma owning_all: "owning ts \<longleftrightarrow> (\<forall>t \<in> set ts. owning [t])"
  by (induction ts rule: node_addrs.induct) auto

lemma addrs_mset:
  assumes "mset F = mset F'"
  shows "mset (node_addrs F) = mset (node_addrs F')" and "mset (string_addrs F) = mset (string_addrs F')"
proof -
  have "sum_list (map g F) = sum_list (map g F')" for g :: "ltree \<Rightarrow> addr multiset"
    using arg_cong[OF assms, of "\<lambda>M. \<Sum>\<^sub># (image_mset g M)"] by (simp add: sum_mset_sum_list flip: mset_map)
  then show "mset (node_addrs F) = mset (node_addrs F')" "mset (string_addrs F) = mset (string_addrs F')"
    by (simp_all add: addrs_concat[of F] addrs_concat[of F'] mset_concat comp_def)
qed

text \<open>The order of the trees does not matter.\<close>

lemma forest_order:
  assumes "mset F = mset F'" and "forest h F"
  shows "forest h F'"
proof -
  note m = addrs_mset[OF assms(1)]
  have "owning F' \<longleftrightarrow> owning F" using owning_all[of F] owning_all[of F'] mset_eq_setD[OF assms(1)] by simp
  then show ?thesis
    using assms(2) mset_eq_setD[OF assms(1)] mset_eq_setD[OF m(1)] mset_eq_setD[OF m(2)]
      mset_eq_imp_distinct_iff[OF m(1)] mset_eq_imp_distinct_iff[OF m(2)]
    by (simp add: forest_def separate_def)
qed

text \<open>Adding a tree with a fresh node and, for a string, a fresh block.\<close>

definition leaf :: "addr \<Rightarrow> 32 word \<Rightarrow> (addr \<times> bytes) option \<Rightarrow> int \<Rightarrow> double \<Rightarrow> ltree" where
  "leaf a t vs vi vd = LT a t vs vi vd None []"

lemma forest_leaf:
  assumes "forest h F" and "\<not> has_flag t cJSON_IsReference" "\<not> has_flag t cJSON_StringIsConst"
    and "nodes h' = (nodes h)(a \<mapsto> lnode None (leaf a t vs vi vd) [])"
    and "strs h' = (case vs of None \<Rightarrow> strs h | Some (p, s) \<Rightarrow> (strs h)(p \<mapsto> s))"
    and "brk h \<le> a" "a < brk h'" "\<forall>p s. vs = Some (p, s) \<longrightarrow> brk h \<le> p \<and> p < brk h'"
  shows "forest h' (leaf a t vs vi vd # F)"
proof -
  note fr = forest_fresh[OF assms(1)]
  have "linked h' None [u]" if "u \<in> set F" for u
  proof (rule linked_agree[of h])
    show "linked h None [u]" using assms(1) that by (auto simp: forest_def)
    have "b \<in> set (node_addrs F)" if "b \<in> set (node_addrs [u])" for b
      using that \<open>u \<in> set F\<close> by (auto simp: addrs_concat(1)[of F])
    then show "nodes h' b = nodes h b" if "b \<in> set (node_addrs [u])" for b
      using that fr(1)[OF assms(6)] assms(4) by auto
    have "b \<in> set (string_addrs F)" if "b \<in> set (string_addrs [u])" for b
      using that \<open>u \<in> set F\<close> by (auto simp: addrs_concat(2)[of F])
    then show "strs h' b = strs h b" if "b \<in> set (string_addrs [u])" for b
      using that fr(2) assms(5,8) by (auto split: option.splits)
  qed
  moreover have "linked h' None [leaf a t vs vi vd]"
    using assms(4,5) by (auto simp: leaf_def string_at_def split: option.splits)
  moreover have "\<forall>b \<in> set (node_addrs F) \<union> set (string_addrs F). b < brk h'"
  proof -
    have "\<forall>b \<in> set (node_addrs F) \<union> set (string_addrs F). b < brk h"
      using assms(1) by (simp add: forest_def)
    moreover have "brk h < brk h'" using assms(6,7) by simp
    ultimately show ?thesis using less_trans by blast
  qed
  ultimately show ?thesis
    using assms fr(1)[OF assms(6)] fr(2)
    by (auto simp: forest_def separate_def leaf_def string_list_def split: option.splits)
qed

lemma create_forest:
  assumes "forest h F" and "f blank_node = lnode None (leaf (brk h) t None vi vd) []"
    and "\<not> has_flag t cJSON_IsReference" "\<not> has_flag t cJSON_StringIsConst"
  shows "(\<exists>h'. create f h = Some (None, h') \<and> forest h' F \<and> hmem h \<noteq> [])
    \<or> (\<exists>h'. create f h = Some (Some (brk h), h') \<and> forest h' (leaf (brk h) t None vi vd # F)
        \<and> hmem h' = snd (alloc (hmem h)))"
proof (cases "fst (alloc (hmem h))")
  case False
  then have "hmem h \<noteq> []" by auto
  then show ?thesis using False assms(1) by (auto simp: create_def New_Item_def split: prod.splits)
next
  case True
  then obtain m where m: "alloc (hmem h) = (True, m)" by (cases "alloc (hmem h)") auto
  define h' where "h' = h\<lparr>nodes := (nodes h)(brk h \<mapsto> f blank_node), brk := brk h + 1, hmem := m\<rparr>"
  have "create f h = Some (Some (brk h), h')"
    using m by (simp add: create_def New_Item_def update_def h'_def)
  moreover have "forest h' (leaf (brk h) t None vi vd # F)"
    by (rule forest_leaf[OF assms(1,3,4)]) (simp_all add: h'_def assms(2))
  ultimately show ?thesis by (auto simp: h'_def m)
qed

lemma separate_middle:
  "separate (A @ x # B) \<longleftrightarrow> separate (A @ B) \<and> separate [x]
    \<and> set (node_addrs [x]) \<inter> set (node_addrs (A @ B)) = {} \<and> set (string_addrs [x]) \<inter> set (string_addrs (A @ B)) = {}"
  using addrs_append[of A "x # B"] addrs_append[of "[x]" B] by (auto simp: separate_def)

lemma middle_addrs:
  "set (node_addrs (A @ x # B)) = set (node_addrs [x]) \<union> set (node_addrs (A @ B))"
  "set (string_addrs (A @ x # B)) = set (string_addrs [x]) \<union> set (string_addrs (A @ B))"
  "owning (A @ x # B) \<longleftrightarrow> owning [x] \<and> owning (A @ B)"
  using addrs_append[of A "x # B"] addrs_append[of "[x]" B] by auto

lemma Delete_forest:
  assumes "forest h (A @ x # B)"
  shows "\<exists>h'. cJSON_Delete (Some (laddr x)) h = Some h' \<and> forest h' (A @ B) \<and> hmem h' = hmem h \<and> brk h' = brk h"
proof -
  let ?h' = "release (node_addrs [x]) (string_addrs [x]) h"
  have F: "forest h ([x] @ A @ B)" by (rule forest_order[OF _ assms]) simp
  have "linked h None [x]" "separate [x]" "owning [x]"
    using F addrs_append(3)[of "[x]" "A @ B"] separate_append[of "[x]" "A @ B"] unfolding forest_def by auto
  then have "cJSON_Delete (Some (laddr x)) h = Some ?h'" using Delete_linked by fastforce
  moreover have "forest ?h' ([] @ A @ B)"
    by (rule forest_frame[OF F]) (simp_all add: release_def separate_def)
  ultimately show ?thesis by (auto simp: release_def)
qed

lemma CreateString_forest:
  assumes "forest h F"
  shows "(\<exists>h'. cJSON_CreateString (Some s) h = Some (None, h') \<and> forest h' F \<and> hmem h \<noteq> [])
    \<or> (\<exists>h'. cJSON_CreateString (Some s) h = Some (Some (brk h), h')
        \<and> forest h' (leaf (brk h) cJSON_String (Some (brk h + 1, s)) 0 (Fin 0) # F)
        \<and> (hmem h = [] \<longrightarrow> hmem h' = []))"
proof (cases "alloc (hmem h)")
  case (Pair ok m)
  have flags: "\<not> has_flag cJSON_String cJSON_IsReference" "\<not> has_flag cJSON_String cJSON_StringIsConst"
    by (simp_all add: has_flag_def)
  show ?thesis
  proof (cases ok)
    case False
    then have "hmem h \<noteq> []" using Pair by auto
    then show ?thesis using Pair False assms by (simp add: cJSON_CreateString_def create_text_def New_Item_def)
  next
    case ok: True
    define n where "n = blank_node\<lparr>ntype := cJSON_String\<rparr>"
    define h1 where "h1 = h\<lparr>brk := brk h + 1, hmem := m, nodes := (nodes h)(brk h \<mapsto> n)\<rparr>"
    obtain ok2 m2 where m2: "alloc m = (ok2, m2)" by force
    have start: "cJSON_CreateString (Some s) h = (case cJSON_strdup (Some s) h1 of
            (None, h3) \<Rightarrow> do { h4 \<leftarrow> cJSON_Delete (Some (brk h)) h3; Some (None, h4) }
          | (Some p, h3) \<Rightarrow> do { h4 \<leftarrow> update (brk h) (\<lambda>n. n\<lparr>nvaluestring := Some p\<rparr>) h3; Some (Some (brk h), h4) })"
      using Pair ok by (simp add: cJSON_CreateString_def create_text_def New_Item_def update_def h1_def n_def)
    show ?thesis
    proof (cases ok2)
      case False
      have "forest h1 (leaf (brk h) cJSON_String None 0 (Fin 0) # F)"
        by (rule forest_leaf[OF assms flags]) (simp_all add: h1_def n_def blank_node_def leaf_def lnode_def)
      then have "forest (h1\<lparr>hmem := m2\<rparr>) ([] @ leaf (brk h) cJSON_String None 0 (Fin 0) # F)" by simp
      from Delete_forest[OF this] obtain h4 where
        "cJSON_Delete (Some (brk h)) (h1\<lparr>hmem := m2\<rparr>) = Some h4" "forest h4 F" by (auto simp: leaf_def)
      moreover have "hmem h \<noteq> []" using Pair m2 False by (cases "hmem h") auto
      ultimately show ?thesis using start m2 False by (simp add: cJSON_strdup_def h1_def)
    next
      case True
      define h4 where "h4 = h\<lparr>nodes := (nodes h)(brk h \<mapsto> n\<lparr>nvaluestring := Some (brk h + 1)\<rparr>),
        strs := (strs h)(brk h + 1 \<mapsto> s), brk := brk h + 2, hmem := m2\<rparr>"
      have "cJSON_CreateString (Some s) h = Some (Some (brk h), h4)"
        using start m2 True by (simp add: cJSON_strdup_def h1_def h4_def update_def)
      moreover have "forest h4 (leaf (brk h) cJSON_String (Some (brk h + 1, s)) 0 (Fin 0) # F)"
        by (rule forest_leaf[OF assms flags]) (simp_all add: h4_def n_def blank_node_def leaf_def lnode_def)
      ultimately show ?thesis using Pair m2 by (auto simp: h4_def)
    qed
  qed
qed

text \<open>An assignment to the type of the node at \<open>i\<close>.\<close>

fun retype :: "addr \<Rightarrow> (32 word \<Rightarrow> 32 word) \<Rightarrow> ltree list \<Rightarrow> ltree list" where
  "retype i g [] = []"
| "retype i g (LT a t vs vi vd k ch # ts) =
     LT a (if a = i then g t else t) vs vi vd k (retype i g ch) # retype i g ts"

lemma retype_other [simp]: "i \<notin> set (node_addrs ts) \<Longrightarrow> retype i g ts = ts"
  by (induction ts rule: node_addrs.induct) auto

lemma first_retype [simp]: "first (retype i g ts) = first ts"
  by (cases ts rule: node_addrs.cases) auto

lemma retype_append [simp]: "retype i g (ts @ us) = retype i g ts @ retype i g us"
  by (induction ts rule: node_addrs.induct) auto

lemma retype_adopt:
  "i \<notin> set (node_addrs ts) \<Longrightarrow> retype i g (adopt d x ts) = adopt d (hd (retype i g [x])) ts"
  by (induction ts rule: node_addrs.induct) (cases x; auto)+

lemma linked_retype:
  assumes "linked h prev ts" and "strs h' = strs h"
    and "\<And>a. nodes h' a = (if a = i then map_option (\<lambda>n. n\<lparr>ntype := g (ntype n)\<rparr>) (nodes h a) else nodes h a)"
  shows "linked h' prev (retype i g ts)"
  using assms
  by (induction h prev ts rule: linked.induct) (auto simp: lnode_def string_at_def split: option.splits)

lemma flag_off_on:
  fixes t f :: "32 word"
  assumes "t AND f = 0"
  shows "(t OR f) AND NOT f = t" and "t AND NOT f = t"
proof -
  have "\<not> (bit t n \<and> bit f n)" for n
    using arg_cong[OF assms, of "\<lambda>w. bit w n"] by (simp add: bit_and_iff)
  then show "(t OR f) AND NOT f = t" "t AND NOT f = t"
    by (auto intro!: bit_word_eqI simp: bit_and_iff bit_or_iff bit_not_iff)
qed

fun with_key :: "addr \<Rightarrow> bytes \<Rightarrow> ltree \<Rightarrow> ltree" where
  "with_key p s (LT a t vs vi vd k ch) = LT a t vs vi vd (Some (p, s)) ch"

lemma adopt_single: "\<exists>u'. adopt d x [u] = [u']"
  by (cases u) simp

lemma tree_of_addr: "d \<in> set (node_addrs F) \<Longrightarrow> \<exists>C u D. F = C @ u # D \<and> d \<in> set (node_addrs [u])"
proof -
  assume "d \<in> set (node_addrs F)"
  then obtain u where "u \<in> set F" "d \<in> set (node_addrs [u])" by (auto simp: addrs_concat(1)[of F])
  then show ?thesis using split_list by fast
qed

text \<open>Linking an item whose copy of the name is already stored: what becomes of the item and of the
  tree that takes it.\<close>

lemma AddItemToObjectCS_linked:
  fixes s :: bytes and m :: mem
  assumes F: "forest h (x # u # R)" and du: "d \<in> set (node_addrs [u])" and k: "lkey x = None"
  defines "h1 \<equiv> h\<lparr>strs := (strs h)(brk h \<mapsto> s), brk := brk h + 1, hmem := m\<rparr>"
  shows "\<exists>h2 h3. cJSON_AddItemToObjectCS (Some d) (Some (brk h)) (Some (laddr x)) h1 = Some h2
    \<and> update (laddr x) (\<lambda>n. n\<lparr>ntype := ntype n AND NOT cJSON_StringIsConst\<rparr>) h2 = Some h3
    \<and> linked h3 None (adopt d (with_key (brk h) s x) [u])
    \<and> strs h3 = (strs h)(brk h \<mapsto> s) \<and> brk h3 = brk h + 1 \<and> hmem h3 = m
    \<and> (\<forall>a. a \<notin> set (node_addrs [x]) \<union> set (node_addrs [u]) \<longrightarrow> nodes h3 a = nodes h a)"
proof -
  obtain i t vs vi vd ch where x: "x = LT i t vs vi vd None ch" using k by (cases x) auto
  let ?p = "brk h" and ?n = "lnode None x []"
  have f: "linked h None [x]" "linked h None [u]" "owning [x]" "separate ([x] @ [u])"
    using F separate_append[of "[x, u]" R] by (auto simp: forest_def x)
  note sep = f(4)[unfolded separate_append]
  have p: "?p \<notin> set (string_addrs [x])" "?p \<notin> set (string_addrs [u])"
    using forest_fresh(2)[OF F, of ?p] addrs_append(2)[of "[x]" "[u]"] addrs_append(2)[of "[x, u]" R] by auto
  have flag: "t AND cJSON_StringIsConst = 0" using f(3) by (simp add: x has_flag_def)
  define x2 where "x2 = LT i (t OR cJSON_StringIsConst) vs vi vd (Some (?p, s)) ch"
  define h2 where "h2 = h1\<lparr>nodes := (nodes h)(i \<mapsto> ?n\<lparr>nstring := Some ?p, ntype := t OR cJSON_StringIsConst\<rparr>)\<rparr>"
  have n: "nodes h i = Some ?n" using f(1) by (simp add: x lnode_def)
  have iu: "i \<notin> set (node_addrs [u])" using sep by (auto simp: x)
  have lu: "linked h2 None [u]" by (rule linked_agree[OF f(2)]) (use iu p(2) in \<open>auto simp: h2_def h1_def\<close>)
  have "linked h2 None ch" by (rule linked_agree[of h]) (use sep f(1) p in \<open>auto simp: x h2_def h1_def separate_def\<close>)
  moreover have "string_at h2 vs" using f(1) p by (auto simp: x h2_def h1_def string_at_def string_list_def split: option.splits)
  ultimately have lx2: "linked h2 None [x2]" by (simp add: x2_def h2_def h1_def lnode_def x string_at_def)
  have nx: "node_addrs [x2] = node_addrs [x]" by (simp add: x2_def x)
  have "separate [x2]" "set (string_addrs [x2]) = insert ?p (set (string_addrs [x]))"
    using sep p(1) by (auto simp: separate_def x2_def x string_list_def split: option.splits)
  then have sep2: "separate ([u] @ [x2])" using sep p(2) nx unfolding separate_append by auto
  obtain h3 where h3: "cJSON_AddItemToArray (Some d) (Some i) h2 = Some h3" "linked h3 None (adopt d x2 [u])"
    "strs h3 = strs h2" "brk h3 = brk h2" "hmem h3 = hmem h2"
    "\<forall>a. a \<notin> set (node_addrs ([u] @ [x2])) \<longrightarrow> nodes h3 a = nodes h2 a"
    using AddItemToArray_linked[OF lu lx2 sep2 du] by (auto simp: x2_def)
  have cs: "cJSON_AddItemToObjectCS (Some d) (Some ?p) (Some i) h1 = Some h3"
    using n h3(1) flag
    by (simp add: cJSON_AddItemToObjectCS_def h1_def h2_def update_def lnode_def x free_string_def has_flag_def)
  define g where "g = (\<lambda>w::32 word. w AND NOT cJSON_StringIsConst)"
  have "mset (node_addrs (adopt d x2 [u])) = mset (node_addrs [u]) + mset (node_addrs [x2])"
    by (rule adopt_addrs(1)[OF _ du]) (use sep in \<open>simp add: separate_def\<close>)
  from arg_cong[OF this, of set_mset] have "i \<in> set (node_addrs (adopt d x2 [u]))" by (simp add: nx) (simp add: x)
  then obtain m3 where m3: "nodes h3 i = Some m3" using linked_node[OF h3(2)] by blast
  define h4 where "h4 = h3\<lparr>nodes := (nodes h3)(i \<mapsto> m3\<lparr>ntype := g (ntype m3)\<rparr>)\<rparr>"
  have up: "update i (\<lambda>n. n\<lparr>ntype := ntype n AND NOT cJSON_StringIsConst\<rparr>) h3 = Some h4"
    using m3 by (simp add: update_def h4_def g_def)
  have "i \<notin> set (node_addrs ch)" using sep by (simp add: x separate_def)
  then have "hd (retype i g [x2]) = with_key ?p s x"
    using flag_off_on(1)[OF flag] by (simp add: x2_def x g_def)
  then have "retype i g (adopt d x2 [u]) = adopt d (with_key ?p s x) [u]"
    using retype_adopt[OF iu, of g d x2] by simp
  moreover have "linked h4 None (retype i g (adopt d x2 [u]))"
    by (rule linked_retype[OF h3(2)]) (auto simp: h4_def m3)
  moreover have "nodes h4 a = nodes h a" if "a \<notin> set (node_addrs [x]) \<union> set (node_addrs [u])" for a
    using that h3(6) addrs_append(1)[of "[u]" "[x2]"] nx by (auto simp: h4_def h2_def h1_def x)
  ultimately show ?thesis using cs up x h3(3-5) by (auto simp: h4_def h2_def h1_def)
qed

lemma AddItemToObjectCS_forest:
  fixes s :: bytes and m :: mem
  assumes F: "forest h (A @ x # B)" and d: "d \<in> set (node_addrs (A @ B))" and k: "lkey x = None"
  defines "h1 \<equiv> h\<lparr>strs := (strs h)(brk h \<mapsto> s), brk := brk h + 1, hmem := m\<rparr>"
  shows "\<exists>h2 h3. cJSON_AddItemToObjectCS (Some d) (Some (brk h)) (Some (laddr x)) h1 = Some h2
    \<and> update (laddr x) (\<lambda>n. n\<lparr>ntype := ntype n AND NOT cJSON_StringIsConst\<rparr>) h2 = Some h3
    \<and> forest h3 (adopt d (with_key (brk h) s x) (A @ B)) \<and> brk h3 = brk h + 1 \<and> hmem h3 = m"
proof -
  let ?x = "with_key (brk h) s x"
  obtain C u D where AB: "A @ B = C @ u # D" and du: "d \<in> set (node_addrs [u])" using tree_of_addr[OF d] by blast
  have "mset (A @ x # B) = mset (x # A @ B)" by simp
  then have "mset (A @ x # B) = mset (x # u # C @ D)" unfolding AB by simp
  from forest_order[OF this F] have F': "forest h ([x, u] @ C @ D)" by simp
  then have "forest h (x # u # C @ D)" by simp
  from AddItemToObjectCS_linked[OF this du k, of m s] obtain h2 h3 where
    run: "cJSON_AddItemToObjectCS (Some d) (Some (brk h)) (Some (laddr x)) h1 = Some h2"
      "update (laddr x) (\<lambda>n. n\<lparr>ntype := ntype n AND NOT cJSON_StringIsConst\<rparr>) h2 = Some h3"
    and h3: "linked h3 None (adopt d ?x [u])" "strs h3 = (strs h)(brk h \<mapsto> s)" "brk h3 = brk h + 1" "hmem h3 = m"
      "\<forall>a. a \<notin> set (node_addrs [x]) \<union> set (node_addrs [u]) \<longrightarrow> nodes h3 a = nodes h a"
    unfolding h1_def by blast
  obtain u' where u': "adopt d ?x [u] = [u']" using adopt_single by blast
  have own: "owning [x]" "owning [u]" using owning_all[of "[x, u] @ C @ D"] F' unfolding forest_def by auto
  have sep: "separate ([x] @ [u])" and notin: "d \<notin> set (node_addrs (C @ D))"
    using F' du separate_append[of "[x, u]" "C @ D"] addrs_append(1)[of "[x]" "[u]"]
    by (auto simp: forest_def)
  have fresh: "brk h \<notin> set (string_addrs [x])" "brk h \<notin> set (string_addrs [u])"
    using forest_fresh(2)[OF F', of "brk h"] string_addrs_member[of x "[x, u] @ C @ D"]
      string_addrs_member[of u "[x, u] @ C @ D"] by auto
  have m: "mset (node_addrs [u']) = mset (node_addrs [x, u])" "mset (string_addrs [u']) = add_mset (brk h) (mset (string_addrs [x, u]))"
    using adopt_addrs[OF _ du, of ?x] sep k addrs_append(1,2)[of "[x]" "[u]"]
    unfolding u' by (cases x; auto simp: separate_append separate_def string_list_def)+
  note sets = mset_eq_setD[OF m(1)] arg_cong[OF m(2), of set_mset, unfolded set_mset_add_mset_insert set_mset_mset]
  have "forest h3 ([u'] @ C @ D)"
  proof (rule forest_frame[OF F'])
    show "separate [u']"
      using mset_eq_imp_distinct_iff[OF m(1)] mset_eq_imp_distinct_iff[of "string_addrs [u']" "brk h # string_addrs [x, u]"]
        m(2) sep fresh addrs_append(1,2)[of "[x]" "[u]"] by (auto simp: separate_def)
    show "owning [u']" using adopt_owning[of "[u]" ?x d] own k unfolding u' by (cases x) auto
    show "\<forall>t \<in> set [u']. linked h3 None [t]" using h3(1) u' by simp
    show "nodes h3 a = nodes h a" if "a \<notin> set (node_addrs [x, u])" for a
      using that h3(5) addrs_append(1)[of "[x]" "[u]"] by auto
  qed (use h3 u' in \<open>auto simp: sets\<close>)
  moreover have "adopt d ?x (A @ B) = C @ u' # D"
    using notin u' adopt_append[of d ?x "[u]" D] unfolding AB by (simp del: adopt_append add: adopt_append[of d ?x C])
  ultimately show ?thesis using run h3(3,4) forest_order[of "[u'] @ C @ D" "C @ u' # D"] by auto
qed

lemma AddItemToObject_no_name:
  assumes F: "forest h (A @ x # B)" and k: "lkey x = None" and m: "alloc (hmem h) = (False, m)"
  shows "cJSON_AddItemToObject (Some d) (Some s) (Some (laddr x)) h = Some (h\<lparr>hmem := m\<rparr>)
    \<and> forest (h\<lparr>hmem := m\<rparr>) (A @ x # B)"
proof -
  obtain i t vs vi vd ch where x: "x = LT i t vs vi vd None ch" using k by (cases x) auto
  have "linked h None [x]" "owning [x]" using F by (auto simp: forest_def middle_addrs(3) simp del: addrs_append)
  then have n: "nodes h i = Some (lnode None x [])" and "t AND cJSON_StringIsConst = 0"
    by (simp_all add: x has_flag_def)
  then have t: "t AND NOT cJSON_StringIsConst = t" using flag_off_on(2) by blast
  have "(lnode None x [])\<lparr>ntype := t AND NOT cJSON_StringIsConst\<rparr> = lnode None x []"
    unfolding t by (simp add: x lnode_def)
  then have "update i (\<lambda>n. n\<lparr>ntype := ntype n AND NOT cJSON_StringIsConst\<rparr>) (h\<lparr>hmem := m\<rparr>) = Some (h\<lparr>hmem := m\<rparr>)"
    using n by (simp add: update_def x lnode_def fun_upd_idem)
  moreover have "forest (h\<lparr>hmem := m\<rparr>) (A @ x # B)" using F by simp
  ultimately show ?thesis using m
    by (simp add: cJSON_AddItemToObject_def cJSON_strdup_def cJSON_AddItemToObjectCS_def x)
qed

text \<open>\<open>cJSON_AddItemToObject\<close>: without memory for the name the item stays where it is, in no
  tree; otherwise it becomes the last child of the object, under its name.\<close>

lemma AddItemToObject_forest:
  assumes F: "forest h (A @ x # B)" and d: "d \<in> set (node_addrs (A @ B))" and k: "lkey x = None"
  shows "(\<exists>h'. cJSON_AddItemToObject (Some d) (Some s) (Some (laddr x)) h = Some h'
        \<and> forest h' (A @ x # B) \<and> hmem h \<noteq> [])
    \<or> (\<exists>h'. cJSON_AddItemToObject (Some d) (Some s) (Some (laddr x)) h = Some h'
        \<and> forest h' (adopt d (with_key (brk h) s x) (A @ B)) \<and> (hmem h = [] \<longrightarrow> hmem h' = []))"
proof (cases "alloc (hmem h)")
  case (Pair ok m)
  show ?thesis
  proof (cases ok)
    case True
    then show ?thesis using Pair AddItemToObjectCS_forest[OF F d k, of m s]
      by (auto simp: cJSON_AddItemToObject_def cJSON_strdup_def)
  next
    case False
    then show ?thesis using Pair F AddItemToObject_no_name[OF F k, of m d s] by (cases "hmem h") auto
  qed
qed

section \<open>Deleting and adding items\<close>

definition empty_heap :: "mem \<Rightarrow> heap" where
  "empty_heap m = \<lparr>nodes = Map.empty, strs = Map.empty, brk = 0, hmem = m\<rparr>"

lemma empty_heap_forest: "forest (empty_heap m) []"
  by (simp add: empty_heap_def forest_def separate_def)

text \<open>A store with two objects and a string in the first.\<close>

definition sample_forest :: "ltree list" where
  "sample_forest = [LT 0 64 None 0 (Fin 0) None [LT 1 16 (Some (2, ''a'')) 0 (Fin 0) (Some (3, ''k'')) []],
     LT 4 64 None 0 (Fin 0) None []]"

definition sample_heap :: heap where
  "sample_heap = \<lparr>nodes = [0 \<mapsto> lnode None (hd sample_forest) [],
       1 \<mapsto> lnode None (hd (lchildren (hd sample_forest))) [], 4 \<mapsto> lnode None (sample_forest ! 1) []],
     strs = [2 \<mapsto> ''a'', 3 \<mapsto> ''k''], brk = 5, hmem = []\<rparr>"

lemma sample_forest: "forest sample_heap sample_forest"
  by (simp add: forest_def sample_heap_def sample_forest_def separate_def string_at_def string_list_def
      has_flag_def) auto

text \<open>C11: \<open>cJSON_Delete\<close> on the root of any tree of the store returns, frees every node and every
  string of that tree exactly once, and leaves the other trees as they are.\<close>

theorem Delete_frees_tree:
  assumes "forest h (A @ x # B)"
  shows "\<exists>h'. cJSON_Delete (Some (laddr x)) h = Some h' \<and> forest h' (A @ B)"
  using Delete_forest[OF assms] by blast

theorem Delete_frees_tree_witness:
  "\<exists>h'. cJSON_Delete (Some 0) sample_heap = Some h' \<and> forest h' [LT 4 64 None 0 (Fin 0) None []]"
  using Delete_frees_tree[of sample_heap "[]" "hd sample_forest" "tl sample_forest"] sample_forest
  by (simp add: sample_forest_def)

text \<open>C20: \<open>cJSON_AddItemToObject\<close> makes a tree of the store the last child of an object of another
  one, under a copy of the name; when there is no memory for the copy the store keeps the same
  trees, and the item stays outside the object.\<close>

theorem AddItemToObject_adopts:
  assumes "forest h (A @ x # B)" and "d \<in> set (node_addrs (A @ B))" and "lkey x = None"
  shows "\<exists>h'. cJSON_AddItemToObject (Some d) (Some s) (Some (laddr x)) h = Some h'
    \<and> (if fst (alloc (hmem h)) then forest h' (adopt d (with_key (brk h) s x) (A @ B))
       else forest h' (A @ x # B))"
proof (cases "alloc (hmem h)")
  case (Pair ok m)
  then show ?thesis using AddItemToObjectCS_forest[OF assms, of m s] AddItemToObject_no_name[OF assms(1,3), of m d s]
    by (cases ok) (auto simp: cJSON_AddItemToObject_def cJSON_strdup_def)
qed

theorem AddItemToObject_adopts_witness:
  "\<exists>h'. cJSON_AddItemToObject (Some 0) (Some ''n'') (Some 4) sample_heap = Some h'
    \<and> forest h' (adopt 0 (LT 4 64 None 0 (Fin 0) (Some (5, ''n'')) []) [hd sample_forest])"
  using AddItemToObject_adopts[of sample_heap "[hd sample_forest]" "sample_forest ! 1" "[]" 0 "''n''"] sample_forest
  by (simp add: sample_forest_def sample_heap_def)

end
