(* ===== verification/JsonParse.thy ===== *)
theory JsonParse
  imports CJson
begin

text \<open>
  The parser of \<open>src/contrib/cJSON.c\<close>. The state is the \<open>parse_buffer\<close>: the input with its
  terminating NUL, the offset, the nesting depth, and the allocator (\<open>hooks\<close>). The C field
  \<open>length\<close> is the length of \<^term>\<open>content\<close>.

  Every function answers with an outcome: success, failure with the buffer as the code leaves
  it, or a fault, which stands for undefined behaviour: a read outside the input, or a write
  outside the block that \<open>parse_string\<close> allocates. The mutually recursive part runs on fuel.
\<close>

section \<open>The parse buffer\<close>

record parse_buffer =
  content :: bytes
  offset :: nat
  depth :: nat
  hooks :: mem

datatype 'a outcome = Ok 'a parse_buffer | Fail parse_buffer | Fault | OutOfFuel

definition can_access_at_index :: "parse_buffer \<Rightarrow> nat \<Rightarrow> bool" where
  "can_access_at_index b i \<longleftrightarrow> offset b + i < length (content b)"

definition can_read :: "parse_buffer \<Rightarrow> nat \<Rightarrow> bool" where
  "can_read b n \<longleftrightarrow> offset b + n \<le> length (content b)"

text \<open>The bytes from the current position on, and the read \<open>buffer_at_offset(b)[i]\<close>. A test
  \<open>peek b 0 = Some c\<close> is the guarded read \<open>can_access_at_index(b, 0) && b[0] == c\<close>.\<close>

definition buffer_at_offset :: "parse_buffer \<Rightarrow> bytes" where
  "buffer_at_offset b = drop (offset b) (content b)"

definition peek :: "parse_buffer \<Rightarrow> nat \<Rightarrow> char option" where
  "peek b i = nth_opt (buffer_at_offset b) i"

definition looking_at :: "parse_buffer \<Rightarrow> bytes \<Rightarrow> bool" where
  "looking_at b s \<longleftrightarrow> can_read b (length s) \<and> take (length s) (buffer_at_offset b) = s"

definition skip :: "nat \<Rightarrow> parse_buffer \<Rightarrow> parse_buffer" where
  "skip n b = b\<lparr>offset := offset b + n\<rparr>"

definition step_back :: "parse_buffer \<Rightarrow> parse_buffer" where
  "step_back b = b\<lparr>offset := offset b - 1\<rparr>"

definition buffer_skip_whitespace :: "parse_buffer \<Rightarrow> parse_buffer" where
  "buffer_skip_whitespace b =
     (let b' = skip (length (takeWhile (\<lambda>c. code c \<le> 32) (buffer_at_offset b))) b
      in if offset b' = length (content b') then step_back b' else b')"

definition skip_utf8_bom :: "parse_buffer \<Rightarrow> parse_buffer option" where
  "skip_utf8_bom b = (if offset b \<noteq> 0 then None
     else if can_access_at_index b 4 \<and> take 3 (buffer_at_offset b) = [CHR 0xEF, CHR 0xBB, CHR 0xBF]
     then Some (skip 3 b) else Some b)"

section \<open>Numbers\<close>

definition is_number_char :: "char \<Rightarrow> bool" where
  "is_number_char c \<longleftrightarrow> is_digit c \<or> c \<in> set ''+-eE.''"

text \<open>The copy loop: at most 63 bytes; the decimal point is already \<open>.\<close> (no locale).\<close>

fun copy_number :: "nat \<Rightarrow> bytes \<Rightarrow> bytes" where
  "copy_number 0 s = []"
| "copy_number (Suc n) [] = []"
| "copy_number (Suc n) (c # s) = (if is_number_char c then c # copy_number n s else [])"

definition parse_number :: "cJSON \<Rightarrow> parse_buffer \<Rightarrow> cJSON outcome" where
  "parse_number item b =
     (let (number, n) = strtod (copy_number 63 (buffer_at_offset b))
      in if n = 0 then Fail b
         else Ok (CJSON cJSON_Number (valuestring item) (saturate number) number (ckey item) (child item))
                 (skip n b))"

section \<open>Strings\<close>

text \<open>\<open>parse_hex4\<close> reads up to the first byte that is not a hexadecimal digit, and then
  answers 0. \<^const>\<open>None\<close> is a read outside the input.\<close>

definition hex_val :: "char \<Rightarrow> nat option" where
  "hex_val c = (if 48 \<le> code c \<and> code c \<le> 57 then Some (code c - 48)
     else if 65 \<le> code c \<and> code c \<le> 70 then Some (10 + code c - 65)
     else if 97 \<le> code c \<and> code c \<le> 102 then Some (10 + code c - 97) else None)"

fun hex4_loop :: "nat \<Rightarrow> 32 word \<Rightarrow> bytes \<Rightarrow> 32 word option" where
  "hex4_loop 0 h s = Some h"
| "hex4_loop (Suc i) h [] = None"
| "hex4_loop (Suc i) h (c # s) = (case hex_val c of None \<Rightarrow> Some 0
     | Some v \<Rightarrow> let h' = h + word_of_nat v
                 in hex4_loop i (if 0 < i then push_bit 4 h' else h') s)"

definition parse_hex4 :: "bytes \<Rightarrow> 32 word option" where
  "parse_hex4 s = hex4_loop 4 0 s"

definition byte_of :: "64 word \<Rightarrow> char" where
  "byte_of w = char_of (unat (w AND 0xFF))"

text \<open>The UTF-8 bytes of a code point below \<open>0x110000\<close>: the continuation bytes are stored from
  the last to the second while the code point is shifted down, then the first byte.\<close>

fun utf8_tail :: "nat \<Rightarrow> 64 word \<Rightarrow> bytes \<Rightarrow> 64 word \<times> bytes" where
  "utf8_tail 0 cp acc = (cp, acc)"
| "utf8_tail (Suc n) cp acc = utf8_tail n (drop_bit 6 cp) (byte_of ((cp OR 0x80) AND 0xBF) # acc)"

definition utf8_length :: "64 word \<Rightarrow> nat" where
  "utf8_length cp = (if cp < 0x80 then 1 else if cp < 0x800 then 2 else if cp < 0x10000 then 3 else 4)"

definition first_byte_mark :: "nat \<Rightarrow> 64 word" where
  "first_byte_mark n = (if n = 2 then 0xC0 else if n = 3 then 0xE0 else if n = 4 then 0xF0 else 0)"

definition utf8_encode :: "64 word \<Rightarrow> bytes" where
  "utf8_encode cp = (let n = utf8_length cp; (hi, tail) = utf8_tail (n - 1) cp []
     in if 1 < n then byte_of ((hi OR first_byte_mark n) AND 0xFF) # tail
        else [byte_of (hi AND 0x7F)])"

datatype utf16_result = UOk bytes nat | UFail | UFault

definition encode_codepoint :: "64 word \<Rightarrow> nat \<Rightarrow> utf16_result" where
  "encode_codepoint cp len = (if cp \<le> 0x10FFFF then UOk (utf8_encode cp) len else UFail)"

text \<open>\<open>s\<close> is the input from the backslash on, \<open>n\<close> the distance to \<open>input_end\<close>. A result
  \<^term>\<open>UOk out len\<close> stores \<open>out\<close> and consumes \<open>len\<close> bytes.\<close>

definition utf16_literal_to_utf8 :: "bytes \<Rightarrow> nat \<Rightarrow> utf16_result" where
  "utf16_literal_to_utf8 s n =
     (if n < 6 then UFail
      else case parse_hex4 (drop 2 s) of None \<Rightarrow> UFault | Some first_code \<Rightarrow>
        if 0xDC00 \<le> first_code \<and> first_code \<le> 0xDFFF then UFail
        else if 0xD800 \<le> first_code \<and> first_code \<le> 0xDBFF then
          (if n - 6 < 6 then UFail
           else case (nth_opt s 6, nth_opt s 7) of (Some c6, Some c7) \<Rightarrow>
               if c6 \<noteq> BSLASH \<or> c7 \<noteq> CHR ''u'' then UFail
               else (case parse_hex4 (drop 8 s) of None \<Rightarrow> UFault | Some second_code \<Rightarrow>
                   if second_code < 0xDC00 \<or> 0xDFFF < second_code then UFail
                   else encode_codepoint (0x10000 + ucast (push_bit 10 (first_code AND 0x3FF)
                          OR (second_code AND 0x3FF))) 12)
             | _ \<Rightarrow> UFault)
        else encode_codepoint (ucast first_code) 6)"

text \<open>
  The loop that looks for the closing quote, from just after the opening one: the distance to
  it and the number of escapes skipped, or \<^const>\<open>None\<close> if the input ends first.
\<close>

fun scan_string :: "bytes \<Rightarrow> nat \<Rightarrow> nat \<Rightarrow> (nat \<times> nat) option" where
  "scan_string [] len skipped = None"
| "scan_string [c] len skipped = (if c = QUOTE then Some (len, skipped) else None)"
| "scan_string (c # d # s) len skipped =
     (if c = QUOTE then Some (len, skipped)
      else if c = BSLASH then scan_string s (len + 2) (skipped + 1)
      else scan_string (d # s) (len + 1) skipped)"

datatype string_result = SOk bytes | SFail nat | SFault

text \<open>The bytes that the one character escapes stand for.\<close>

definition simple_escape :: "char \<Rightarrow> char option" where
  "simple_escape c = (if c = CHR ''b'' then Some (CHR 0x08) else if c = CHR ''f'' then Some (CHR 0x0C)
     else if c = CHR ''n'' then Some (CHR 0x0A) else if c = CHR ''r'' then Some (CHR 0x0D)
     else if c = CHR ''t'' then Some (CHR 0x09)
     else if c = QUOTE \<or> c = BSLASH \<or> c = CHR ''/'' then Some c else None)"

text \<open>
  The loop that copies the literal. \<open>s\<close> is the input from \<open>input_pointer\<close> on, \<open>n\<close> the distance
  to \<open>input_end\<close> (0 also when the pointer has run past it), \<open>out\<close> the bytes stored so far and
  \<open>cap\<close> the size of the output block. The copy of the terminating NUL is the first equation.
  A failure reports the distance left.
\<close>

function unescape :: "bytes \<Rightarrow> nat \<Rightarrow> bytes \<Rightarrow> nat \<Rightarrow> string_result" where
  "unescape s n out cap =
     (if n = 0 then (if length out < cap then SOk out else SFault)
      else case nth_opt s 0 of None \<Rightarrow> SFault | Some c \<Rightarrow>
        if c \<noteq> BSLASH then
          (if length out < cap then unescape (drop 1 s) (n - 1) (out @ [c]) cap else SFault)
        else case nth_opt s 1 of None \<Rightarrow> SFault | Some d \<Rightarrow>
          (case simple_escape d of
             Some e \<Rightarrow> if length out < cap then unescape (drop 2 s) (n - 2) (out @ [e]) cap else SFault
           | None \<Rightarrow>
               if d = CHR ''u'' then
                 (case utf16_literal_to_utf8 s n of
                    UFault \<Rightarrow> SFault
                  | UFail \<Rightarrow> SFail n
                  | UOk us len \<Rightarrow>
                      if length out + length us \<le> cap
                      then (if len = 0 then SFail n else unescape (drop len s) (n - len) (out @ us) cap)
                      else SFault)
               else SFail n))"
  by pat_completeness auto
termination by (relation "measure (\<lambda>(s, n, out, cap). n)") auto

declare unescape.simps [simp del]

text \<open>
  The item gets the C string that the block denotes. On success the buffer is just behind the
  closing quote; on failure it is where \<open>input_pointer\<close> stopped.
\<close>

definition parse_string :: "cJSON \<Rightarrow> parse_buffer \<Rightarrow> cJSON outcome" where
  "parse_string item b =
     (case peek b 0 of None \<Rightarrow> Fault | Some q \<Rightarrow>
        if q \<noteq> QUOTE then Fail (skip 1 b)
        else case scan_string (buffer_at_offset (skip 1 b)) 0 0 of
          None \<Rightarrow> Fail (skip 1 b)
        | Some (len, skipped) \<Rightarrow>
            let (ok, m) = alloc (hooks b);
                b1 = (skip 1 b)\<lparr>hooks := m\<rparr>;
                cap = (len + 1) - skipped + 1
            in if \<not> ok then Fail b1
               else case unescape (buffer_at_offset b1) len [] cap of
                 SFault \<Rightarrow> Fault
               | SFail left \<Rightarrow> Fail (skip (len - left) b1)
               | SOk out \<Rightarrow> Ok (CJSON cJSON_String (Some (c_str out)) (valueint item)
                                   (valuedouble item) (ckey item) (child item))
                                (skip (len + 1) b1))"

section \<open>Values\<close>

definition CJSON_NESTING_LIMIT :: nat where "CJSON_NESTING_LIMIT = 1000"

definition and_then :: "'a outcome \<Rightarrow> ('a \<Rightarrow> parse_buffer \<Rightarrow> 'b outcome) \<Rightarrow> 'b outcome" where
  "and_then r k = (case r of Ok x b \<Rightarrow> k x b | Fail b \<Rightarrow> Fail b | Fault \<Rightarrow> Fault | OutOfFuel \<Rightarrow> OutOfFuel)"

definition new_item :: "parse_buffer \<Rightarrow> cJSON outcome" where
  "new_item b = (case cJSON_New_Item (hooks b) of
     (Some item, m) \<Rightarrow> Ok item (b\<lparr>hooks := m\<rparr>) | (None, m) \<Rightarrow> Fail (b\<lparr>hooks := m\<rparr>))"

definition with_type :: "32 word \<Rightarrow> cJSON \<Rightarrow> cJSON" where
  "with_type t i = CJSON t (valuestring i) (valueint i) (valuedouble i) (ckey i) (child i)"

definition with_valueint :: "int \<Rightarrow> cJSON \<Rightarrow> cJSON" where
  "with_valueint n i = CJSON (ctype i) (valuestring i) n (valuedouble i) (ckey i) (child i)"

definition with_children :: "cJSON list \<Rightarrow> cJSON \<Rightarrow> cJSON" where
  "with_children ch i = CJSON (ctype i) (valuestring i) (valueint i) (valuedouble i) (ckey i) ch"

text \<open>\<open>parse_object\<close> moves the parsed string into the name of the item.\<close>

definition string_to_key :: "cJSON \<Rightarrow> cJSON" where
  "string_to_key i = CJSON (ctype i) None (valueint i) (valuedouble i) (valuestring i) (child i)"

definition is_number_start :: "char \<Rightarrow> bool" where
  "is_number_start c \<longleftrightarrow> c = CHR ''-'' \<or> is_digit c"

definition enter :: "parse_buffer \<Rightarrow> parse_buffer" where
  "enter b = b\<lparr>depth := depth b + 1\<rparr>"

definition leave :: "parse_buffer \<Rightarrow> parse_buffer" where
  "leave b = skip 1 (b\<lparr>depth := depth b - 1\<rparr>)"

text \<open>
  \<open>array_items\<close> and \<open>object_items\<close> are the two \<open>do ... while\<close> loops over the comma separated
  elements; they return the chain they build. The rest of \<open>parse_array\<close> and \<open>parse_object\<close>
  is around them.
\<close>

fun parse_value :: "nat \<Rightarrow> cJSON \<Rightarrow> parse_buffer \<Rightarrow> cJSON outcome"
  and parse_array :: "nat \<Rightarrow> cJSON \<Rightarrow> parse_buffer \<Rightarrow> cJSON outcome"
  and array_items :: "nat \<Rightarrow> parse_buffer \<Rightarrow> cJSON list outcome"
  and parse_object :: "nat \<Rightarrow> cJSON \<Rightarrow> parse_buffer \<Rightarrow> cJSON outcome"
  and object_items :: "nat \<Rightarrow> parse_buffer \<Rightarrow> cJSON list outcome" where
  "parse_value 0 item b = OutOfFuel"
| "parse_value (Suc f) item b =
     (if looking_at b ''null'' then Ok (with_type cJSON_NULL item) (skip 4 b)
      else if looking_at b ''false'' then Ok (with_type cJSON_False item) (skip 5 b)
      else if looking_at b ''true'' then Ok (with_valueint 1 (with_type cJSON_True item)) (skip 4 b)
      else case peek b 0 of None \<Rightarrow> Fail b | Some c \<Rightarrow>
        if c = QUOTE then parse_string item b
        else if is_number_start c then parse_number item b
        else if c = CHR ''['' then parse_array f item b
        else if c = CHR ''{'' then parse_object f item b
        else Fail b)"
| "parse_array 0 item b = OutOfFuel"
| "parse_array (Suc f) item b =
     (if CJSON_NESTING_LIMIT \<le> depth b then Fail b
      else case peek (enter b) 0 of None \<Rightarrow> Fault | Some c \<Rightarrow>
        if c \<noteq> CHR ''['' then Fail (enter b)
        else let b1 = buffer_skip_whitespace (skip 1 (enter b))
             in if peek b1 0 = Some (CHR '']'') then
                  Ok (with_children [] (with_type cJSON_Array item)) (leave b1)
                else if \<not> can_access_at_index b1 0 then Fail (step_back b1)
                else and_then (array_items f (step_back b1)) (\<lambda>items b2.
                  if peek b2 0 = Some (CHR '']'') then
                    Ok (with_children items (with_type cJSON_Array item)) (leave b2)
                  else Fail b2))"
| "array_items 0 b = OutOfFuel"
| "array_items (Suc f) b =
     and_then (new_item b) (\<lambda>item b1.
     and_then (parse_value f item (buffer_skip_whitespace (skip 1 b1))) (\<lambda>item' b2.
       let b3 = buffer_skip_whitespace b2
       in if peek b3 0 = Some (CHR '','') then
            and_then (array_items f b3) (\<lambda>items b4. Ok (item' # items) b4)
          else Ok [item'] b3))"
| "parse_object 0 item b = OutOfFuel"
| "parse_object (Suc f) item b =
     (if CJSON_NESTING_LIMIT \<le> depth b then Fail b
      else if peek (enter b) 0 \<noteq> Some (CHR ''{'') then Fail (enter b)
      else let b1 = buffer_skip_whitespace (skip 1 (enter b))
           in if peek b1 0 = Some (CHR ''}'') then
                Ok (with_children [] (with_type cJSON_Object item)) (leave b1)
              else if \<not> can_access_at_index b1 0 then Fail (step_back b1)
              else and_then (object_items f (step_back b1)) (\<lambda>items b2.
                if peek b2 0 = Some (CHR ''}'') then
                  Ok (with_children items (with_type cJSON_Object item)) (leave b2)
                else Fail b2))"
| "object_items 0 b = OutOfFuel"
| "object_items (Suc f) b =
     and_then (new_item b) (\<lambda>item b1.
     and_then (parse_string item (buffer_skip_whitespace (skip 1 b1))) (\<lambda>item1 b2.
       let b3 = buffer_skip_whitespace b2; named = string_to_key item1
       in if peek b3 0 \<noteq> Some (CHR '':'') then Fail b3
          else and_then (parse_value f named (buffer_skip_whitespace (skip 1 b3))) (\<lambda>item2 b4.
            let b5 = buffer_skip_whitespace b4
            in if peek b5 0 = Some (CHR '','') then
                 and_then (object_items f b5) (\<lambda>items b6. Ok (item2 # items) b6)
               else Ok [item2] b5)))"

section \<open>Entry points\<close>

text \<open>
  What \<open>cJSON_ParseWithOpts\<close> leaves: the item, the position written to \<open>*return_parse_end\<close>
  (if the pointer is given), and \<open>global_error\<close> (\<^const>\<open>None\<close> for its reset value, whose
  \<open>json\<close> is NULL). \<^const>\<open>None\<close> for the whole is a fault.
\<close>

record parse_report =
  parsed :: "cJSON option"
  parse_end :: "nat option"
  error_position :: "nat option"

definition start_buffer :: "mem \<Rightarrow> bytes \<Rightarrow> parse_buffer" where
  "start_buffer m value = \<lparr>content = value @ [NUL], offset = 0, depth = 0, hooks = m\<rparr>"

definition enough_fuel :: "bytes \<Rightarrow> nat" where
  "enough_fuel value = 3 * length value + 6"

definition error_report :: "parse_buffer \<Rightarrow> parse_report" where
  "error_report b =
     (let pos = (if offset b < length (content b) then offset b
                 else if 0 < length (content b) then length (content b) - 1 else 0)
      in \<lparr>parsed = None, parse_end = Some pos, error_position = Some pos\<rparr>)"

definition cJSON_ParseWithOpts :: "mem \<Rightarrow> bytes option \<Rightarrow> bool \<Rightarrow> parse_report option" where
  "cJSON_ParseWithOpts m value require_null_terminated = (case value of
     None \<Rightarrow> Some \<lparr>parsed = None, parse_end = None, error_position = None\<rparr>
   | Some v \<Rightarrow>
       (case new_item (start_buffer m v) of
          Ok item b \<Rightarrow>
            (case skip_utf8_bom b of None \<Rightarrow> Some (error_report b) | Some b1 \<Rightarrow>
              (case parse_value (enough_fuel v) item (buffer_skip_whitespace b1) of
                 Ok item' b2 \<Rightarrow>
                   (let b3 = (if require_null_terminated then buffer_skip_whitespace b2 else b2)
                    in if require_null_terminated \<and> peek b3 0 \<noteq> Some NUL then Some (error_report b3)
                       else Some \<lparr>parsed = Some item', parse_end = Some (offset b3), error_position = None\<rparr>)
               | Fail b2 \<Rightarrow> Some (error_report b2)
               | _ \<Rightarrow> None))
        | Fail b \<Rightarrow> Some (error_report b)
        | _ \<Rightarrow> None))"

text \<open>The outer option is the fault, the inner one the NULL that \<open>cJSON_Parse\<close> may return.\<close>

definition cJSON_Parse :: "mem \<Rightarrow> bytes option \<Rightarrow> cJSON option option" where
  "cJSON_Parse m value = map_option parsed (cJSON_ParseWithOpts m value False)"

end
