(* ===== verification/JsonPrint.thy ===== *)
theory JsonPrint
  imports CJson
begin

text \<open>
  The printer of \<open>src/contrib/cJSON.c\<close>. The state is the \<open>printbuffer\<close>: the block it writes,
  whose bytes are \<^const>\<open>None\<close> until they are written, the size \<open>length\<close> it believes in, the
  offset and the indentation depth. Outcomes are as for the parser: a fault is a write outside
  the block, a read of a byte that was never written, or a second \<open>free\<close> of the block.
\<close>

section \<open>The print buffer\<close>

record printbuffer =
  pblock :: "char option list option"
  plength :: nat
  poffset :: nat
  pdepth :: nat
  noalloc :: bool
  format :: bool
  phooks :: mem
  has_realloc :: bool
  dangling :: bool

datatype print_outcome = POk printbuffer | PFail printbuffer | PFault

definition pthen :: "print_outcome \<Rightarrow> (printbuffer \<Rightarrow> print_outcome) \<Rightarrow> print_outcome" where
  "pthen r k = (case r of POk p \<Rightarrow> k p | PFail p \<Rightarrow> PFail p | PFault \<Rightarrow> PFault)"

text \<open>A successful \<open>ensure\<close> answers the pointer \<open>buffer + offset\<close>; the model keeps it implicit.
  The size computation is exact, no value here exceeds \<open>2 * INT_MAX + 2\<close>.\<close>

definition new_size :: "nat \<Rightarrow> nat option" where
  "new_size needed = (if 1073741823 < needed
     then (if needed \<le> 2147483647 then Some 2147483647 else None) else Some (needed * 2))"

definition grow :: "printbuffer \<Rightarrow> char option list \<Rightarrow> nat \<Rightarrow> print_outcome" where
  "grow p blk newsize =
     (let (ok, m) = alloc (phooks p); p1 = p\<lparr>phooks := m\<rparr>
      in if \<not> ok then PFail (p1\<lparr>plength := 0, pblock := None\<rparr>)
         else if \<not> has_realloc p \<and> length blk < poffset p + 1 then PFault
         else let kept = take newsize (if has_realloc p then blk else take (poffset p + 1) blk)
              in POk (p1\<lparr>plength := newsize,
                        pblock := Some (kept @ replicate (newsize - length kept) None)\<rparr>))"

definition ensure :: "nat \<Rightarrow> printbuffer \<Rightarrow> print_outcome" where
  "ensure needed p = (case pblock p of None \<Rightarrow> PFail p | Some blk \<Rightarrow>
     if 0 < plength p \<and> plength p \<le> poffset p then PFail p
     else if 2147483647 < needed then PFail p
     else let needed' = needed + poffset p + 1
          in if needed' \<le> plength p then POk p
             else if noalloc p then PFail p
             else case new_size needed' of None \<Rightarrow> PFail p | Some n \<Rightarrow> grow p blk n)"

text \<open>Stores through the pointer \<open>buffer + offset + i\<close>.\<close>

definition write_at :: "nat \<Rightarrow> bytes \<Rightarrow> char option list \<Rightarrow> char option list" where
  "write_at i bs blk = take i blk @ map Some bs @ drop (i + length bs) blk"

definition store :: "nat \<Rightarrow> bytes \<Rightarrow> printbuffer \<Rightarrow> print_outcome" where
  "store i bs p = (case pblock p of None \<Rightarrow> PFault | Some blk \<Rightarrow>
     if poffset p + i + length bs \<le> length blk
     then POk (p\<lparr>pblock := Some (write_at (poffset p + i) bs blk)\<rparr>) else PFault)"

definition advance :: "nat \<Rightarrow> printbuffer \<Rightarrow> printbuffer" where
  "advance n p = p\<lparr>poffset := poffset p + n\<rparr>"

fun strlen_mem :: "char option list \<Rightarrow> nat option" where
  "strlen_mem [] = None"
| "strlen_mem (None # s) = None"
| "strlen_mem (Some c # s) = (if c = NUL then Some 0 else map_option Suc (strlen_mem s))"

definition update_offset :: "printbuffer \<Rightarrow> print_outcome" where
  "update_offset p = (case pblock p of None \<Rightarrow> POk p | Some blk \<Rightarrow>
     (case strlen_mem (drop (poffset p) blk) of None \<Rightarrow> PFault | Some n \<Rightarrow> POk (advance n p)))"

section \<open>Numbers and strings\<close>

definition finite_double :: "double \<Rightarrow> bool" where
  "finite_double d \<longleftrightarrow> (case d of Fin _ \<Rightarrow> True | NegZero \<Rightarrow> True | _ \<Rightarrow> False)"

text \<open>The text that \<open>print_number\<close> puts into \<open>number_buffer\<close>.\<close>

definition number_text :: "double \<Rightarrow> bytes" where
  "number_text d =
     (if \<not> finite_double d then ''null''
      else let s = sprintf_g 15 d
           in case sscanf_lg s of
                Some test \<Rightarrow> if deq test d then s else sprintf_g 17 d
              | None \<Rightarrow> sprintf_g 17 d)"

definition print_number :: "cJSON \<Rightarrow> printbuffer \<Rightarrow> print_outcome" where
  "print_number item p =
     (let s = number_text (valuedouble item)
      in if 26 < length s + 1 then PFault
         else pthen (ensure (length s) p) (\<lambda>p1.
              pthen (store 0 (s @ [NUL]) p1) (\<lambda>p2. POk (advance (length s) p2))))"

definition hex_digit :: "nat \<Rightarrow> char" where
  "hex_digit n = (if n < 10 then char_of (48 + n) else char_of (87 + n))"

text \<open>\<open>sprintf("u%04x", c)\<close>, without its NUL.\<close>

definition u04x :: "nat \<Rightarrow> bytes" where
  "u04x n = [CHR ''u'', hex_digit (n div 4096 mod 16), hex_digit (n div 256 mod 16),
     hex_digit (n div 16 mod 16), hex_digit (n mod 16)]"

text \<open>The letter of a one character escape sequence.\<close>

definition short_escape :: "char \<Rightarrow> char option" where
  "short_escape c = (if c = BSLASH then Some BSLASH else if c = QUOTE then Some QUOTE
     else if c = CHR 0x08 then Some (CHR ''b'') else if c = CHR 0x0C then Some (CHR ''f'')
     else if c = CHR 0x0A then Some (CHR ''n'') else if c = CHR 0x0D then Some (CHR ''r'')
     else if c = CHR 0x09 then Some (CHR ''t'') else None)"

text \<open>The first loop of \<open>print_string_ptr\<close>: how many characters escaping adds.\<close>

fun escape_characters :: "bytes \<Rightarrow> nat" where
  "escape_characters [] = 0"
| "escape_characters (c # s) =
     (if short_escape c \<noteq> None then 1 else if code c < 32 then 5 else 0) + escape_characters s"

text \<open>The second loop; \<open>i\<close> is \<open>output_pointer - output\<close>. \<open>sprintf\<close> also stores a NUL behind the
  sequence, which the next store overwrites.\<close>

fun write_escaped :: "bytes \<Rightarrow> nat \<Rightarrow> printbuffer \<Rightarrow> print_outcome" where
  "write_escaped [] i p = POk p"
| "write_escaped (c # s) i p =
     (if 31 < code c \<and> c \<noteq> QUOTE \<and> c \<noteq> BSLASH
      then pthen (store i [c] p) (write_escaped s (i + 1))
      else case short_escape c of
        Some e \<Rightarrow> pthen (store i [BSLASH, e] p) (write_escaped s (i + 2))
      | None \<Rightarrow> pthen (store i (BSLASH # u04x (code c) @ [NUL]) p) (write_escaped s (i + 6)))"

definition print_string_ptr :: "bytes option \<Rightarrow> printbuffer \<Rightarrow> print_outcome" where
  "print_string_ptr input p = (case input of
     None \<Rightarrow> pthen (ensure 3 p) (store 0 [QUOTE, QUOTE, NUL])
   | Some s \<Rightarrow>
       let extra = escape_characters s; output_length = length s + extra
       in pthen (ensure (output_length + 3) p) (\<lambda>p1.
            if extra = 0 then
              pthen (store 0 (QUOTE # s) p1) (store (output_length + 1) [QUOTE, NUL])
            else
              pthen (store 0 [QUOTE] p1) (\<lambda>p2.
              pthen (write_escaped s 1 p2) (store (output_length + 1) [QUOTE, NUL]))))"

section \<open>Values\<close>

definition deeper :: "printbuffer \<Rightarrow> printbuffer" where
  "deeper p = p\<lparr>pdepth := pdepth p + 1\<rparr>"

definition shallower :: "printbuffer \<Rightarrow> printbuffer" where
  "shallower p = p\<lparr>pdepth := pdepth p - 1\<rparr>"

text \<open>\<open>ensure\<close>, then stores at the output pointer: the shape of every literal piece.\<close>

definition emit :: "nat \<Rightarrow> bytes \<Rightarrow> printbuffer \<Rightarrow> print_outcome" where
  "emit needed bs p = pthen (ensure needed p) (store 0 bs)"

definition emit_advance :: "nat \<Rightarrow> bytes \<Rightarrow> nat \<Rightarrow> printbuffer \<Rightarrow> print_outcome" where
  "emit_advance needed bs n p = pthen (emit needed bs p) (\<lambda>p'. POk (advance n p'))"

definition tabs :: "nat \<Rightarrow> bytes" where "tabs n = replicate n (CHR 0x09)"

text \<open>
  \<open>print_elements\<close> and \<open>print_members\<close> are the loops of \<open>print_array\<close> and \<open>print_object\<close>
  over the chain of children; an item has a \<open>next\<close> when the rest of the list is not empty.
\<close>

fun print_value :: "cJSON \<Rightarrow> printbuffer \<Rightarrow> print_outcome"
  and print_array :: "cJSON list \<Rightarrow> printbuffer \<Rightarrow> print_outcome"
  and print_elements :: "cJSON list \<Rightarrow> printbuffer \<Rightarrow> print_outcome"
  and print_object :: "cJSON list \<Rightarrow> printbuffer \<Rightarrow> print_outcome"
  and print_members :: "cJSON list \<Rightarrow> printbuffer \<Rightarrow> print_outcome" where
  "print_value (CJSON t vs vi vd k ch) p =
     (let ty = t AND 255 in
      if ty = cJSON_NULL then emit 5 (''null'' @ [NUL]) p
      else if ty = cJSON_False then emit 6 (''false'' @ [NUL]) p
      else if ty = cJSON_True then emit 5 (''true'' @ [NUL]) p
      else if ty = cJSON_Number then print_number (CJSON t vs vi vd k ch) p
      else if ty = cJSON_Raw then
        (case vs of
           None \<Rightarrow> PFail (if noalloc p then p else p\<lparr>dangling := True\<rparr>)
         | Some raw \<Rightarrow> emit (length raw + 1) (raw @ [NUL]) p)
      else if ty = cJSON_String then print_string_ptr vs p
      else if ty = cJSON_Array then print_array ch p
      else if ty = cJSON_Object then print_object ch p
      else PFail p)"
| "print_array ch p =
     pthen (emit_advance 1 ''['' 1 p) (\<lambda>p1.
     pthen (print_elements ch (deeper p1)) (\<lambda>p2.
     pthen (emit 2 ('']'' @ [NUL]) p2) (\<lambda>p3. POk (shallower p3))))"
| "print_elements [] p = POk p"
| "print_elements (i # is) p =
     pthen (print_value i p) (\<lambda>p1.
     pthen (update_offset p1) (\<lambda>p2.
     pthen (if is = [] then POk p2
            else if format p2 then emit_advance 3 ('', '' @ [NUL]) 2 p2
            else emit_advance 2 ('','' @ [NUL]) 1 p2) (\<lambda>p3.
     print_elements is p3)))"
| "print_object ch p =
     pthen (if format p then emit_advance 3 [CHR ''{'', CHR 0x0A] 2 p else emit_advance 2 ''{'' 1 p) (\<lambda>p1.
     pthen (print_members ch (deeper p1)) (\<lambda>p2.
     pthen (if format p2 then emit (pdepth p2 + 1) (tabs (pdepth p2 - 1) @ ''}'' @ [NUL]) p2
            else emit 2 (''}'' @ [NUL]) p2) (\<lambda>p3. POk (shallower p3))))"
| "print_members [] p = POk p"
| "print_members (i # is) p =
     pthen (if format p then emit_advance (pdepth p) (tabs (pdepth p)) (pdepth p) p else POk p) (\<lambda>p1.
     pthen (print_string_ptr (ckey i) p1) (\<lambda>p2.
     pthen (update_offset p2) (\<lambda>p3.
     pthen (if format p3 then emit_advance 2 [CHR '':'', CHR 0x09] 2 p3 else emit_advance 1 '':'' 1 p3) (\<lambda>p4.
     pthen (print_value i p4) (\<lambda>p5.
     pthen (update_offset p5) (\<lambda>p6.
     pthen (let sep = (if is \<noteq> [] then '','' else []) @ (if format p6 then [CHR 0x0A] else [])
            in emit_advance (length sep + 1) (sep @ [NUL]) (length sep) p6) (\<lambda>p7.
     print_members is p7)))))))"

section \<open>Entry points\<close>

datatype printed = Printed bytes | PrintNull | PrintFault

text \<open>What a C caller sees of a block: the bytes before the first NUL, if all are written.\<close>

fun block_c_str :: "char option list \<Rightarrow> bytes option" where
  "block_c_str [] = None"
| "block_c_str (None # s) = None"
| "block_c_str (Some c # s) = (if c = NUL then Some [] else map_option (Cons c) (block_c_str s))"

definition c_str_result :: "char option list \<Rightarrow> printed" where
  "c_str_result blk = (case block_c_str blk of None \<Rightarrow> PrintFault | Some s \<Rightarrow> Printed s)"

text \<open>The label \<open>fail\<close> of \<open>print\<close>, which frees the buffer unless the pointer is NULL.\<close>

definition print_fail :: "printbuffer \<Rightarrow> printed" where
  "print_fail p = (if pblock p \<noteq> None \<and> dangling p then PrintFault else PrintNull)"

definition print_finish :: "printbuffer \<Rightarrow> printed" where
  "print_finish p = (case pblock p of None \<Rightarrow> PrintFault | Some blk \<Rightarrow>
     if has_realloc p then
       (if fst (alloc (phooks p))
        then c_str_result (take (plength p) blk @ replicate (plength p - length blk) None)
        else PrintNull)
     else if \<not> fst (alloc (phooks p)) then print_fail p
     else if length blk < min (plength p) (poffset p + 1) then PrintFault
     else let copied = take (min (plength p) (poffset p + 1)) blk;
              printed = copied @ replicate (poffset p + 1 - length copied) None
          in c_str_result (printed[poffset p := Some NUL]))"

definition print :: "cJSON option \<Rightarrow> bool \<Rightarrow> bool \<Rightarrow> mem \<Rightarrow> printed" where
  "print item fmt realloc m =
     (let (ok, m') = alloc m
      in if \<not> ok then PrintNull
         else let p = \<lparr>pblock = Some (replicate 256 None), plength = 0, poffset = 0, pdepth = 0,
                       noalloc = False, format = fmt, phooks = m', has_realloc = realloc, dangling = False\<rparr>
              in case item of None \<Rightarrow> print_fail p | Some i \<Rightarrow>
                (case pthen (print_value i p) update_offset of
                   PFail p' \<Rightarrow> print_fail p'
                 | PFault \<Rightarrow> PrintFault
                 | POk p' \<Rightarrow> print_finish p'))"

definition cJSON_Print :: "cJSON option \<Rightarrow> mem \<Rightarrow> printed" where
  "cJSON_Print item m = print item True True m"

definition cJSON_PrintUnformatted :: "cJSON option \<Rightarrow> mem \<Rightarrow> printed" where
  "cJSON_PrintUnformatted item m = print item False True m"

definition cJSON_PrintBuffered :: "cJSON option \<Rightarrow> int \<Rightarrow> bool \<Rightarrow> mem \<Rightarrow> printed" where
  "cJSON_PrintBuffered item prebuffer fmt m =
     (if prebuffer < 0 then PrintNull
      else let (ok, m') = alloc m
           in if \<not> ok then PrintNull
              else let p = \<lparr>pblock = Some (replicate (nat prebuffer) None), plength = nat prebuffer,
                            poffset = 0, pdepth = 0, noalloc = False, format = fmt, phooks = m',
                            has_realloc = True, dangling = False\<rparr>
                   in case item of None \<Rightarrow> print_fail p | Some i \<Rightarrow>
                     (case print_value i p of
                        PFail p' \<Rightarrow> print_fail p'
                      | PFault \<Rightarrow> PrintFault
                      | POk p' \<Rightarrow> (case pblock p' of None \<Rightarrow> PrintNull | Some blk \<Rightarrow> c_str_result blk)))"

text \<open>The caller's buffer is \<open>buf\<close>; the result is the answer and the buffer afterwards.\<close>

definition cJSON_PrintPreallocated ::
  "cJSON option \<Rightarrow> char option list option \<Rightarrow> int \<Rightarrow> bool \<Rightarrow> (bool \<times> char option list option) option" where
  "cJSON_PrintPreallocated item buf len fmt =
     (if len < 0 \<or> buf = None then Some (False, buf)
      else let p = \<lparr>pblock = buf, plength = nat len, poffset = 0, pdepth = 0, noalloc = True,
                    format = fmt, phooks = [], has_realloc = True, dangling = False\<rparr>
           in case item of None \<Rightarrow> Some (False, buf) | Some i \<Rightarrow>
             (case print_value i p of
                POk p' \<Rightarrow> Some (True, pblock p')
              | PFail p' \<Rightarrow> Some (False, pblock p')
              | PFault \<Rightarrow> None))"

end
