(* ===== verification/PrintRefine.thy ===== *)
theory PrintRefine
  imports JsonPrint
begin

text \<open>
  What the printer computes: the text of an item as a function on trees, and the proof that
  the buffer code produces it, with every store inside the block and no unwritten byte read.
\<close>

section \<open>The text of an item\<close>

definition escape_char :: "char \<Rightarrow> bytes" where
  "escape_char c = (if 31 < code c \<and> c \<noteq> QUOTE \<and> c \<noteq> BSLASH then [c]
     else case short_escape c of Some e \<Rightarrow> [BSLASH, e] | None \<Rightarrow> BSLASH # u04x (code c))"

definition render_string :: "bytes option \<Rightarrow> bytes" where
  "render_string input = (case input of None \<Rightarrow> [QUOTE, QUOTE]
     | Some s \<Rightarrow> QUOTE # concat (map escape_char s) @ [QUOTE])"

fun render :: "bool \<Rightarrow> nat \<Rightarrow> cJSON \<Rightarrow> bytes"
  and render_elements :: "bool \<Rightarrow> nat \<Rightarrow> cJSON list \<Rightarrow> bytes"
  and render_members :: "bool \<Rightarrow> nat \<Rightarrow> cJSON list \<Rightarrow> bytes" where
  "render fmt d (CJSON t vs vi vd k ch) =
     (let ty = t AND 255 in
      if ty = cJSON_NULL then ''null'' else if ty = cJSON_False then ''false''
      else if ty = cJSON_True then ''true'' else if ty = cJSON_Number then number_text vd
      else if ty = cJSON_Raw then (case vs of None \<Rightarrow> [] | Some raw \<Rightarrow> raw)
      else if ty = cJSON_String then render_string vs
      else if ty = cJSON_Array then ''['' @ render_elements fmt (d + 1) ch @ '']''
      else if ty = cJSON_Object then
        (if fmt then [CHR ''{'', CHR 0x0A] else ''{'') @ render_members fmt (d + 1) ch
        @ (if fmt then tabs d else []) @ ''}''
      else [])"
| "render_elements fmt d [] = []"
| "render_elements fmt d (i # is) = render fmt d i
     @ (if is = [] then [] else if fmt then '', '' else '','') @ render_elements fmt d is"
| "render_members fmt d [] = []"
| "render_members fmt d (i # is) = (if fmt then tabs d else []) @ render_string (ckey i)
     @ (if fmt then [CHR '':'', CHR 0x09] else '':'') @ render fmt d i
     @ (if is \<noteq> [] then '','' else []) @ (if fmt then [CHR 0x0A] else [])
     @ render_members fmt d is"

text \<open>Items the printer accepts: a known type, the text of a raw item present, strings without
  NUL, and a number whose text fits \<open>number_buffer\<close>.\<close>

definition c_string_opt :: "bytes option \<Rightarrow> bool" where
  "c_string_opt s = (case s of None \<Rightarrow> True | Some t \<Rightarrow> nul_free t)"

fun printable :: "cJSON \<Rightarrow> bool" where
  "printable (CJSON t vs vi vd k ch) =
     (let ty = t AND 255 in c_string_opt k \<and>
      (if ty = cJSON_Number then length (number_text vd) \<le> 25 \<and> nul_free (number_text vd)
       else if ty = cJSON_Raw then vs \<noteq> None \<and> c_string_opt vs
       else if ty = cJSON_String then c_string_opt vs
       else if ty = cJSON_Array \<or> ty = cJSON_Object then (\<forall>i \<in> set ch. printable i)
       else ty = cJSON_NULL \<or> ty = cJSON_False \<or> ty = cJSON_True))"

section \<open>The buffer holds a text\<close>

definition block_of :: "printbuffer \<Rightarrow> char option list" where
  "block_of p = (case pblock p of None \<Rightarrow> [] | Some blk \<Rightarrow> blk)"

text \<open>
  With the bound \<open>c\<close> the printer must succeed: its text fits in \<open>c\<close> bytes, and the buffer has them or
  there is memory to make it grow. Without a bound it may fail, but it leaves no pointer to a block
  that is freed.
\<close>

definition yields :: "nat option \<Rightarrow> print_outcome \<Rightarrow> (printbuffer \<Rightarrow> bool) \<Rightarrow> bool" where
  "yields c r Q \<longleftrightarrow> (\<exists>p'. r = POk p' \<and> Q p') \<or> c = None \<and> (\<exists>p'. r = PFail p' \<and> \<not> dangling p')"

lemma yields_simps [simp]:
  "yields c (POk p) Q \<longleftrightarrow> Q p" "yields c (PFail p) Q \<longleftrightarrow> c = None \<and> \<not> dangling p" "\<not> yields c PFault Q"
  by (auto simp: yields_def)

lemma yields_mono: "yields c r Q \<Longrightarrow> (\<And>p. Q p \<Longrightarrow> R p) \<Longrightarrow> yields c r R"
  by (auto simp: yields_def)

lemma chain: "yields c r Q \<Longrightarrow> (\<And>p. Q p \<Longrightarrow> yields c (k p) R) \<Longrightarrow> yields c (pthen r k) R"
  by (cases r) (auto simp: pthen_def)

lemma chain_ok: "\<exists>p. r = POk p \<and> Q p \<Longrightarrow> (\<And>p. Q p \<Longrightarrow> yields c (k p) R) \<Longrightarrow> yields c (pthen r k) R"
  by (auto simp: pthen_def)

definition ready :: "nat option \<Rightarrow> printbuffer \<Rightarrow> nat \<Rightarrow> bool \<Rightarrow> bool" where
  "ready c p d fmt \<longleftrightarrow> pblock p \<noteq> None \<and> pdepth p = d \<and> format p = fmt
     \<and> (c = None \<or> the c \<le> 2147483647 \<and> phooks p = [] \<and> (noalloc p \<longrightarrow> the c \<le> plength p))
     \<and> \<not> dangling p \<and> poffset p < length (block_of p)
     \<and> (plength p = length (block_of p) \<or> plength p = 0 \<and> poffset p = 0)"

definition wrote :: "printbuffer \<Rightarrow> bytes \<Rightarrow> bool" where
  "wrote p txt \<longleftrightarrow> take (length txt) (block_of p) = map Some txt"

definition holds :: "nat option \<Rightarrow> printbuffer \<Rightarrow> bytes \<Rightarrow> nat \<Rightarrow> bool \<Rightarrow> bool" where
  "holds c p txt d fmt \<longleftrightarrow> ready c p d fmt \<and> wrote p txt \<and> poffset p = length txt \<and> nul_free txt"

text \<open>After a value is printed its text may still lie beyond the offset, ended by a NUL.\<close>

definition pending :: "nat option \<Rightarrow> printbuffer \<Rightarrow> bytes \<Rightarrow> nat \<Rightarrow> bool \<Rightarrow> bool" where
  "pending c p txt d fmt \<longleftrightarrow> ready c p d fmt \<and> wrote p (txt @ [NUL]) \<and> poffset p \<le> length txt
     \<and> nul_free txt \<and> plength p = length (block_of p)"

lemma wrote_length: "wrote p txt \<Longrightarrow> length txt \<le> length (block_of p)"
  by (metis length_map length_take min.cobounded1 wrote_def)

lemma grow_ok:
  assumes "holds c p txt d fmt" and blk: "pblock p = Some blk"
    and "\<not> noalloc p" and k: "needed + length txt + 1 \<le> k"
  shows "yields c (grow p blk k) (\<lambda>p'. holds c p' txt d fmt
    \<and> length txt + needed + 1 \<le> length (block_of p') \<and> plength p' = length (block_of p'))"
proof -
  have h: "c = None \<or> phooks p = []" "\<not> dangling p" "poffset p = length txt" "length txt < length blk"
    "take (length txt) blk = map Some txt"
    using assms(1,3) blk by (auto simp: holds_def ready_def block_of_def wrote_def)
  obtain ok m where m: "alloc (phooks p) = (ok, m)" by fastforce
  show ?thesis
  proof (cases ok)
    case False
    then have "c = None" using h(1) m by auto
    then show ?thesis using False m h(2) by (simp add: grow_def)
  next
    case True
    define old where "old = (if has_realloc p then blk else take (length txt + 1) blk)"
    define kept where "kept = take k old"
    define p' where "p' = p\<lparr>phooks := m, plength := k, pblock := Some (kept @ replicate (k - length kept) None)\<rparr>"
    have p': "grow p blk k = POk p'"
      using True m h by (auto simp: grow_def p'_def kept_def old_def Let_def)
    have b: "block_of p' = kept @ replicate (k - length kept) None" "length (block_of p') = k"
      by (simp_all add: block_of_def p'_def kept_def)
    have "length txt \<le> length kept" using h(4) k by (auto simp: kept_def old_def)
    then have "take (length txt) (block_of p') = take (length txt) old"
      using k by (simp add: b kept_def)
    also have "\<dots> = map Some txt" using h(5) by (simp add: old_def)
    finally have "wrote p' txt" by (simp add: wrote_def)
    moreover have "c = None \<or> m = []" using h(1) m by auto
    ultimately have "holds c p' txt d fmt"
      using assms(1,3) b k h by (auto simp: holds_def ready_def p'_def)
    then show ?thesis using p' b k by (auto simp: p'_def)
  qed
qed

lemma ensure_ok:
  assumes "holds c p txt d fmt" and "c = None \<or> needed + length txt + 1 \<le> the c"
  shows "yields c (ensure needed p) (\<lambda>p'. holds c p' txt d fmt
    \<and> length txt + needed + 1 \<le> length (block_of p') \<and> plength p' = length (block_of p'))"
proof -
  obtain blk where blk: "pblock p = Some blk" using assms(1) by (auto simp: holds_def ready_def)
  have h: "c = None \<or> the c \<le> 2147483647 \<and> phooks p = [] \<and> (noalloc p \<longrightarrow> the c \<le> plength p)" "\<not> dangling p" "poffset p = length txt" "length txt < length blk"
    "plength p = length blk \<or> plength p = 0 \<and> txt = []" "take (length txt) blk = map Some txt"
    using assms(1) blk by (auto simp: holds_def ready_def block_of_def wrote_def)
  let ?n = "needed + length txt + 1"
  consider "2147483647 < needed" | "needed \<le> 2147483647" "?n \<le> plength p" | "needed \<le> 2147483647" "plength p < ?n" "noalloc p \<or> new_size ?n = None"
    | k where "needed \<le> 2147483647" "plength p < ?n" "\<not> noalloc p" "new_size ?n = Some k" by (metis not_le_imp_less option.exhaust)
  then show ?thesis
  proof cases
    case 1
    then have "ensure needed p = PFail p" using h(3) blk by (simp add: ensure_def)
    then show ?thesis using 1 assms(2) h(1,2) by auto
  next
    case 2
    then have "plength p = length blk" using h(5) by auto
    moreover have "ensure needed p = POk p" using 2 h(3) blk by (simp add: ensure_def)
    ultimately show ?thesis using 2 assms(1) blk by (simp add: block_of_def)
  next
    case 3
    then have "ensure needed p = PFail p" using h(3) blk by (auto simp: ensure_def)
    moreover have "?n \<le> 2147483647 \<longrightarrow> new_size ?n \<noteq> None" by (simp add: new_size_def)
    then have "c = None" using 3(2,3) h(1) assms(2) by (cases c) (auto split: if_splits)
    ultimately show ?thesis using h(2) by simp
  next
    case (4 k)
    then have k: "?n \<le> k" by (auto simp: new_size_def split: if_splits)
    have "ensure needed p = grow p blk k" using 4 h(3-5) blk by (auto simp: ensure_def)
    then show ?thesis using grow_ok[OF assms(1) blk 4(3) k] by simp
  qed
qed

lemma write_at_props:
  assumes "i + length bs \<le> length blk"
  shows "length (write_at i bs blk) = length blk"
    and "take (i + length bs) (write_at i bs blk) = take i blk @ map Some bs"
proof -
  have i: "min (length blk) i = i" using assms by simp
  show "length (write_at i bs blk) = length blk"
    and "take (i + length bs) (write_at i bs blk) = take i blk @ map Some bs"
    using assms by (simp_all add: write_at_def i)
qed

lemma store_ok:
  assumes "ready c p d fmt" and "wrote p full" and "poffset p + i = length full"
    and "length full + length bs \<le> length (block_of p)"
  shows "\<exists>p'. store i bs p = POk p' \<and> ready c p' d fmt \<and> wrote p' (full @ bs)
    \<and> poffset p' = poffset p \<and> plength p' = plength p \<and> length (block_of p') = length (block_of p)"
proof -
  obtain blk where blk: "pblock p = Some blk" using assms(1) by (auto simp: ready_def)
  define p' where "p' = p\<lparr>pblock := Some (write_at (length full) bs blk)\<rparr>"
  have len: "length full + length bs \<le> length blk" using assms(4) blk by (simp add: block_of_def)
  note w = write_at_props[OF len]
  have "store i bs p = POk p'"
    using blk len assms(3) by (simp add: store_def p'_def)
  moreover have "wrote p' (full @ bs)"
    using w assms(2) blk by (simp add: wrote_def p'_def block_of_def)
  moreover have "ready c p' d fmt" and "length (block_of p') = length (block_of p)"
    using assms(1) w blk by (auto simp: ready_def p'_def block_of_def)
  ultimately show ?thesis by (auto simp: p'_def)
qed

lemma pthen_POk [simp]: "pthen (POk p) k = k p"
  by (simp add: pthen_def)

text \<open>A piece that ends in a NUL leaves the buffer pending; one that is followed by an advance
  leaves it holding the longer text.\<close>

lemma emit_raw:
  assumes "holds c p txt d fmt" and "c = None \<or> needed + length txt + 1 \<le> the c"
    and "length bs \<le> needed + 1"
  shows "yields c (emit needed bs p) (\<lambda>p'. ready c p' d fmt \<and> wrote p' (txt @ bs)
    \<and> poffset p' = length txt \<and> plength p' = length (block_of p')
    \<and> length txt + needed + 1 \<le> length (block_of p'))"
  unfolding emit_def
proof (rule chain[OF ensure_ok[OF assms(1,2)]])
  fix p1 assume p1: "holds c p1 txt d fmt
    \<and> length txt + needed + 1 \<le> length (block_of p1) \<and> plength p1 = length (block_of p1)"
  then have r: "ready c p1 d fmt" "wrote p1 txt" "poffset p1 = length txt" by (auto simp: holds_def)
  from store_ok[OF r(1,2), of 0 bs] r(3) p1 assms(3)
  show "yields c (store 0 bs p1) (\<lambda>p'. ready c p' d fmt \<and> wrote p' (txt @ bs)
    \<and> poffset p' = length txt \<and> plength p' = length (block_of p')
    \<and> length txt + needed + 1 \<le> length (block_of p'))" by (auto simp: yields_def)
qed

lemma wrote_prefix:
  assumes "wrote p (txt @ bs)"
  shows "wrote p txt"
proof -
  from assms have "take (length txt) (take (length txt + length bs) (block_of p)) = take (length txt) (map Some (txt @ bs))"
    by (simp add: wrote_def)
  then show ?thesis by (simp add: wrote_def min_def)
qed

lemma emit_pending:
  assumes "holds c p txt d fmt" and "c = None \<or> needed + length txt + 1 \<le> the c"
    and "length new \<le> needed" and "nul_free new"
  shows "yields c (emit needed (new @ [NUL]) p) (\<lambda>p'. pending c p' (txt @ new) d fmt)"
  by (rule yields_mono[OF emit_raw[OF assms(1,2)]]) (use assms in \<open>auto simp: pending_def holds_def\<close>)

lemma emit_advance_holds:
  assumes "holds c p txt d fmt" and "c = None \<or> needed + length txt + 1 \<le> the c"
    and "length new \<le> needed" and "nul_free new" and "bs = new \<or> bs = new @ [NUL]"
    and "n = length new"
  shows "yields c (emit_advance needed bs n p) (\<lambda>p'. holds c p' (txt @ new) d fmt)"
  unfolding emit_advance_def
proof (rule chain[OF emit_raw[OF assms(1,2)]])
  show "length bs \<le> needed + 1" using assms(3,5) by auto
  fix p' assume p': "ready c p' d fmt \<and> wrote p' (txt @ bs) \<and> poffset p' = length txt
    \<and> plength p' = length (block_of p') \<and> length txt + needed + 1 \<le> length (block_of p')"
  have "wrote p' (txt @ new)"
    using p' assms(5) wrote_prefix[of p' "txt @ new" "[NUL]"] by auto
  then show "yields c (POk (advance n p')) (\<lambda>p'. holds c p' (txt @ new) d fmt)"
    using p' assms(1,3,4,6)
    by (auto simp: holds_def ready_def advance_def wrote_def block_of_def)
qed

lemma strlen_mem_text: "nul_free s \<Longrightarrow> strlen_mem (map Some s @ Some NUL # rest) = Some (length s)"
  by (induction s) auto

lemma update_offset_ok:
  assumes "pending c p txt d fmt"
  shows "\<exists>p'. update_offset p = POk p' \<and> holds c p' txt d fmt"
proof -
  obtain blk where blk: "pblock p = Some blk" using assms by (auto simp: pending_def ready_def)
  let ?i = "poffset p"
  have w: "take (length txt + 1) blk = map Some (txt @ [NUL])" and i: "?i \<le> length txt" "nul_free txt"
    using assms blk by (auto simp: pending_def wrote_def block_of_def)
  have len: "length txt < length blk"
    using arg_cong[OF w, of length] by (simp add: min_def split: if_splits)
  have "blk = map Some (txt @ [NUL]) @ drop (length txt + 1) blk"
    unfolding w[symmetric] by (rule append_take_drop_id[symmetric])
  then have "drop ?i blk = drop ?i (map Some (txt @ [NUL]) @ drop (length txt + 1) blk)" by simp
  also have "\<dots> = map Some (drop ?i txt) @ Some NUL # drop (length txt + 1) blk"
    using i by (simp add: drop_map)
  finally have dr: "drop ?i blk = map Some (drop ?i txt) @ Some NUL # drop (length txt + 1) blk" .
  have "strlen_mem (drop ?i blk) = Some (length txt - ?i)"
    unfolding dr by (subst strlen_mem_text) (simp_all add: nul_free_drop i)
  then have "update_offset p = POk (advance (length txt - ?i) p)"
    using blk by (simp add: update_offset_def)
  moreover have "holds c (advance (length txt - ?i) p) txt d fmt"
    using assms i len blk wrote_prefix[of p "txt" "[NUL]"]
    by (auto simp: holds_def pending_def ready_def advance_def wrote_def block_of_def)
  ultimately show ?thesis by blast
qed

section \<open>Numbers and strings\<close>

lemma pthen_assoc: "pthen (pthen r f) g = pthen r (\<lambda>p. pthen (f p) g)"
  by (cases r) (simp_all add: pthen_def)

lemma print_number_ok:
  assumes "holds c p txt d fmt" and "length (number_text vd) \<le> 25" and "nul_free (number_text vd)"
    and "c = None \<or> length txt + length (number_text vd) + 1 \<le> the c"
  shows "yields c (print_number (CJSON t vs vi vd k ch) p) (\<lambda>p'. pending c p' (txt @ number_text vd) d fmt)"
proof -
  let ?s = "number_text vd"
  have room: "c = None \<or> length ?s + length txt + 1 \<le> the c" "length (?s @ [NUL]) \<le> length ?s + 1"
    using assms(4) by auto
  have "yields c (pthen (emit (length ?s) (?s @ [NUL]) p) (\<lambda>p'. POk (advance (length ?s) p')))
      (\<lambda>p'. pending c p' (txt @ ?s) d fmt)"
    by (rule chain[OF emit_raw[OF assms(1) room]])
      (use assms(1,3) in \<open>auto simp: pending_def holds_def ready_def advance_def wrote_def block_of_def\<close>)
  then show ?thesis using assms(2) by (simp add: print_number_def emit_def pthen_assoc Let_def)
qed

lemma length_u04x [simp]: "length (u04x n) = 5"
  by (simp add: u04x_def)

lemma length_escape: "length (concat (map escape_char s)) = length s + escape_characters s"
proof (induction s)
  case (Cons c s)
  have "short_escape QUOTE \<noteq> None" "short_escape BSLASH \<noteq> None" by (simp_all add: short_escape_def)
  moreover have "short_escape c = None" if "31 < code c" "c \<noteq> QUOTE" "c \<noteq> BSLASH"
    using that by (auto simp: short_escape_def)
  ultimately show ?case using Cons by (auto simp: escape_char_def split: option.splits)
qed simp

lemma escape_nothing: "escape_characters s = 0 \<Longrightarrow> concat (map escape_char s) = s"
proof (induction s)
  case (Cons c s)
  have "short_escape QUOTE \<noteq> None" "short_escape BSLASH \<noteq> None" by (simp_all add: short_escape_def)
  then show ?case using Cons by (auto simp: escape_char_def split: if_splits)
qed simp

lemma hex_digit_not_NUL [simp]: "n < 16 \<Longrightarrow> hex_digit n \<noteq> NUL"
proof
  assume n: "n < 16" and "hex_digit n = NUL"
  then have "code (hex_digit n) = 0" by simp
  with n show False by (auto simp: hex_digit_def split: if_splits)
qed

lemma nul_free_escape: "nul_free s \<Longrightarrow> nul_free (concat (map escape_char s))"
proof (induction s)
  case (Cons c s)
  have "nul_free (escape_char c)" if "c \<noteq> NUL"
    using that by (auto simp: escape_char_def short_escape_def u04x_def split: if_splits)
  then show ?case using Cons by simp
qed simp

lemma write_escaped_ok:
  assumes "ready c p d fmt" and "wrote p full" and "poffset p + i = length full"
    and "length full + length (concat (map escape_char s)) + 1 \<le> length (block_of p)"
  shows "\<exists>p'. write_escaped s i p = POk p' \<and> ready c p' d fmt
    \<and> wrote p' (full @ concat (map escape_char s)) \<and> poffset p' = poffset p
    \<and> plength p' = plength p \<and> length (block_of p') = length (block_of p)"
  using assms
proof (induction s arbitrary: i p full)
  case (Cons x s)
  obtain e b where e: "e = escape_char x"
    "write_escaped (x # s) i p = pthen (store i (e @ b) p) (write_escaped s (i + length e))"
    "length b \<le> 1"
    by (cases "short_escape x"; cases "31 < code x \<and> x \<noteq> QUOTE \<and> x \<noteq> BSLASH")
      (auto simp: escape_char_def intro: that[of _ "[]"] that[of _ "[NUL]"])
  have "length full + length (e @ b) \<le> length (block_of p)"
    using Cons.prems(4) e(1,3) by simp
  from store_ok[OF Cons.prems(1-3) this]
  obtain p1 where p1: "store i (e @ b) p = POk p1" "ready c p1 d fmt" "wrote p1 ((full @ e) @ b)"
    "poffset p1 = poffset p" "plength p1 = plength p" "length (block_of p1) = length (block_of p)"
    by auto
  have "\<exists>p'. write_escaped s (i + length e) p1 = POk p' \<and> ready c p' d fmt
    \<and> wrote p' ((full @ e) @ concat (map escape_char s)) \<and> poffset p' = poffset p1
    \<and> plength p' = plength p1 \<and> length (block_of p') = length (block_of p1)"
    by (rule Cons.IH) (use p1 wrote_prefix[OF p1(3)] Cons.prems(3,4) e(1) in auto)
  then show ?case using p1 e by auto
qed auto

text \<open>The stores of \<open>print_string_ptr\<close> into the room that \<open>ensure\<close> has made.\<close>

definition write_string :: "bytes \<Rightarrow> printbuffer \<Rightarrow> print_outcome" where
  "write_string t p = (if escape_characters t = 0 then store 0 (QUOTE # t) p
     else pthen (store 0 [QUOTE] p) (write_escaped t 1))"

lemma print_string_ptr_eq:
  "print_string_ptr (Some t) p = pthen (ensure (length t + escape_characters t + 3) p) (\<lambda>p1.
     pthen (write_string t p1) (store (length t + escape_characters t + 1) [QUOTE, NUL]))"
  by (auto simp: print_string_ptr_def write_string_def Let_def pthen_assoc intro!: arg_cong[where f = "pthen _"])

lemma write_string_ok:
  assumes r: "ready c p d fmt" "wrote p txt" "poffset p = length txt"
    and room: "length txt + length (concat (map escape_char t)) + 2 \<le> length (block_of p)"
  shows "\<exists>p'. write_string t p = POk p' \<and> ready c p' d fmt \<and> wrote p' (txt @ QUOTE # concat (map escape_char t))
    \<and> poffset p' = poffset p \<and> plength p' = plength p \<and> length (block_of p') = length (block_of p)"
proof (cases "escape_characters t = 0")
  case True
  then show ?thesis using store_ok[OF r(1,2), of 0 "QUOTE # t"] r(3) room
    by (auto simp: write_string_def escape_nothing)
next
  case False
  from store_ok[OF r(1,2), of 0 "[QUOTE]"] r(3) room
  obtain p' where p': "store 0 [QUOTE] p = POk p'" "ready c p' d fmt" "wrote p' (txt @ [QUOTE])"
    "poffset p' = poffset p" "plength p' = plength p" "length (block_of p') = length (block_of p)" by auto
  have "\<exists>p2. write_escaped t 1 p' = POk p2 \<and> ready c p2 d fmt \<and> wrote p2 ((txt @ [QUOTE]) @ concat (map escape_char t))
    \<and> poffset p2 = poffset p' \<and> plength p2 = plength p' \<and> length (block_of p2) = length (block_of p')"
    by (rule write_escaped_ok) (use p' r room in auto)
  then show ?thesis using p' False by (auto simp: write_string_def)
qed

lemma print_string_ok:
  assumes h: "holds c p txt d fmt" and s: "c_string_opt s"
    and room: "c = None \<or> length txt + length (render_string s) + 2 \<le> the c"
  shows "yields c (print_string_ptr s p) (\<lambda>p'. pending c p' (txt @ render_string s) d fmt)"
proof (cases s)
  case None
  then show ?thesis
    using emit_pending[OF h, of 3 "[QUOTE, QUOTE]"] room
    by (auto simp: print_string_ptr_def render_string_def emit_def)
next
  case (Some t)
  let ?e = "concat (map escape_char t)"
  define n where "n = length t + escape_characters t"
  have n: "length ?e = n" by (simp add: length_escape n_def)
  have nf: "nul_free (QUOTE # ?e @ [QUOTE])" using s Some nul_free_escape by (simp add: c_string_opt_def)
  have "c = None \<or> n + 3 + length txt + 1 \<le> the c" using room Some n by (auto simp: render_string_def)
  from ensure_ok[OF h this]
  have "yields c (pthen (ensure (n + 3) p) (\<lambda>p1. pthen (write_string t p1) (store (n + 1) [QUOTE, NUL])))
      (\<lambda>p'. pending c p' (txt @ render_string s) d fmt)"
  proof (rule chain)
    fix p1 assume p1: "holds c p1 txt d fmt \<and> length txt + (n + 3) + 1 \<le> length (block_of p1) \<and> plength p1 = length (block_of p1)"
    then have "ready c p1 d fmt" "wrote p1 txt" "poffset p1 = length txt" by (auto simp: holds_def)
    from write_string_ok[OF this, of t] p1 n obtain p2 where p2: "write_string t p1 = POk p2"
      "ready c p2 d fmt" "wrote p2 (txt @ QUOTE # ?e)" "poffset p2 = length txt"
      "plength p2 = plength p1" "length (block_of p2) = length (block_of p1)" by (auto simp: holds_def)
    from store_ok[OF p2(2,3), of "n + 1" "[QUOTE, NUL]"] p2 p1 n
    obtain p3 where "store (n + 1) [QUOTE, NUL] p2 = POk p3" "ready c p3 d fmt"
      "wrote p3 ((txt @ QUOTE # ?e) @ [QUOTE, NUL])" "poffset p3 = poffset p2" "plength p3 = plength p2"
      "length (block_of p3) = length (block_of p2)" by auto
    then show "yields c (pthen (write_string t p1) (store (n + 1) [QUOTE, NUL])) (\<lambda>p'. pending c p' (txt @ render_string s) d fmt)"
      using p2 p1 Some nf h by (auto simp: pending_def render_string_def holds_def)
  qed
  then show ?thesis unfolding Some print_string_ptr_eq n_def .
qed

section \<open>Values\<close>

lemma holds_deeper: "holds c p tx d fmt \<Longrightarrow> holds c (deeper p) tx (d + 1) fmt"
  by (auto simp: holds_def ready_def deeper_def wrote_def block_of_def)

lemma pending_shallower: "pending c p tx (d + 1) fmt \<Longrightarrow> pending c (shallower p) tx d fmt"
  by (auto simp: pending_def ready_def shallower_def wrote_def block_of_def)

lemma holds_fields: "holds c p tx d fmt \<Longrightarrow> format p = fmt" "holds c p tx d fmt \<Longrightarrow> pdepth p = d"
  by (simp_all add: holds_def ready_def)

lemma nul_free_tabs [simp]: "nul_free (tabs n)" and length_tabs [simp]: "length (tabs n) = n"
  by (simp_all add: tabs_def nul_free_def)

definition fits :: "nat option \<Rightarrow> bytes \<Rightarrow> bytes \<Rightarrow> bool" where
  "fits c tx new \<longleftrightarrow> c = None \<or> length tx + length new + 2 \<le> the c"

lemma fits_append: "fits c tx (a @ b) \<Longrightarrow> fits c tx a" "fits c tx (a @ b) \<longleftrightarrow> fits c (tx @ a) b"
  by (auto simp: fits_def)

lemma print_value_ok:
  shows "\<And>tx d fmt. printable i \<Longrightarrow> holds c p tx d fmt \<Longrightarrow> fits c tx (render fmt d i)
      \<Longrightarrow> yields c (print_value i p) (\<lambda>p'. pending c p' (tx @ render fmt d i) d fmt)"
    and "\<And>tx d fmt. \<forall>i \<in> set ch. printable i \<Longrightarrow> holds c p tx d fmt
      \<Longrightarrow> fits c tx (''['' @ render_elements fmt (d + 1) ch @ '']'')
      \<Longrightarrow> yields c (print_array ch p) (\<lambda>p'. pending c p' (tx @ ''['' @ render_elements fmt (d + 1) ch @ '']'') d fmt)"
    and "\<And>tx d fmt. \<forall>i \<in> set ch. printable i \<Longrightarrow> holds c p tx d fmt \<Longrightarrow> fits c tx (render_elements fmt d ch)
      \<Longrightarrow> yields c (print_elements ch p) (\<lambda>p'. holds c p' (tx @ render_elements fmt d ch) d fmt)"
    and "\<And>tx d fmt. \<forall>i \<in> set ch. printable i \<Longrightarrow> holds c p tx d fmt
      \<Longrightarrow> fits c tx ((if fmt then [CHR ''{'', CHR 0x0A] else ''{'') @ render_members fmt (d + 1) ch
        @ (if fmt then tabs d else []) @ ''}'')
      \<Longrightarrow> yields c (print_object ch p)
      (\<lambda>p'. pending c p' (tx @ (if fmt then [CHR ''{'', CHR 0x0A] else ''{'')
        @ render_members fmt (d + 1) ch @ (if fmt then tabs d else []) @ ''}'') d fmt)"
    and "\<And>tx d fmt. \<forall>i \<in> set ch. printable i \<Longrightarrow> holds c p tx d fmt \<Longrightarrow> fits c tx (render_members fmt d ch)
      \<Longrightarrow> yields c (print_members ch p) (\<lambda>p'. holds c p' (tx @ render_members fmt d ch) d fmt)"
proof (induction i p and ch p and ch p and ch p and ch p
    rule: print_value_print_array_print_elements_print_object_print_members.induct)
  case (1 t vs vi vd k ch p)
  let ?ty = "t AND 255"
  have lit: "yields c (emit n (s @ [NUL]) p) (\<lambda>p'. pending c p' (tx @ s) d fmt)"
    if "fits c tx s" "nul_free s" "n = length s + 1" for s n
    using emit_pending[OF "1.prems"(2), of "length s + 1" s] that by (auto simp: fits_def)
  consider "?ty = 4" | "?ty = 1" | "?ty = 2" | "?ty = 8" | "?ty = 128" | "?ty = 16" | "?ty = 32" | "?ty = 64"
    using "1.prems"(1) by (auto simp: Let_def split: if_splits)
  then show ?case
  proof cases
    case 1
    then show ?thesis using lit[of "''null''" 5] "1.prems" by simp
  next
    case 2
    then show ?thesis using lit[of "''false''" 6] "1.prems" by simp
  next
    case 3
    then show ?thesis using lit[of "''true''" 5] "1.prems" by simp
  next
    case 4
    then show ?thesis using print_number_ok[OF "1.prems"(2)] "1.prems" by (auto simp: fits_def)
  next
    case 5
    then obtain raw where "vs = Some raw" "nul_free raw"
      using "1.prems"(1) by (auto simp: c_string_opt_def)
    then show ?thesis using lit[of raw "length raw + 1"] 5 "1.prems" by simp
  next
    case 6
    then show ?thesis using print_string_ok[OF "1.prems"(2)] "1.prems" by (auto simp: fits_def)
  next
    case 7
    then show ?thesis using "1.IH"(1)[where tx = tx and d = d and fmt = fmt] "1.prems" by simp
  next
    case 8
    then show ?thesis using "1.IH"(2)[where tx = tx and d = d and fmt = fmt] "1.prems" by simp
  qed
next
  case (2 ch p)
  show ?case unfolding print_array.simps
  proof (rule chain)
    show "yields c (emit_advance 1 ''['' 1 p) (\<lambda>p1. holds c p1 (tx @ ''['') d fmt)"
      using "2.prems"(3) by (intro emit_advance_holds[OF "2.prems"(2)]) (auto simp: fits_def)
    fix p1 assume p1: "holds c p1 (tx @ ''['') d fmt"
    let ?t = "tx @ ''['' @ render_elements fmt (d + 1) ch"
    show "yields c (pthen (print_elements ch (deeper p1)) (\<lambda>p2. pthen (emit 2 ('']'' @ [NUL]) p2)
        (\<lambda>p3. POk (shallower p3))))
      (\<lambda>p'. pending c p' (tx @ ''['' @ render_elements fmt (d + 1) ch @ '']'') d fmt)"
    proof (rule chain)
      show "yields c (print_elements ch (deeper p1)) (\<lambda>p2. holds c p2 ?t (d + 1) fmt)"
        using "2.IH"[OF "2.prems"(1) holds_deeper[OF p1]] "2.prems"(3) by (auto simp: fits_def)
      fix p2 assume p2: "holds c p2 ?t (d + 1) fmt"
      have "yields c (emit 2 ('']'' @ [NUL]) p2) (\<lambda>p3. pending c p3 (?t @ '']'') (d + 1) fmt)"
        using "2.prems"(3) by (intro emit_pending[OF p2]) (auto simp: fits_def)
      then show "yields c (pthen (emit 2 ('']'' @ [NUL]) p2) (\<lambda>p3. POk (shallower p3)))
      (\<lambda>p'. pending c p' (tx @ ''['' @ render_elements fmt (d + 1) ch @ '']'') d fmt)"
        by (rule chain) (use pending_shallower in fastforce)
    qed
  qed
next
  case (3 p)
  then show ?case by auto
next
  case (4 i "is" p)
  have i: "printable i" "\<forall>j \<in> set is. printable j" using "4.prems"(1) by auto
  let ?i = "render fmt d i" and ?sep = "if is = [] then [] else if fmt then '', '' else '',''"
  have room: "fits c tx ?i" "fits c (tx @ ?i) ?sep" "fits c (tx @ ?i @ ?sep) (render_elements fmt d is)"
    using "4.prems"(3) by (auto simp: fits_def)
  show ?case unfolding print_elements.simps
  proof (rule chain[OF "4.IH"(1)[OF i(1) "4.prems"(2) room(1)]], rule chain_ok[OF update_offset_ok])
    fix p2 assume p2: "holds c p2 (tx @ ?i) d fmt"
    show "yields c (pthen (if is = [] then POk p2 else if format p2 then emit_advance 3 ('', '' @ [NUL]) 2 p2
        else emit_advance 2 ('','' @ [NUL]) 1 p2) (print_elements is))
      (\<lambda>p'. holds c p' (tx @ render_elements fmt d (i # is)) d fmt)"
    proof (rule chain)
      show "yields c ((if is = [] then POk p2 else if format p2 then emit_advance 3 ('', '' @ [NUL]) 2 p2
        else emit_advance 2 ('','' @ [NUL]) 1 p2))
      (\<lambda>p3. holds c p3 ((tx @ ?i) @ ?sep) d fmt)"
      proof (cases "is = []")
        case True
        then show ?thesis using p2 by simp
      next
        case False
        have "yields c (emit_advance 3 ('', '' @ [NUL]) 2 p2) (\<lambda>p3. holds c p3 ((tx @ ?i) @ '', '') d fmt)" if fmt
          using room(2) False that by (intro emit_advance_holds[OF p2]) (auto simp: fits_def)
        moreover have "yields c (emit_advance 2 ('','' @ [NUL]) 1 p2) (\<lambda>p3. holds c p3 ((tx @ ?i) @ '','') d fmt)" if "\<not> fmt"
          using room(2) False that by (intro emit_advance_holds[OF p2]) (auto simp: fits_def)
        ultimately show ?thesis using False holds_fields(1)[OF p2] by auto
      qed
      fix p3 assume "holds c p3 ((tx @ ?i) @ ?sep) d fmt"
      then show "yields c (print_elements is p3) (\<lambda>p'. holds c p' (tx @ render_elements fmt d (i # is)) d fmt)"
        using "4.IH"(2)[OF i(2), where tx = "tx @ ?i @ ?sep" and d = d and fmt = fmt] room(3) by simp
    qed
  qed
next
  case (5 ch p)
  let ?o = "if fmt then [CHR ''{'', CHR 0x0A] else ''{''"
  let ?m = "render_members fmt (d + 1) ch" and ?t = "if fmt then tabs d else []"
  note h = "5.prems"(2) and room = "5.prems"(3)
  show ?case unfolding print_object.simps
  proof (rule chain)
    have "yields c (emit_advance 3 [CHR ''{'', CHR 0x0A] 2 p) (\<lambda>p1. holds c p1 (tx @ [CHR ''{'', CHR 0x0A]) d fmt)" if fmt
      using room that by (intro emit_advance_holds[OF h]) (auto simp: fits_def)
    moreover have "yields c (emit_advance 2 ''{'' 1 p) (\<lambda>p1. holds c p1 (tx @ ''{'') d fmt)" if "\<not> fmt"
      using room that by (intro emit_advance_holds[OF h]) (auto simp: fits_def)
    ultimately show "yields c ((if format p then emit_advance 3 [CHR ''{'', CHR 0x0A] 2 p
        else emit_advance 2 ''{'' 1 p))
      (\<lambda>p1. holds c p1 (tx @ ?o) d fmt)"
      using holds_fields(1)[OF h] by auto
    fix p1 assume p1: "holds c p1 (tx @ ?o) d fmt"
    show "yields c (pthen (print_members ch (deeper p1)) (\<lambda>p2.
        pthen (if format p2 then emit (pdepth p2 + 1) (tabs (pdepth p2 - 1) @ ''}'' @ [NUL]) p2
            else emit 2 (''}'' @ [NUL]) p2) (\<lambda>p3. POk (shallower p3))))
      (\<lambda>p'. pending c p' (tx @ ?o @ ?m @ ?t @ ''}'') d fmt)"
    proof (rule chain)
      show "yields c (print_members ch (deeper p1)) (\<lambda>p2. holds c p2 ((tx @ ?o) @ ?m) (d + 1) fmt)"
        using "5.IH"[OF "5.prems"(1) holds_deeper[OF p1]] room by (auto simp: fits_def)
      fix p2 assume p2: "holds c p2 ((tx @ ?o) @ ?m) (d + 1) fmt"
      have "yields c (emit (d + 1 + 1) ((tabs d @ ''}'') @ [NUL]) p2)
      (\<lambda>p3. pending c p3 (((tx @ ?o) @ ?m) @ tabs d @ ''}'') (d + 1) fmt)" if fmt
        using room that by (intro emit_pending[OF p2]) (auto simp: fits_def)
      moreover have "yields c (emit 2 (''}'' @ [NUL]) p2) (\<lambda>p3. pending c p3 (((tx @ ?o) @ ?m) @ ''}'') (d + 1) fmt)" if "\<not> fmt"
        using room that by (intro emit_pending[OF p2]) (auto simp: fits_def)
      ultimately have "yields c ((if format p2 then emit (pdepth p2 + 1) (tabs (pdepth p2 - 1) @ ''}'' @ [NUL]) p2
            else emit 2 (''}'' @ [NUL]) p2))
      (\<lambda>p3. pending c p3 (tx @ ?o @ ?m @ ?t @ ''}'') (d + 1) fmt)"
        using holds_fields[OF p2] by auto
      then show "yields c (pthen (if format p2 then emit (pdepth p2 + 1) (tabs (pdepth p2 - 1) @ ''}'' @ [NUL]) p2
            else emit 2 (''}'' @ [NUL]) p2) (\<lambda>p3. POk (shallower p3)))
      (\<lambda>p'. pending c p' (tx @ ?o @ ?m @ ?t @ ''}'') d fmt)"
        by (rule chain) (use pending_shallower in fastforce)
    qed
  qed
next
  case (6 p)
  then show ?case by auto
next
  case (7 i "is" p)
  have i: "printable i" "c_string_opt (ckey i)" "\<forall>j \<in> set is. printable j"
    using "7.prems"(1) by (cases i; auto simp: Let_def)+
  let ?t = "if fmt then tabs d else []" and ?k = "render_string (ckey i)"
  let ?c = "if fmt then [CHR '':'', CHR 0x09] else '':''" and ?i = "render fmt d i"
  define sep where "sep = (if is \<noteq> [] then '','' else []) @ (if fmt then [CHR 0x0A] else [])"
  have nf: "nul_free sep" by (simp add: sep_def)
  have room: "fits c tx ?t" "fits c (tx @ ?t) ?k" "fits c (tx @ ?t @ ?k) ?c" "fits c (tx @ ?t @ ?k @ ?c) ?i"
    "fits c (tx @ ?t @ ?k @ ?c @ ?i) sep" "fits c (tx @ ?t @ ?k @ ?c @ ?i @ sep) (render_members fmt d is)"
    using "7.prems"(3) by (auto simp: fits_def sep_def)
  note h = "7.prems"(2)
  show ?case unfolding print_members.simps
  proof (rule chain)
    have "yields c (emit_advance d (tabs d) d p) (\<lambda>p1. holds c p1 (tx @ tabs d) d fmt)" if fmt
      using room(1) that by (intro emit_advance_holds[OF h]) (auto simp: fits_def)
    then show "yields c ((if format p then emit_advance (pdepth p) (tabs (pdepth p)) (pdepth p) p else POk p))
      (\<lambda>p1. holds c p1 (tx @ ?t) d fmt)"
      using holds_fields[OF h] h by auto
    fix p1 assume p1: "holds c p1 (tx @ ?t) d fmt"
    have k: "yields c (print_string_ptr (ckey i) p1) (\<lambda>p2. pending c p2 ((tx @ ?t) @ ?k) d fmt)"
      using room(2) by (intro print_string_ok[OF p1 i(2)]) (auto simp: fits_def)
    show "yields c (pthen (print_string_ptr (ckey i) p1) (\<lambda>p2. pthen (update_offset p2) (\<lambda>p3.
        pthen (if format p3 then emit_advance 2 [CHR '':'', CHR 0x09] 2 p3 else emit_advance 1 '':'' 1 p3) (\<lambda>p4.
        pthen (print_value i p4) (\<lambda>p5. pthen (update_offset p5) (\<lambda>p6.
        pthen (let sep = (if is \<noteq> [] then '','' else []) @ (if format p6 then [CHR 0x0A] else [])
            in emit_advance (length sep + 1) (sep @ [NUL]) (length sep) p6) (\<lambda>p7.
        print_members is p7)))))))
      (\<lambda>p'. holds c p' (tx @ render_members fmt d (i # is)) d fmt)"
    proof (rule chain[OF k], rule chain_ok[OF update_offset_ok], assumption, rule chain)
      fix p3 assume p3: "holds c p3 ((tx @ ?t) @ ?k) d fmt"
      have "yields c (emit_advance 2 [CHR '':'', CHR 0x09] 2 p3) (\<lambda>p4. holds c p4 (((tx @ ?t) @ ?k) @ [CHR '':'', CHR 0x09]) d fmt)" if fmt
        using room(3) that by (intro emit_advance_holds[OF p3]) (auto simp: fits_def)
      moreover have "yields c (emit_advance 1 '':'' 1 p3) (\<lambda>p4. holds c p4 (((tx @ ?t) @ ?k) @ '':'') d fmt)" if "\<not> fmt"
        using room(3) that by (intro emit_advance_holds[OF p3]) (auto simp: fits_def)
      ultimately show "yields c ((if format p3 then emit_advance 2 [CHR '':'', CHR 0x09] 2 p3
          else emit_advance 1 '':'' 1 p3))
      (\<lambda>p4. holds c p4 (tx @ ?t @ ?k @ ?c) d fmt)"
        using holds_fields[OF p3] by auto
      fix p4 assume p4: "holds c p4 (tx @ ?t @ ?k @ ?c) d fmt"
      show "yields c (pthen (print_value i p4) (\<lambda>p5. pthen (update_offset p5) (\<lambda>p6.
        pthen (let sep = (if is \<noteq> [] then '','' else []) @ (if format p6 then [CHR 0x0A] else [])
            in emit_advance (length sep + 1) (sep @ [NUL]) (length sep) p6) (\<lambda>p7.
        print_members is p7))))
      (\<lambda>p'. holds c p' (tx @ render_members fmt d (i # is)) d fmt)"
      proof (rule chain[OF "7.IH"(1)[OF i(1) p4 room(4)]], rule chain_ok[OF update_offset_ok], assumption, rule chain)
        fix p6 assume p6: "holds c p6 ((tx @ ?t @ ?k @ ?c) @ ?i) d fmt"
        have "yields c (emit_advance (length sep + 1) (sep @ [NUL]) (length sep) p6)
      (\<lambda>p7. holds c p7 (((tx @ ?t @ ?k @ ?c) @ ?i) @ sep) d fmt)"
          using room(5) nf by (intro emit_advance_holds[OF p6]) (auto simp: fits_def)
        then show "yields c ((let sep = (if is \<noteq> [] then '','' else []) @ (if format p6 then [CHR 0x0A] else [])
            in emit_advance (length sep + 1) (sep @ [NUL]) (length sep) p6))
      (\<lambda>p7. holds c p7 (tx @ ?t @ ?k @ ?c @ ?i @ sep) d fmt)"
          using holds_fields[OF p6] by (simp add: sep_def Let_def)
        fix p7 assume "holds c p7 (tx @ ?t @ ?k @ ?c @ ?i @ sep) d fmt"
        then show "yields c (print_members is p7) (\<lambda>p'. holds c p' (tx @ render_members fmt d (i # is)) d fmt)"
          using "7.IH"(2)[OF i(3) _ room(6)] by (simp add: sep_def)
      qed
    qed
  qed
qed

section \<open>The entry points\<close>

lemma update_offset_block:
  "update_offset p = POk p' \<Longrightarrow> block_of p' = block_of p \<and> plength p' = plength p \<and> phooks p' = phooks p"
  by (auto simp: update_offset_def advance_def block_of_def split: option.splits)

lemma update_offset_done:
  assumes "pending c p tx d fmt"
  shows "\<exists>p'. update_offset p = POk p' \<and> holds c p' tx d fmt \<and> wrote p' (tx @ [NUL])
    \<and> plength p' = length (block_of p')"
  using update_offset_ok[OF assms] assms update_offset_block[of p]
  by (fastforce simp: pending_def wrote_def)

lemma block_c_str_text: "nul_free s \<Longrightarrow> block_c_str (map Some s @ Some NUL # rest) = Some s"
  by (induction s) auto

lemma wrote_split:
  assumes "wrote p (tx @ [NUL])"
  shows "block_of p = map Some tx @ Some NUL # drop (length tx + 1) (block_of p)"
  using assms append_take_drop_id[of "length tx + 1" "block_of p"] by (simp add: wrote_def)

lemma print_finish_ok:
  assumes "holds c p tx d fmt" and "wrote p (tx @ [NUL])" and "plength p = length (block_of p)"
  shows "print_finish p = (if fst (alloc (phooks p)) then Printed tx else PrintNull)"
proof -
  obtain blk where blk: "pblock p = Some blk" "block_of p = blk"
    using assms(1) by (auto simp: holds_def ready_def block_of_def)
  have h: "\<not> dangling p" "poffset p = length tx" "length tx < length blk" "plength p = length blk" "nul_free tx"
    using assms blk by (auto simp: holds_def ready_def)
  have b: "blk = map Some tx @ Some NUL # drop (length tx + 1) blk"
    using wrote_split[OF assms(2)] blk by simp
  have c: "c_str_result (map Some tx @ Some NUL # rest) = Printed tx" for rest
    using h(5) by (simp add: c_str_result_def block_c_str_text)
  have t: "take (length tx + 1) blk = map Some tx @ [Some NUL]"
    by (subst b) simp
  show ?thesis
  proof (cases "has_realloc p")
    case True
    then have "print_finish p = (if fst (alloc (phooks p)) then c_str_result blk else PrintNull)"
      using blk h by (simp add: print_finish_def)
    then show ?thesis using b c by metis
  next
    case False
    have "min (length blk) (length tx + 1) = length tx + 1" using h(3) by simp
    then have "print_finish p = (if fst (alloc (phooks p)) then c_str_result ((map Some tx @ [Some NUL])[length tx := Some NUL])
        else PrintNull)"
      using blk h t False by (simp add: print_finish_def print_fail_def)
    also have "(map Some tx @ [Some NUL])[length tx := Some NUL] = map Some tx @ Some NUL # []"
      by (simp add: list_update_append)
    finally show ?thesis using c by simp
  qed
qed

text \<open>From a buffer that holds nothing yet.\<close>

definition fresh_buffer :: "char option list \<Rightarrow> nat \<Rightarrow> bool \<Rightarrow> bool \<Rightarrow> mem \<Rightarrow> bool \<Rightarrow> printbuffer" where
  "fresh_buffer blk len na fmt m realloc = \<lparr>pblock = Some blk, plength = len, poffset = 0, pdepth = 0,
     noalloc = na, format = fmt, phooks = m, has_realloc = realloc, dangling = False\<rparr>"

lemma print_fresh:
  assumes "printable i" and "blk \<noteq> []" and "len = 0 \<or> len = length blk"
    and "c = None \<or> length (render fmt 0 i) + 2 \<le> the c" and "c = None \<or> the c \<le> 2147483647 \<and> m = [] \<and> (na \<longrightarrow> the c \<le> len)"
  shows "yields c (print_value i (fresh_buffer blk len na fmt m realloc)) (\<lambda>p. pending c p (render fmt 0 i) 0 fmt)"
proof -
  have "holds c (fresh_buffer blk len na fmt m realloc) [] 0 fmt"
    using assms(2,3,5) by (auto simp: holds_def ready_def wrote_def block_of_def fresh_buffer_def)
  from print_value_ok(1)[OF assms(1) this] show ?thesis using assms(4) by (simp add: fits_def)
qed

lemma print_total:
  assumes "printable i" and "c = None \<or> length (render fmt 0 i) + 2 \<le> the c" and "c = None \<or> the c \<le> 2147483647 \<and> m = []"
  shows "print (Some i) fmt realloc m = Printed (render fmt 0 i) \<or> c = None \<and> print (Some i) fmt realloc m = PrintNull"
proof -
  obtain ok m' where m: "alloc m = (ok, m')" by fastforce
  then have c: "c = None \<or> ok \<and> m' = []" using assms(3) by auto
  let ?p = "fresh_buffer (replicate 256 None) 0 False fmt m' realloc"
  have "yields c (print_value i ?p) (\<lambda>p. pending c p (render fmt 0 i) 0 fmt)"
    by (rule print_fresh) (use assms c in auto)
  then have run: "yields c (pthen (print_value i ?p) update_offset)
      (\<lambda>p. holds c p (render fmt 0 i) 0 fmt \<and> wrote p (render fmt 0 i @ [NUL]) \<and> plength p = length (block_of p))"
    by (rule chain) (use update_offset_done in \<open>auto simp: yields_def\<close>)
  have print: "print (Some i) fmt realloc m = (if \<not> ok then PrintNull else
      case pthen (print_value i ?p) update_offset of PFail p' \<Rightarrow> print_fail p' | PFault \<Rightarrow> PrintFault | POk p' \<Rightarrow> print_finish p')"
    by (simp add: print_def m fresh_buffer_def)
  show ?thesis
  proof (cases "pthen (print_value i ?p) update_offset")
    case (POk p)
    then have h: "holds c p (render fmt 0 i) 0 fmt" "wrote p (render fmt 0 i @ [NUL])" "plength p = length (block_of p)"
      using run by simp_all
    then have "c = None \<or> phooks p = []" by (auto simp: holds_def ready_def)
    then show ?thesis using POk c print_finish_ok[OF h] by (auto simp: print)
  next
    case (PFail p)
    then show ?thesis using run by (auto simp: print print_fail_def)
  qed (use run in simp)
qed

lemma print_ok:
  assumes "printable i" and "length (render fmt 0 i) + 2 \<le> 2147483647"
  shows "print (Some i) fmt realloc [] = Printed (render fmt 0 i)"
  using print_total[of i "Some 2147483647" fmt "[]" realloc] assms by simp

lemma pending_text:
  assumes "pending c p tx d fmt"
  shows "\<exists>b. pblock p = Some b \<and> block_c_str b = Some tx"
proof -
  obtain b where b: "pblock p = Some b" "block_of p = b" and w: "wrote p (tx @ [NUL])" "nul_free tx"
    using assms by (auto simp: pending_def ready_def block_of_def)
  have "b = map Some tx @ Some NUL # drop (length tx + 1) b" using wrote_split[OF w(1)] b(2) by simp
  then have "block_c_str b = block_c_str (map Some tx @ Some NUL # drop (length tx + 1) b)" by (rule arg_cong)
  also have "\<dots> = Some tx" using w(2) by (rule block_c_str_text)
  finally have "block_c_str b = Some tx" .
  then show ?thesis using b(1) by simp
qed

lemma PrintBuffered_total:
  assumes "printable i" and "0 < prebuffer"
  shows "cJSON_PrintBuffered (Some i) prebuffer fmt m \<in> {Printed (render fmt 0 i), PrintNull}"
proof -
  obtain ok m' where m: "alloc m = (ok, m')" by fastforce
  let ?p = "fresh_buffer (replicate (nat prebuffer) None) (nat prebuffer) False fmt m' True"
  have "yields None (print_value i ?p) (\<lambda>p. pending None p (render fmt 0 i) 0 fmt)"
    by (rule print_fresh) (use assms in auto)
  moreover have "(case pblock p of None \<Rightarrow> PrintNull | Some blk \<Rightarrow> c_str_result blk) = Printed (render fmt 0 i)"
    if "pending None p (render fmt 0 i) 0 fmt" for p
    using pending_text[OF that] by (auto simp: c_str_result_def)
  ultimately show ?thesis using assms(2) m
    by (auto simp: cJSON_PrintBuffered_def fresh_buffer_def yields_def print_fail_def Let_def)
qed

text \<open>C9: Both printers, on any printable item and whatever the allocator answers, fill and grow their
  buffer without a store outside it or a read of a byte that was not written, and return exactly
  the text of the item, or NULL without a double \<open>free\<close>. With memory and a text shorter than \<open>INT_MAX\<close>
  they return the text. The fallback for an allocator without \<open>realloc\<close> does the same.\<close>

theorem print_renders:
  assumes "printable i"
  shows "print (Some i) fmt realloc m \<in> {Printed (render fmt 0 i), PrintNull}
    \<and> (length (render fmt 0 i) + 2 \<le> INT_MAX \<longrightarrow> print (Some i) fmt realloc [] = Printed (render fmt 0 i))"
  using print_total[OF assms, of None fmt m realloc] print_ok[OF assms, of fmt realloc] by (auto simp: INT_MAX_def)

theorem print_renders_witness:
  "print (Some (CJSON 32 None 0 (Fin 0) None [CJSON 16 (Some [CHR 0x0A]) 0 (Fin 0) None [], CJSON 2 None 1 (Fin 0) None []]))
      False False [] = Printed [CHR ''['', QUOTE, BSLASH, CHR ''n'', QUOTE, CHR '','', CHR ''t'', CHR ''r'', CHR ''u'', CHR ''e'', CHR '']'']
   \<and> print (Some (CJSON 2 None 1 (Fin 0) None [])) True True [True, False] \<in> {Printed ''true'', PrintNull}"
  using print_renders[of "CJSON 32 None 0 (Fin 0) None [CJSON 16 (Some [CHR 0x0A]) 0 (Fin 0) None [], CJSON 2 None 1 (Fin 0) None []]" False False]
    print_renders[of "CJSON 2 None 1 (Fin 0) None []" True True "[True, False]"]
  by (simp add: c_string_opt_def render_string_def escape_char_def short_escape_def INT_MAX_def Let_def)

text \<open>C10: \<open>cJSON_PrintPreallocated\<close> never stores outside the buffer of the caller. It answers true only with
  the whole text and its NUL in the buffer, and false only when the buffer has fewer than two
  bytes more than the text.\<close>

theorem PrintPreallocated_bounded:
  assumes "printable i" and "0 < len" and "len \<le> INT_MAX" and "length buf = nat len"
  shows "\<exists>ok buf'. cJSON_PrintPreallocated (Some i) (Some buf) len fmt = Some (ok, buf')
    \<and> (if ok then \<exists>b. buf' = Some b \<and> block_c_str b = Some (render fmt 0 i)
        else len < int (length (render fmt 0 i)) + 2)"
proof -
  let ?c = "if len < int (length (render fmt 0 i)) + 2 then None else Some (nat len)"
  let ?p = "fresh_buffer buf (nat len) True fmt [] True"
  have "yields ?c (print_value i ?p) (\<lambda>p. pending ?c p (render fmt 0 i) 0 fmt)"
    by (rule print_fresh) (use assms in \<open>auto simp: INT_MAX_def\<close>)
  then consider p where "print_value i ?p = POk p" "pending ?c p (render fmt 0 i) 0 fmt"
    | p where "print_value i ?p = PFail p" "len < int (length (render fmt 0 i)) + 2"
    by (auto simp: yields_def split: if_splits)
  then show ?thesis
  proof cases
    case (1 p)
    then show ?thesis using pending_text[OF 1(2)] assms(2) by (auto simp: cJSON_PrintPreallocated_def fresh_buffer_def)
  next
    case (2 p)
    then show ?thesis using assms(2) by (auto simp: cJSON_PrintPreallocated_def fresh_buffer_def)
  qed
qed

theorem PrintPreallocated_bounded_witness:
  "\<exists>b. cJSON_PrintPreallocated (Some (CJSON 2 None 1 (Fin 0) None [])) (Some (replicate 6 None)) 6 False = Some (True, Some b)
    \<and> block_c_str b = Some ''true''"
  using PrintPreallocated_bounded[of "CJSON 2 None 1 (Fin 0) None []" 6 "replicate 6 None" False]
  by (auto simp: c_string_opt_def INT_MAX_def split: if_splits)

end
