(* ===== verification/JsonRoundtrip.thy ===== *)
theory JsonRoundtrip
  imports JsonParse PrintRefine
begin

text \<open>
  The parser inverts the printer: on the text of a canonical item, formatted or not,
  \<open>parse_value\<close> returns that item and stops just behind the text.
\<close>

section \<open>Moving in the buffer\<close>

lemma skip_simps [simp]:
  "skip m (skip n b) = skip (n + m) b"
  "buffer_at_offset (skip n b) = drop n (buffer_at_offset b)"
  "buffer_at_offset (enter b) = buffer_at_offset b"
  "hooks (skip n b) = hooks b" "hooks (enter b) = hooks b"
  "depth (skip n b) = depth b" "depth (enter b) = depth b + 1"
  "skip n (enter b) = enter (skip n b)"
  "leave (enter b) = skip 1 b"
  "skip 0 b = b"
  "0 < n \<Longrightarrow> step_back (skip n b) = skip (n - 1) b"
  by (simp_all add: skip_def buffer_at_offset_def enter_def leave_def step_back_def add_ac)

lemma step_back_enter [simp]: "step_back (enter b) = enter (step_back b)"
  by (simp add: enter_def step_back_def)

definition blank :: "bytes \<Rightarrow> bool" where
  "blank w \<longleftrightarrow> (\<forall>c \<in> set w. code c \<le> 32)"

lemma blank_simps [simp]:
  "blank []" "blank (c # w) \<longleftrightarrow> code c \<le> 32 \<and> blank w" "blank (v @ w) \<longleftrightarrow> blank v \<and> blank w" "blank (tabs n)"
  by (auto simp: blank_def tabs_def)

lemma skip_blank:
  assumes "buffer_at_offset b = w @ c # s" and "blank w" and "32 < code c"
  shows "buffer_skip_whitespace b = skip (length w) b"
proof -
  have t: "takeWhile (\<lambda>c. code c \<le> 32) (w @ c # s) = w"
    using assms(2,3) by (subst takeWhile_append2) (auto simp: blank_def)
  have "length (buffer_at_offset b) = length w + length s + 1" using assms(1) by simp
  then have "offset b + length w < length (content b)" by (auto simp: buffer_at_offset_def)
  then show ?thesis using assms(1) t by (simp add: buffer_skip_whitespace_def Let_def) (simp add: skip_def)
qed

lemma peek_at [simp]: "buffer_at_offset b = c # s \<Longrightarrow> peek b 0 = Some c"
  by (simp add: peek_def)

lemma looking_at_iff:
  assumes "s \<noteq> []"
  shows "looking_at b s \<longleftrightarrow> take (length s) (buffer_at_offset b) = s"
proof -
  have "can_read b (length s)" if "take (length s) (buffer_at_offset b) = s"
    using arg_cong[OF that, of length] assms
    by (cases s) (auto simp: can_read_def buffer_at_offset_def)
  then show ?thesis by (auto simp: looking_at_def)
qed

section \<open>Strings\<close>

lemma scan_plain:
  "c \<noteq> QUOTE \<Longrightarrow> c \<noteq> BSLASH \<Longrightarrow> t \<noteq> [] \<Longrightarrow> scan_string (c # t) l k = scan_string t (l + 1) k"
  by (cases t) auto

lemma hex_digit_props:
  assumes "n < 16"
  shows "hex_val (hex_digit n) = Some n" and "hex_digit n \<noteq> QUOTE" and "hex_digit n \<noteq> BSLASH"
proof -
  show h: "hex_val (hex_digit n) = Some n" using assms by (auto simp: hex_val_def hex_digit_def)
  show "hex_digit n \<noteq> QUOTE" "hex_digit n \<noteq> BSLASH" using h by (auto simp: hex_val_def split: if_splits)
qed

lemma u04x_digits:
  "\<exists>h1 h2 h3 h4. u04x n = [CHR ''u'', h1, h2, h3, h4]
     \<and> (\<forall>h \<in> {h1, h2, h3, h4}. h \<noteq> QUOTE \<and> h \<noteq> BSLASH)"
proof (intro exI conjI)
  show "u04x n = [CHR ''u'', hex_digit (n div 4096 mod 16), hex_digit (n div 256 mod 16),
     hex_digit (n div 16 mod 16), hex_digit (n mod 16)]" by (rule u04x_def)
  have "hex_digit (k mod 16) \<noteq> QUOTE \<and> hex_digit (k mod 16) \<noteq> BSLASH" for k
    by (simp add: hex_digit_props(2,3))
  then show "\<forall>h \<in> {hex_digit (n div 4096 mod 16), hex_digit (n div 256 mod 16),
     hex_digit (n div 16 mod 16), hex_digit (n mod 16)}. h \<noteq> QUOTE \<and> h \<noteq> BSLASH" by simp
qed

text \<open>The three shapes of an escaped character.\<close>

lemma escape_cases:
  obtains (plain) "escape_char c = [c]" "c \<noteq> QUOTE" "c \<noteq> BSLASH"
  | (short) e where "escape_char c = [BSLASH, e]" "simple_escape e = Some c"
  | (hex) "escape_char c = BSLASH # u04x (code c)" "code c < 32"
proof (cases "31 < code c \<and> c \<noteq> QUOTE \<and> c \<noteq> BSLASH")
  case True
  then show thesis using plain by (simp add: escape_char_def)
next
  case False
  show thesis
  proof (cases "short_escape c")
    case None
    then have "c \<noteq> QUOTE" "c \<noteq> BSLASH" by (auto simp: short_escape_def)
    then show thesis using False None hex by (auto simp: escape_char_def)
  next
    case (Some e)
    then have "simple_escape e = Some c" by (auto simp: short_escape_def simple_escape_def split: if_splits)
    then show thesis using False Some short by (auto simp: escape_char_def)
  qed
qed

fun escapes :: "bytes \<Rightarrow> nat" where
  "escapes [] = 0"
| "escapes (c # s) = (if escape_char c = [c] then 0 else 1) + escapes s"

lemma escapes_bound: "length s + escapes s \<le> length (concat (map escape_char s))"
proof (induction s)
  case (Cons c s)
  have "1 + (if escape_char c = [c] then 0 else 1) \<le> length (escape_char c)"
    by (cases rule: escape_cases[of c]) auto
  then show ?case using Cons by simp
qed simp

lemma scan_escapes:
  assumes "r \<noteq> []"
  shows "scan_string (concat (map escape_char s) @ r) l k
    = scan_string r (l + length (concat (map escape_char s))) (k + escapes s)"
proof (induction s arbitrary: l k)
  case (Cons c s)
  let ?t = "concat (map escape_char s) @ r"
  show ?case
  proof (cases rule: escape_cases[of c])
    case plain
    then show ?thesis using assms Cons[of "l + 1" k] by (simp add: scan_plain)
  next
    case (short e)
    then have "escape_char c \<noteq> [c]" by simp
    then show ?thesis using short Cons[of "l + 2" "k + 1"] by simp
  next
    case hex
    obtain h1 h2 h3 h4 where u: "u04x (code c) = [CHR ''u'', h1, h2, h3, h4]"
      and h: "\<forall>h \<in> {h1, h2, h3, h4}. h \<noteq> QUOTE \<and> h \<noteq> BSLASH"
      using u04x_digits by metis
    have "escape_char c \<noteq> [c]" using hex by (simp add: u)
    then show ?thesis using assms hex(1) h Cons[of "Suc (Suc (Suc (Suc (Suc (Suc l)))))" "k + 1"] by (simp add: u scan_plain)
  qed
qed simp

lemma scan_escaped:
  "scan_string (concat (map escape_char s) @ QUOTE # r) l k
    = Some (l + length (concat (map escape_char s)), k + escapes s)"
  using scan_escapes[of "QUOTE # r" s l k] by (cases r) simp_all

lemma parse_hex4_digits:
  assumes "a < 16" "b < 16" "c < 16" "d < 16"
  shows "parse_hex4 (hex_digit a # hex_digit b # hex_digit c # hex_digit d # r)
    = Some (word_of_nat (((a * 16 + b) * 16 + c) * 16 + d))"
proof -
  have p: "push_bit 4 x = x * 16" for x :: "32 word" by (simp add: push_bit_eq_mult)
  have 4: "(4::nat) = Suc (Suc (Suc (Suc 0)))" by simp
  show ?thesis unfolding parse_hex4_def 4 by (simp add: hex_digit_props assms p Let_def)
qed

lemma parse_hex4_u04x:
  assumes "n < 65536"
  shows "parse_hex4 (tl (u04x n) @ r) = Some (word_of_nat n)"
proof -
  have "((n div 4096 mod 16 * 16 + n div 256 mod 16) * 16 + n div 16 mod 16) * 16 + n mod 16 = n"
  proof -
    have "n div 256 = n div 16 div 16" "n div 4096 = n div 16 div 16 div 16"
      by (simp_all add: div_mult2_eq[symmetric])
    moreover have "n div 16 div 16 div 16 mod 16 = n div 16 div 16 div 16"
      using assms by simp
    ultimately show ?thesis by (simp only: div_mult_mod_eq)
  qed
  moreover have "tl (u04x n) @ r = hex_digit (n div 4096 mod 16) # hex_digit (n div 256 mod 16)
      # hex_digit (n div 16 mod 16) # hex_digit (n mod 16) # r"
    by (simp only: u04x_def list.sel append_Cons append_Nil)
  ultimately show ?thesis
    using parse_hex4_digits[of "n div 4096 mod 16" "n div 256 mod 16" "n div 16 mod 16" "n mod 16" r] by (simp only: mod_less_divisor) 
qed

lemma unat_word_of_nat_small:
  "n < 2 ^ LENGTH('a) \<Longrightarrow> unat (word_of_nat n :: 'a::len word) = n"
  by (simp add: unat_of_nat take_bit_nat_eq_self)

lemma utf8_encode_ascii:
  assumes "n < 128"
  shows "utf8_encode (word_of_nat n) = [char_of n]"
proof -
  let ?w = "word_of_nat n :: 64 word"
  have u: "unat ?w = n" using assms by (intro unat_word_of_nat_small) simp
  have lt: "?w < 0x80" using assms u by (simp add: word_less_nat_alt)
  have "?w AND mask 7 = ?w" "?w AND mask 8 = ?w"
    using u assms by (simp_all add: take_bit_eq_mask[symmetric] word_unat_eq_iff unsigned_take_bit_eq take_bit_nat_eq_self)
  then have "?w AND 0x7F = ?w" "?w AND 0xFF = ?w" by (simp_all add: mask_eq_exp_minus_1)
  then show ?thesis using u lt by (simp add: utf8_encode_def byte_of_def utf8_length_def)
qed

lemma utf16_control:
  assumes "code c < 32" and "6 \<le> n"
  shows "utf16_literal_to_utf8 (BSLASH # u04x (code c) @ r) n = UOk [c] 6"
proof -
  let ?w = "word_of_nat (code c) :: 32 word"
  have u: "unat ?w = code c" using assms(1) by (intro unat_word_of_nat_small) simp
  have "drop 2 (BSLASH # u04x (code c) @ r) = tl (u04x (code c)) @ r"
    by (simp add: u04x_def)
  then have "parse_hex4 (drop 2 (BSLASH # u04x (code c) @ r)) = Some ?w"
    using parse_hex4_u04x[of "code c" r] assms(1) by simp
  moreover have "\<not> 0xDC00 \<le> ?w" "\<not> 0xD800 \<le> ?w"
    using assms(1) u by (simp_all add: word_le_nat_alt)
  moreover have "ucast ?w = (word_of_nat (code c) :: 64 word)"
    using assms(1) by (simp add: word_unat_eq_iff unsigned_ucast_eq unat_of_nat take_bit_nat_eq_self)
  moreover have "(word_of_nat (code c) :: 64 word) \<le> 0x10FFFF"
    using assms(1) unat_word_of_nat_small[of "code c", where 'a = 64] by (simp add: word_le_nat_alt)
  ultimately show ?thesis
    using assms utf8_encode_ascii[of "code c"] by (simp add: utf16_literal_to_utf8_def encode_codepoint_def)
qed

lemma unescape_escaped:
  assumes "length out + length s < cap"
  shows "unescape (concat (map escape_char s) @ r) (length (concat (map escape_char s))) out cap = SOk (out @ s)"
  using assms
proof (induction s arbitrary: out)
  case Nil
  then show ?case by (subst unescape.simps) simp
next
  case (Cons c s)
  let ?e = "concat (map escape_char s)"
  have IH: "unescape (?e @ r) (length ?e) (out @ [c]) cap = SOk (out @ c # s)"
    using Cons.IH[of "out @ [c]"] Cons.prems by simp
  have cap: "length out < cap" using Cons.prems by simp
  show ?case
  proof (cases rule: escape_cases[of c])
    case plain
    then show ?thesis using IH cap by (subst unescape.simps) simp
  next
    case (short e)
    then show ?thesis using IH cap by (subst unescape.simps) (simp add: numeral_2_eq_2)
  next
    case hex
    obtain h1 h2 h3 h4 where u: "u04x (code c) = [CHR ''u'', h1, h2, h3, h4]" by (simp add: u04x_def)
    have se: "simple_escape CHR ''u'' = None" by (simp add: simple_escape_def)
    have "utf16_literal_to_utf8 (BSLASH # u04x (code c) @ ?e @ r) (Suc (Suc (Suc (Suc (Suc (Suc (length ?e))))))) = UOk [c] 6"
      using hex(2) by (intro utf16_control) simp_all
    then show ?thesis using IH cap hex u se by (subst unescape.simps) simp
  qed
qed

lemma parse_string_render:
  assumes b: "buffer_at_offset b = render_string (Some s) @ r" and m: "hooks b = []" and s: "nul_free s"
  shows "parse_string (CJSON t vs vi vd k ch) b =
    Ok (CJSON cJSON_String (Some s) vi vd k ch) (skip (length (render_string (Some s))) b)"
proof -
  let ?e = "concat (map escape_char s)"
  have b': "buffer_at_offset b = QUOTE # ?e @ QUOTE # r" using b by (simp add: render_string_def)
  have sc: "scan_string (?e @ QUOTE # r) 0 0 = Some (length ?e, escapes s)"
    using scan_escaped[of s r 0 0] by simp
  have "length s < length ?e + 1 - escapes s + 1"
    using escapes_bound[of s] by linarith
  then have un: "unescape (?e @ QUOTE # r) (length ?e) [] (length ?e + 1 - escapes s + 1) = SOk s"
    using unescape_escaped[of "[]" s] by simp
  have m': "(skip (Suc 0) b)\<lparr>hooks := []\<rparr> = skip (Suc 0) b" using m by (simp add: skip_def)
  show ?thesis using b' sc un m s
    by (simp add: parse_string_def m' render_string_def Let_def)
qed

section \<open>Numbers\<close>

lemma show_int_chars: "c \<in> set (show_int n) \<Longrightarrow> is_number_char c"
  using dec_digits_digits by (auto simp: show_int_def is_number_char_def split: if_splits)

lemma show_int_start: "\<exists>c s. show_int n = c # s \<and> is_number_start c"
proof (cases "show_int n")
  case Nil
  then show ?thesis by (simp add: show_int_def split: if_splits)
next
  case (Cons c s)
  then have "c = CHR ''-'' \<or> c \<in> set (dec_digits (nat n))" by (auto simp: show_int_def split: if_splits)
  then show ?thesis using Cons dec_digits_digits by (auto simp: is_number_start_def)
qed

lemma length_show_int:
  assumes "\<bar>n\<bar> < 10 ^ 15"
  shows "length (show_int n) \<le> 16"
proof -
  have "nat n < 10 ^ 15" "nat (- n) < 10 ^ 15" using assms by (auto simp: nat_less_iff)
  then show ?thesis using length_dec_digits_le[of "nat n" 15] length_dec_digits_le[of "nat (- n)" 15]
    by (auto simp: show_int_def)
qed

lemma copy_number_all:
  assumes "\<forall>c \<in> set s. is_number_char c" and "\<not> is_number_char d" and "length s \<le> n"
  shows "copy_number n (s @ d # r) = s"
  using assms
proof (induction s arbitrary: n)
  case Nil
  then show ?case by (cases n) auto
next
  case (Cons c s)
  then show ?case by (cases n) auto
qed

lemma number_text_int:
  assumes "\<bar>n\<bar> < 10 ^ 15"
  shows "number_text (dbl_int n) = show_int n"
proof -
  have lt: "\<bar>n\<bar> < 2 ^ 53" using assms by simp
  show ?thesis using sprintf_g_int[OF assms] strtod_show_int[OF lt] show_int_start[of n]
    by (auto simp: number_text_def finite_double_def sscanf_lg_def)
qed

lemma parse_number_int:
  assumes "\<bar>n\<bar> < 10 ^ 15" and "buffer_at_offset b = show_int n @ c # r" and "\<not> is_number_char c"
  shows "parse_number (CJSON t vs vi vd k ch) b
    = Ok (CJSON cJSON_Number vs (saturate (dbl_int n)) (dbl_int n) k ch) (skip (length (show_int n)) b)"
proof -
  have lt: "\<bar>n\<bar> < 2 ^ 53" using assms(1) by simp
  have "copy_number 63 (show_int n @ c # r) = show_int n"
    using show_int_chars length_show_int[OF assms(1)] assms(3) by (intro copy_number_all) auto
  then show ?thesis using strtod_show_int[OF lt] show_int_start[of n] assms(2)
    by (auto simp: parse_number_def)
qed

section \<open>Canonical items\<close>

text \<open>
  The items that parsing produces from their own text: exact types without flags, the numeric
  fields of a literal left at zero, numbers that are integers of at most 15 digits, NUL-free
  strings, members named and elements nameless, at most \<open>n\<close> levels of nesting.
\<close>

definition int15 :: "double \<Rightarrow> bool" where
  "int15 d \<longleftrightarrow> (case d of Fin x \<Rightarrow> x = of_int \<lfloor>x\<rfloor> \<and> \<bar>\<lfloor>x\<rfloor>\<bar> < 10 ^ 15 | _ \<Rightarrow> False)"

definition named :: "cJSON \<Rightarrow> bool" where
  "named i = (case ckey i of None \<Rightarrow> False | Some k \<Rightarrow> nul_free k)"

fun canonical :: "nat \<Rightarrow> cJSON \<Rightarrow> bool" where
  "canonical n (CJSON t vs vi vd k ch) =
     (if t = cJSON_Number then int15 vd \<and> vi = saturate vd \<and> vs = None \<and> ch = []
      else vd = Fin 0 \<and> vi = (if t = cJSON_True then 1 else 0)
        \<and> (if t = cJSON_String then (case vs of None \<Rightarrow> False | Some s \<Rightarrow> nul_free s) \<and> ch = []
           else vs = None \<and>
             (if t = cJSON_Array then 0 < n \<and> (\<forall>i \<in> set ch. ckey i = None \<and> canonical (n - 1) i)
              else if t = cJSON_Object then 0 < n \<and> (\<forall>i \<in> set ch. named i \<and> canonical (n - 1) i)
              else ch = [] \<and> (t = cJSON_NULL \<or> t = cJSON_False \<or> t = cJSON_True))))"

lemma access_at [simp]: "buffer_at_offset b = c # s \<Longrightarrow> can_access_at_index b 0"
  by (metis buffer_at_offset_def can_access_at_index_def drop_eq_Nil list.distinct(1) not_less plus_nat.add_0 add.commute)

lemma new_item_ok [simp]: "hooks b = [] \<Longrightarrow> new_item b = Ok blank_item b"
  by (simp add: new_item_def cJSON_New_Item_def)

lemma and_then_Ok [simp]: "and_then (Ok x b) k = k x b"
  by (simp add: and_then_def)

lemma number_start_code: "is_number_start c \<Longrightarrow> 32 < code c \<and> code c < 128 \<and> c \<noteq> CHR '']''"
  by (auto simp: is_number_start_def is_digit_def)

lemma int15_text:
  assumes "int15 d"
  obtains x where "d = dbl_int x" and "\<bar>x\<bar> < 10 ^ 15" and "number_text d = show_int x"
proof -
  obtain x where "d = dbl_int x" "\<bar>x\<bar> < 10 ^ 15"
    using assms by (auto simp: int15_def split: double.splits)
  then show thesis using that number_text_int by simp
qed

lemma render_start:
  assumes "canonical n i"
  shows "\<exists>c s. render fmt d i = c # s \<and> 32 < code c \<and> code c < 128 \<and> c \<noteq> CHR '']''"
proof (cases i)
  case (CJSON t vs vi vd k ch)
  have num: "\<exists>c s. number_text vd = c # s \<and> 32 < code c \<and> code c < 128 \<and> c \<noteq> CHR '']''" if v: "int15 vd"
    using int15_text[OF v] show_int_start number_start_code by metis
  show ?thesis using assms num CJSON
    by (auto simp: render_string_def split: if_splits option.splits)
qed

text \<open>What it means that an item comes back from its text, wherever that stands in the input.\<close>

definition reparses :: "nat \<Rightarrow> bool \<Rightarrow> nat \<Rightarrow> cJSON \<Rightarrow> bool" where
  "reparses n fmt d i \<longleftrightarrow> (\<forall>f b c r t. buffer_at_offset b = render fmt d i @ c # r
     \<longrightarrow> \<not> is_number_char c \<longrightarrow> hooks b = [] \<longrightarrow> depth b + n \<le> 1000 \<longrightarrow> 3 * length (render fmt d i) \<le> f
     \<longrightarrow> parse_value f (CJSON t None 0 (Fin 0) (ckey i) []) b = Ok i (skip (length (render fmt d i)) b))"

lemma reparsesD:
  assumes "reparses n fmt d i" and "buffer_at_offset b = render fmt d i @ c # r" and "\<not> is_number_char c"
    and "hooks b = []" and "depth b + n \<le> 1000" and "3 * length (render fmt d i) \<le> f"
  shows "parse_value f (CJSON t None 0 (Fin 0) (ckey i) []) b = Ok i (skip (length (render fmt d i)) b)"
  using assms by (simp add: reparses_def)

lemma plain_chars [simp]:
  "\<not> is_number_char (CHR '','')" "\<not> is_number_char (CHR '']'')" "\<not> is_number_char (CHR ''}'')"
  "\<not> is_number_char (CHR 0x0A)" "\<not> is_number_char NUL"
  by (simp_all add: is_number_char_def is_digit_def)

lemma array_items_render:
  assumes "ch \<noteq> []" and "\<forall>i \<in> set ch. ckey i = None \<and> canonical n i \<and> reparses n fmt d i"
    and "buffer_at_offset (skip 1 b) = w @ render_elements fmt d ch @ CHR '']'' # r" and "blank w"
    and "hooks b = []" and "depth b + n \<le> 1000" and "3 * length (render_elements fmt d ch) + 1 \<le> f"
  shows "array_items f b = Ok ch (skip (1 + length w + length (render_elements fmt d ch)) b)"
  using assms
proof (induction ch arbitrary: f b w)
  case (Cons i ch)
  let ?t = "render fmt d i"
  obtain g where f: "f = Suc g" using Cons.prems(7) by (cases f) auto
  have i: "ckey i = None" "canonical n i" "reparses n fmt d i" using Cons.prems(2) by auto
  obtain x s where x: "?t = x # s" "32 < code x" using render_start[OF i(2)] by blast
  define sep where "sep = (if ch = [] then [] else if fmt then '', '' else '','')"
  have at: "buffer_at_offset (skip 1 b) = w @ ?t @ sep @ render_elements fmt d ch @ CHR '']'' # r"
    using Cons.prems(3) by (simp add: sep_def)
  have ws: "buffer_skip_whitespace (skip 1 b) = skip (1 + length w) b"
    using skip_blank[of "skip 1 b" w x] at x Cons.prems(4) by simp
  have at1: "buffer_at_offset (skip (1 + length w) b) = ?t @ sep @ render_elements fmt d ch @ CHR '']'' # r"
  proof -
    have "buffer_at_offset (skip (1 + length w) b) = drop (length w) (buffer_at_offset (skip 1 b))" by (simp add: add.commute)
    then show ?thesis unfolding at by simp
  qed
  obtain y u where y: "sep @ render_elements fmt d ch @ CHR '']'' # r = y # u" "\<not> is_number_char y" "32 < code y"
    "y = CHR '','' \<longleftrightarrow> ch \<noteq> []"
    by (cases "ch = []"; cases fmt) (auto simp: sep_def)
  have pv: "parse_value g (CJSON 0 None 0 (Fin 0) None []) (skip (1 + length w) b)
      = Ok i (skip (length ?t) (skip (1 + length w) b))"
    using reparsesD[OF i(3) at1[unfolded y(1)] y(2), of g 0] Cons.prems(5-7) f i(1) by simp
  have at2: "buffer_at_offset (skip (1 + length w + length ?t) b) = y # u"
  proof -
    have "buffer_at_offset (skip (1 + length w + length ?t) b) = drop (length ?t) (buffer_at_offset (skip (1 + length w) b))"
      by (simp add: add.commute)
    then show ?thesis unfolding at1 y(1) by simp
  qed
  have ws2: "buffer_skip_whitespace (skip (1 + length w + length ?t) b) = skip (1 + length w + length ?t) b"
    using skip_blank[of _ "[]" y u] at2 y(3) by simp
  show ?case
  proof (cases "ch = []")
    case True
    then show ?thesis using f ws pv ws2 at2 y(4) Cons.prems(5) by (simp add: blank_item_def)
  next
    case False
    have "array_items g (skip (1 + length w + length ?t) b)
      = Ok ch (skip (1 + length (tl sep) + length (render_elements fmt d ch)) (skip (1 + length w + length ?t) b))"
    proof (rule Cons.IH[OF False])
      show "buffer_at_offset (skip 1 (skip (1 + length w + length ?t) b)) = tl sep @ render_elements fmt d ch @ CHR '']'' # r"
      proof -
        have "buffer_at_offset (skip 1 (skip (1 + length w + length ?t) b)) = tl (buffer_at_offset (skip (1 + length w + length ?t) b))"
          by (simp add: tl_drop drop_Suc)
        then show ?thesis unfolding at2 y(1)[symmetric] using False by (simp add: sep_def)
      qed
      show "3 * length (render_elements fmt d ch) + 1 \<le> g" using Cons.prems(7) f x by simp
    qed (use Cons.prems(2,5,6) in \<open>auto simp: sep_def\<close>)
    then have "array_items f b = Ok (i # ch) (skip (1 + length w + length ?t + (1 + length (tl sep) + length (render_elements fmt d ch))) b)"
      using f ws pv ws2 at2 y(4) Cons.prems(5) False by (simp add: blank_item_def)
    moreover have "length (render_elements fmt d (i # ch)) = length ?t + (1 + length (tl sep) + length (render_elements fmt d ch))"
      using False by (simp add: sep_def)
    ultimately show ?thesis by (simp add: add.assoc)
  qed
qed simp

text \<open>The text of a nonempty member list behind its indentation.\<close>

definition members_body :: "bool \<Rightarrow> nat \<Rightarrow> cJSON list \<Rightarrow> bytes" where
  "members_body fmt d ch = (case ch of [] \<Rightarrow> [] | i # is \<Rightarrow> render_string (ckey i)
     @ (if fmt then [CHR '':'', CHR 0x09] else '':'') @ render fmt d i
     @ (if is \<noteq> [] then '','' else []) @ (if fmt then [CHR 0x0A] else []) @ render_members fmt d is)"

lemma members_body: "ch \<noteq> [] \<Longrightarrow> render_members fmt d ch = (if fmt then tabs d else []) @ members_body fmt d ch"
  by (cases ch) (auto simp: members_body_def)

lemma at_skip: "buffer_at_offset b = s @ t \<Longrightarrow> buffer_at_offset (skip (length s) b) = t"
  by simp

lemma blank_not_number: "code c \<le> 32 \<Longrightarrow> \<not> is_number_char c"
  by (auto simp: is_number_char_def is_digit_def)

lemma object_items_render:
  assumes "ch \<noteq> []" and "\<forall>i \<in> set ch. named i \<and> canonical n i \<and> reparses n fmt d i"
    and "buffer_at_offset (skip 1 b) = w @ members_body fmt d ch @ v @ CHR ''}'' # r" and "blank w" and "blank v"
    and "hooks b = []" and "depth b + n \<le> 1000" and "3 * length (members_body fmt d ch) + 1 \<le> f"
  shows "object_items f b = Ok ch (skip (1 + length w + length (members_body fmt d ch) + length v) b)"
  using assms
proof (induction ch arbitrary: f b w)
  case (Cons i ch)
  let ?t = "render fmt d i"
  obtain g where f: "f = Suc g" using Cons.prems(8) by (cases f) auto
  obtain k where i: "ckey i = Some k" "nul_free k" "canonical n i" "reparses n fmt d i"
    using Cons.prems(2) by (auto simp: named_def split: option.splits)
  obtain x s where x: "?t = x # s" "32 < code x" using render_start[OF i(3)] by blast
  let ?k = "render_string (Some k)"
  define ind where "ind = (if fmt then [CHR 0x09] else [])"
  define nl where "nl = (if fmt then [CHR 0x0A] else [])"
  define more where "more = (if ch = [] then nl @ v @ CHR ''}'' # r
    else '','' @ nl @ (if fmt then tabs d else []) @ members_body fmt d ch @ v @ CHR ''}'' # r)"
  have bl: "blank ind" "blank nl" by (simp_all add: ind_def nl_def)
  have body: "members_body fmt d (i # ch) @ v @ CHR ''}'' # r = ?k @ CHR '':'' # ind @ ?t @ more"
    using i(1) members_body[of ch fmt d] by (auto simp: members_body_def[of _ _ "i # ch"] ind_def nl_def more_def)
  define b1 where "b1 = skip (length w) (skip 1 b)"
  have at1: "buffer_at_offset b1 = ?k @ CHR '':'' # ind @ ?t @ more"
    using at_skip[OF Cons.prems(3)] body unfolding b1_def by simp
  have ws1: "buffer_skip_whitespace (skip 1 b) = b1"
    unfolding b1_def by (rule skip_blank[of _ _ QUOTE])
      (use Cons.prems(3,4) body in \<open>auto simp: render_string_def\<close>)
  have h1: "hooks b1 = []" "depth b1 = depth b" using Cons.prems(6) by (simp_all add: b1_def)
  have ps: "parse_string blank_item b1 = Ok (CJSON cJSON_String (Some k) 0 (Fin 0) None []) (skip (length ?k) b1)"
    unfolding blank_item_def by (rule parse_string_render[OF at1 h1(1) i(2)])
  define b3 where "b3 = skip (length ?k) b1"
  have at3: "buffer_at_offset b3 = CHR '':'' # ind @ ?t @ more"
    using at_skip[OF at1] by (simp only: b3_def)
  have ws3: "buffer_skip_whitespace b3 = b3"
    using skip_blank[of b3 "[]" "CHR '':''"] at3 by simp
  define b4 where "b4 = skip (length ind) (skip 1 b3)"
  have at4': "buffer_at_offset (skip 1 b3) = ind @ ?t @ more" using at3 by simp
  have at4: "buffer_at_offset b4 = ?t @ more" unfolding b4_def by (rule at_skip[OF at4'])
  have ws4: "buffer_skip_whitespace (skip 1 b3) = b4"
    unfolding b4_def by (rule skip_blank[of _ _ x]) (use at4' x bl in auto)
  have h4: "hooks b4 = []" "depth b4 = depth b" using h1 by (simp_all add: b4_def b3_def)
  obtain y u where y: "more = y # u" "\<not> is_number_char y"
    by (cases ch; cases fmt; cases v) (use Cons.prems(5) in \<open>auto simp: more_def nl_def dest: blank_not_number\<close>)
  have len: "length (members_body fmt d (i # ch)) = length ?k + 1 + length ind + length ?t
      + (if ch = [] then length nl else 1 + length nl + length (if fmt then tabs d else []) + length (members_body fmt d ch))"
    using i(1) members_body[of ch fmt d] by (auto simp: members_body_def[of _ _ "i # ch"] ind_def nl_def)
  have pv: "parse_value g (CJSON cJSON_String None 0 (Fin 0) (Some k) []) b4 = Ok i (skip (length ?t) b4)"
    using reparsesD[OF i(4) at4[unfolded y(1)] y(2), of g cJSON_String] Cons.prems(7,8) len h4 f i(1) by simp
  define b5 where "b5 = skip (length ?t) b4"
  have at5: "buffer_at_offset b5 = more" unfolding b5_def by (rule at_skip[OF at4])
  have h5: "hooks b5 = []" "depth b5 = depth b" using h4 by (simp_all add: b5_def)
  have pos: "b5 = skip (1 + length w + length ?k + 1 + length ind + length ?t) b"
    by (simp add: b5_def b4_def b3_def b1_def)
  have step: "object_items f b = (if peek (buffer_skip_whitespace b5) 0 = Some (CHR '','')
      then and_then (object_items g (buffer_skip_whitespace b5)) (\<lambda>items b6. Ok (i # items) b6)
      else Ok [i] (buffer_skip_whitespace b5))"
    using Cons.prems(6) ws1 ps ws3 at3 ws4 pv
    by (simp add: f b3_def[symmetric] b5_def[symmetric] string_to_key_def del: skip_simps)
  show ?case
  proof (cases "ch = []")
    case True
    have at: "buffer_at_offset b5 = (nl @ v) @ CHR ''}'' # r" using at5 True by (simp add: more_def)
    have "buffer_skip_whitespace b5 = skip (length (nl @ v)) b5"
      by (rule skip_blank[OF at]) (use Cons.prems(5) bl in auto)
    moreover have "peek (skip (length (nl @ v)) b5) 0 = Some (CHR ''}'')"
      by (rule peek_at[OF at_skip[OF at]])
    ultimately show ?thesis using step True len pos by (simp add: add_ac)
  next
    case False
    have at5': "buffer_at_offset b5 = CHR '','' # nl @ (if fmt then tabs d else []) @ members_body fmt d ch @ v @ CHR ''}'' # r"
      using at5 False by (simp add: more_def)
    then have ws5: "buffer_skip_whitespace b5 = b5" using skip_blank[of b5 "[]" "CHR '',''"] by simp
    let ?w = "nl @ (if fmt then tabs d else [])"
    have "object_items g b5 = Ok ch (skip (1 + length ?w + length (members_body fmt d ch) + length v) b5)"
      by (rule Cons.IH[OF False]) (use Cons.prems(2,5,7,8) at5' h5 len f False bl in auto)
    then show ?thesis using step ws5 at5' len pos False by (simp add: add_ac)
  qed
qed simp


lemma number_value:
  assumes "int15 vd" and "buffer_at_offset b = number_text vd @ c # r" and "\<not> is_number_char c"
  shows "parse_value (Suc g) (CJSON t None 0 (Fin 0) k []) b
    = Ok (CJSON cJSON_Number None (saturate vd) vd k []) (skip (length (number_text vd)) b)"
proof -
  obtain x where x: "vd = dbl_int x" "\<bar>x\<bar> < 10 ^ 15"
    using int15_text[OF assms(1)] by blast
  obtain e s where e: "show_int x = e # s" "is_number_start e" using show_int_start by blast
  have ne: "e \<noteq> CHR ''n''" "e \<noteq> CHR ''f''" "e \<noteq> CHR ''t''" "e \<noteq> QUOTE"
    using e(2) by (auto simp: is_number_start_def is_digit_def)
  have at: "buffer_at_offset b = show_int x @ c # r" using assms(2) x number_text_int by simp
  then have "buffer_at_offset b = e # s @ c # r" using e by simp
  then have "parse_value (Suc g) (CJSON t None 0 (Fin 0) k []) b = parse_number (CJSON t None 0 (Fin 0) k []) b"
    using ne e(2) by (simp add: looking_at_iff)
  then show ?thesis using parse_number_int[OF x(2) at assms(3)] x number_text_int by simp
qed

lemma string_value:
  assumes "buffer_at_offset b = render_string (Some s) @ r" and "hooks b = []" and "nul_free s"
  shows "parse_value (Suc g) (CJSON t None 0 (Fin 0) k []) b
    = Ok (CJSON cJSON_String (Some s) 0 (Fin 0) k []) (skip (length (render_string (Some s))) b)"
proof -
  have "buffer_at_offset b = QUOTE # concat (map escape_char s) @ QUOTE # r"
    using assms(1) by (simp add: render_string_def)
  then show ?thesis using parse_string_render[OF assms] by (simp add: looking_at_iff)
qed

lemma array_value:
  assumes at: "buffer_at_offset b = ''['' @ render_elements fmt d ch @ '']'' @ r" and h: "hooks b = []"
    and dep: "depth b + Suc n \<le> 1000"
    and ch: "\<forall>i \<in> set ch. ckey i = None \<and> canonical n i \<and> reparses n fmt d i"
    and fuel: "3 * length (render_elements fmt d ch) + 6 \<le> f"
  shows "parse_value f (CJSON t None 0 (Fin 0) k []) b
    = Ok (CJSON cJSON_Array None 0 (Fin 0) k ch) (skip (length (render_elements fmt d ch) + 2) b)"
proof -
  let ?t = "render_elements fmt d ch"
  obtain g where f: "f = Suc (Suc g)" using fuel by (cases f; cases "f - 1") auto
  have at1: "buffer_at_offset (skip 1 b) = ?t @ CHR '']'' # r" using at by simp
  obtain x s where x: "?t @ CHR '']'' # r = x # s" "32 < code x" "x = CHR '']'' \<longleftrightarrow> ch = []"
  proof (cases ch)
    case Nil
    then show thesis using that by simp
  next
    case (Cons i ch')
    then show thesis using that render_start[of n i fmt d] ch by auto
  qed
  have ws: "buffer_skip_whitespace (skip 1 (enter b)) = enter (skip 1 b)"
    using skip_blank[of "enter (skip 1 b)" "[]" x s] at1 x by simp
  have pk: "peek (enter (skip 1 b)) 0 = Some x" "can_access_at_index (enter (skip 1 b)) 0"
    using at1 x(1) by (auto intro: access_at)
  have lead: "parse_value f (CJSON t None 0 (Fin 0) k []) b = parse_array (Suc g) (CJSON t None 0 (Fin 0) k []) b"
    using at f by (simp add: looking_at_iff is_number_start_def is_digit_def)
  show ?thesis
  proof (cases "ch = []")
    case True
    then show ?thesis using lead at dep ws pk x(3)
      by (simp add: CJSON_NESTING_LIMIT_def with_children_def with_type_def)
  next
    case False
    have "array_items g (enter b) = Ok ch (skip (1 + length ([]::bytes) + length ?t) (enter b))"
      by (rule array_items_render[OF False ch, of _ _ r]) (use at1 h dep fuel f in auto)
    moreover have "peek (enter (skip (1 + length ?t) b)) 0 = Some (CHR '']'')"
      using at by (intro peek_at[of _ _ r]) simp
    ultimately show ?thesis using lead at dep ws pk x(3) False
      by (simp add: CJSON_NESTING_LIMIT_def with_children_def with_type_def)
  qed
qed

lemma object_value:
  assumes at: "buffer_at_offset b = (if fmt then [CHR ''{'', CHR 0x0A] else ''{'')
      @ render_members fmt (d + 1) ch @ (if fmt then tabs d else []) @ ''}'' @ r"
    and h: "hooks b = []" and dep: "depth b + Suc n \<le> 1000"
    and ch: "\<forall>i \<in> set ch. named i \<and> canonical n i \<and> reparses n fmt (d + 1) i"
    and fuel: "3 * length (render_members fmt (d + 1) ch) + 6 \<le> f"
  shows "parse_value f (CJSON t None 0 (Fin 0) k []) b
    = Ok (CJSON cJSON_Object None 0 (Fin 0) k ch)
      (skip (length (if fmt then [CHR ''{'', CHR 0x0A] else ''{'')
        + length (render_members fmt (d + 1) ch) + length (if fmt then tabs d else []) + 1) b)"
proof -
  let ?t = "render_members fmt (d + 1) ch"
  define nl where "nl = (if fmt then [CHR 0x0A] else [])"
  define v where "v = (if fmt then tabs d else [])"
  define ind where "ind = (if fmt \<and> ch \<noteq> [] then tabs (d + 1) else if fmt then tabs d else [])"
  obtain g where f: "f = Suc (Suc g)" using fuel by (cases f; cases "f - 1") auto
  have bl: "blank nl" "blank v" "blank ind" by (simp_all add: nl_def v_def ind_def)
  define body where "body = (if ch = [] then [] else members_body fmt (d + 1) ch @ v)"
  have at0: "buffer_at_offset b = CHR ''{'' # nl @ ind @ body @ CHR ''}'' # r"
    using at members_body[of ch fmt "d + 1"] by (auto simp: nl_def ind_def body_def v_def)
  have len: "length (if fmt then [CHR ''{'', CHR 0x0A] else ''{'') = 1 + length nl"
    "length ?t + length v = length ind + length body"
    using members_body[of ch fmt "d + 1"] by (auto simp: nl_def ind_def body_def v_def)
  obtain x s where x: "body @ CHR ''}'' # r = x # s" "32 < code x" "x = CHR ''}'' \<longleftrightarrow> ch = []"
  proof (cases ch)
    case Nil
    then show thesis using that by (simp add: body_def)
  next
    case (Cons i ch')
    then have "body @ CHR ''}'' # r = QUOTE # tl (body @ CHR ''}'' # r)"
      by (simp add: body_def members_body_def render_string_def split: option.splits)
    then show thesis using that Cons by simp
  qed
  have at1: "buffer_at_offset (enter (skip 1 b)) = (nl @ ind) @ x # s" using at0 x(1) by simp
  define q where "q = 1 + length nl + length ind"
  have ws: "buffer_skip_whitespace (skip 1 (enter b)) = enter (skip q b)"
    using skip_blank[OF at1 _ x(2)] bl by (simp add: q_def)
  have atq: "buffer_at_offset (enter (skip q b)) = x # s"
    using at_skip[OF at1] by (simp add: q_def)
  have q: "0 < q" by (simp add: q_def)
  have lead: "parse_value f (CJSON t None 0 (Fin 0) k []) b = parse_object (Suc g) (CJSON t None 0 (Fin 0) k []) b"
    using at0 f by (simp add: looking_at_iff is_number_start_def is_digit_def)
  have pk: "peek (enter b) 0 = Some (CHR ''{'')" using at0 by simp
  have goal: "skip (length (if fmt then [CHR ''{'', CHR 0x0A] else ''{'') + length ?t + length (if fmt then tabs d else []) + 1) b
    = skip 1 (skip (q + length body) b)"
  proof -
    have "length (if fmt then [CHR ''{'', CHR 0x0A] else ''{'') + length ?t + length (if fmt then tabs d else []) + 1
        = (q + length body) + 1"
      using len by (simp only: q_def v_def[symmetric])
    then show ?thesis by (simp only: skip_simps(1))
  qed
  show ?thesis unfolding goal
  proof (cases "ch = []")
    case True
    then show "parse_value f (CJSON t None 0 (Fin 0) k []) b
      = Ok (CJSON cJSON_Object None 0 (Fin 0) k ch) (skip 1 (skip (q + length body) b))"
      using lead pk dep ws atq x(3)
      by (simp add: CJSON_NESTING_LIMIT_def with_children_def with_type_def body_def)
  next
    case False
    have "object_items g (enter (skip (q - 1) b)) = Ok ch (skip (1 + length ([]::bytes) + length (members_body fmt (d + 1) ch) + length v) (enter (skip (q - 1) b)))"
    proof (rule object_items_render[OF False ch])
      show "buffer_at_offset (skip 1 (enter (skip (q - 1) b))) = [] @ members_body fmt (d + 1) ch @ v @ CHR ''}'' # r"
        using atq x(1) False q by (simp add: body_def)
      show "3 * length (members_body fmt (d + 1) ch) + 1 \<le> g"
        using fuel f members_body[OF False, of fmt "d + 1"] by simp
    qed (use h dep bl in auto)
    moreover have "buffer_at_offset (enter (skip (q + length body) b)) = CHR ''}'' # r"
      using at0 by (simp add: q_def)
    then have "peek (enter (skip (q + length body) b)) 0 = Some (CHR ''}'')" by (rule peek_at)
    ultimately show "parse_value f (CJSON t None 0 (Fin 0) k []) b
      = Ok (CJSON cJSON_Object None 0 (Fin 0) k ch) (skip 1 (skip (q + length body) b))"
      using lead pk dep ws access_at[OF atq] atq x(3) False q
      by (simp add: CJSON_NESTING_LIMIT_def with_children_def with_type_def body_def)
  qed
qed

lemma skip_literal:
  "skip 4 b = skip (Suc (Suc (Suc (Suc 0)))) b" "skip 5 b = skip (Suc (Suc (Suc (Suc (Suc 0))))) b"
  by (simp_all add: eval_nat_numeral)

lemma canonical_reparses: "canonical n i \<Longrightarrow> reparses n fmt d i"
proof (induction n i arbitrary: d rule: canonical.induct)
  case (1 n t vs vi vd k ch)
  show ?case unfolding reparses_def
  proof (intro allI impI)
    fix f b c r t'
    let ?i = "CJSON t vs vi vd k ch"
    assume at: "buffer_at_offset b = render fmt d ?i @ c # r" and c: "\<not> is_number_char c"
      and h: "hooks b = []" "depth b + n \<le> 1000" and fuel: "3 * length (render fmt d ?i) \<le> f"
    obtain x s where x: "render fmt d ?i = x # s" using render_start[OF "1.prems"] by blast
    obtain g where f: "f = Suc g" using fuel x by (cases f) auto
    consider "t = 8" | "t = 16" | "t = 32" | "t = 64" | "t = 4" | "t = 1" | "t = 2"
      using "1.prems" by (auto split: if_splits)
    then show "parse_value f (CJSON t' None 0 (Fin 0) (ckey ?i) []) b = Ok ?i (skip (length (render fmt d ?i)) b)"
    proof cases
      case 1
      then show ?thesis using number_value[of vd b c r g t' k] "1.prems" at c f by simp
    next
      case 2
      then obtain str where "vs = Some str" "nul_free str"
        using "1.prems" by (auto split: option.splits)
      then show ?thesis using string_value[of b str "c # r" g t' k] "1.prems" at h(1) f 2 by simp
    next
      case 3
      then obtain m where m: "n = Suc m" using "1.prems" by (cases n) auto
      have "\<forall>i \<in> set ch. ckey i = None \<and> canonical m i \<and> reparses m fmt (d + 1) i"
        using "1.IH"(1) "1.prems" 3 m by auto
      from array_value[OF _ h(1) _ this, of "c # r" f t' k] show ?thesis
        using "1.prems" at h(2) fuel 3 m by simp
    next
      case 4
      then obtain m where m: "n = Suc m" using "1.prems" by (cases n) auto
      have "\<forall>i \<in> set ch. named i \<and> canonical m i \<and> reparses m fmt (d + 1) i"
        using "1.IH"(2) "1.prems" 4 m by auto
      note ov = object_value[OF _ h(1) _ this, of "c # r" f t' k]
      have "vs = None" "vi = 0" "vd = Fin 0" using "1.prems" 4 by simp_all
      then show ?thesis using ov at h(2) fuel 4 m
        by (cases fmt) simp_all
    next
      case 5
      then show ?thesis using "1.prems" at f by (simp add: looking_at_iff with_type_def skip_literal)
    next
      case 6
      then show ?thesis using "1.prems" at f by (simp add: looking_at_iff with_type_def skip_literal)
    next
      case 7
      then show ?thesis using "1.prems" at f
        by (simp add: looking_at_iff with_type_def with_valueint_def skip_literal)
    qed
  qed
qed

section \<open>The entry points\<close>

lemma show_int_nul_free: "nul_free (show_int n)"
  using show_int_chars[of NUL n] by (auto simp: nul_free_def)

lemma canonical_printable: "canonical n i \<Longrightarrow> ckey i = None \<or> named i \<Longrightarrow> printable i"
proof (induction n i rule: canonical.induct)
  case (1 n t vs vi vd k ch)
  have k: "c_string_opt k" using "1.prems"(2) by (auto simp: c_string_opt_def named_def split: option.splits)
  have num: "length (number_text vd) \<le> 25 \<and> nul_free (number_text vd)" if v: "int15 vd"
  proof -
    obtain x where "\<bar>x\<bar> < 10 ^ 15" "number_text vd = show_int x" using int15_text[OF v] by blast
    then show ?thesis using length_show_int[of x] show_int_nul_free by simp
  qed
  consider "t = 8" | "t = 16" | "t = 32" | "t = 64" | "t = 4" | "t = 1" | "t = 2"
    using "1.prems"(1) by (auto split: if_splits)
  then show ?case
  proof cases
    case 1
    then show ?thesis using "1.prems"(1) k num by simp
  next
    case 2
    then show ?thesis using "1.prems"(1) k by (auto simp: c_string_opt_def split: option.splits)
  next
    case 3
    then have "\<forall>i \<in> set ch. printable i" using "1.IH"(1) "1.prems"(1) by auto
    then show ?thesis using 3 k by simp
  next
    case 4
    then have "\<forall>i \<in> set ch. printable i" using "1.IH"(2) "1.prems"(1) by auto
    then show ?thesis using 4 k by simp
  qed (use k in simp_all)
qed

lemma parse_render:
  assumes i: "canonical 1000 i" "ckey i = None"
  shows "cJSON_ParseWithOpts [] (Some (render fmt d i)) req
    = Some \<lparr>parsed = Some i, parse_end = Some (length (render fmt d i)), error_position = None\<rparr>"
proof -
  let ?s = "render fmt d i"
  define b where "b = start_buffer [] ?s"
  obtain c u where c: "?s = c # u" "32 < code c" "code c < 128" using render_start[OF i(1)] by blast
  have b: "buffer_at_offset b = ?s @ NUL # []" "hooks b = []" "depth b = 0" "offset b = 0" "content b = ?s @ [NUL]"
    by (simp_all add: b_def start_buffer_def buffer_at_offset_def)
  have "c \<noteq> CHR 0xEF" using c(3) by auto
  then have bom: "skip_utf8_bom b = Some b" using b c(1) by (simp add: skip_utf8_bom_def)
  have ws: "buffer_skip_whitespace b = b" using skip_blank[of b "[]" c "u @ [NUL]"] b(1) c by simp
  have pv: "parse_value (enough_fuel ?s) blank_item b = Ok i (skip (length ?s) b)"
    using reparsesD[OF canonical_reparses[OF i(1)] b(1), of "enough_fuel ?s" 0] b i(2)
    by (simp add: enough_fuel_def blank_item_def)
  have off: "offset (skip (length ?s) b) = length ?s" using b by (simp add: skip_def)
  have at: "buffer_at_offset (skip (length ?s) b) = [NUL]" by (rule at_skip[OF b(1)])
  have ws2: "buffer_skip_whitespace (skip (length ?s) b) = skip (length ?s) b"
    using b by (simp add: buffer_skip_whitespace_def Let_def) (simp add: skip_def step_back_def)
  show ?thesis
    using b(2) bom ws pv off ws2 peek_at[OF at]
    by (simp add: cJSON_ParseWithOpts_def flip: b_def)
qed

text \<open>C6: Printing a canonical item, formatted or not, and parsing the text gives back exactly
  that item: every string, number, name and nesting level survives, and the parser stops at
  the end of the text.\<close>

theorem print_parse_roundtrip:
  assumes "canonical 1000 i" and "ckey i = None"
    and "length (render fmt 0 i) + 2 \<le> 2147483647"
  shows "\<exists>s. print (Some i) fmt realloc [] = Printed s
    \<and> cJSON_ParseWithOpts [] (Some s) req
      = Some \<lparr>parsed = Some i, parse_end = Some (length s), error_position = None\<rparr>"
  using print_ok[OF canonical_printable[OF assms(1)]] parse_render[OF assms(1,2)] assms(2,3) by auto

definition sample_tree :: cJSON where
  "sample_tree = CJSON 64 None 0 (Fin 0) None
     [CJSON 8 None (-7) (dbl_int (-7)) (Some ''n'') [],
      CJSON 32 None 0 (Fin 0) (Some [QUOTE, CHR 0x0A, CHR 0x01])
        [CJSON 16 (Some ''a'') 0 (Fin 0) None [], CJSON 2 None 1 (Fin 0) None []]]"

lemma sample_tree_canonical: "canonical 1000 sample_tree" "ckey sample_tree = None"
  by (simp_all add: sample_tree_def named_def int15_def saturate_def INT_MAX_def INT_MIN_def)

lemma sample_tree_length:
  "length (render True 0 sample_tree) \<le> 60"
  by (simp add: sample_tree_def render_string_def escape_char_def short_escape_def u04x_def tabs_def
    number_text_int[of "-7", simplified] show_int_def dec_digits.simps)

theorem print_parse_roundtrip_witness:
  "\<exists>s. print (Some sample_tree) True False [] = Printed s
    \<and> cJSON_ParseWithOpts [] (Some s) True
      = Some \<lparr>parsed = Some sample_tree, parse_end = Some (length s), error_position = None\<rparr>"
  using print_parse_roundtrip[OF sample_tree_canonical, of True False True] sample_tree_length by simp

end
