(* ===== verification/ParseSafety.thy ===== *)
theory ParseSafety
  imports JsonParse
begin

text \<open>
  The parser on a C string: it never reads outside the input nor writes outside the block of
  a string, always returns (the fuel is enough), and consumes input.
\<close>

section \<open>Safety of the string parser\<close>

text \<open>
  A well-formed buffer: the input is a C string with its NUL, and the offset is inside.
\<close>

definition c_input :: "bytes \<Rightarrow> bool" where
  "c_input xs \<longleftrightarrow> xs \<noteq> [] \<and> last xs = NUL \<and> nul_free (butlast xs)"

definition good :: "parse_buffer \<Rightarrow> bool" where
  "good b \<longleftrightarrow> c_input (content b) \<and> offset b < length (content b)"

lemmas buffer_defs = skip_def step_back_def enter_def leave_def peek_def buffer_at_offset_def
  can_access_at_index_def

lemma good_at:
  assumes "good b"
  obtains s where "buffer_at_offset b = s @ [NUL]" and "nul_free s"
    and "length (content b) = offset b + length s + 1"
proof -
  define t where "t = butlast (content b)"
  have ne: "content b \<noteq> []" "last (content b) = NUL" and nf: "nul_free t"
    and lt: "offset b < length (content b)"
    using assms by (simp_all add: good_def c_input_def t_def)
  have t: "content b = t @ [NUL]"
    using append_butlast_last_id[OF ne(1)] unfolding ne(2) t_def by (rule sym)
  have "buffer_at_offset b = drop (offset b) t @ [NUL]"
    using t lt by (simp add: buffer_at_offset_def)
  moreover have "nul_free (drop (offset b) t)"
    using nf by (rule nul_free_drop)
  moreover have "length (content b) = offset b + length (drop (offset b) t) + 1"
    using t lt by simp
  ultimately show thesis by (rule that)
qed

lemma good_peek: "good b \<Longrightarrow> peek b 0 \<noteq> None"
  by (auto simp: good_def peek_def buffer_at_offset_def)

lemma good_skip:
  assumes "good b" and "n < length (buffer_at_offset b)"
  shows "good (skip n b)"
  using assms by (simp add: good_def buffer_at_offset_def skip_def)

lemma good_skip_1:
  assumes "good b" and "peek b 0 = Some c" and "c \<noteq> NUL"
  shows "good (skip 1 b)"
  using good_at[OF assms(1)]
proof cases
  case (1 s)
  then have "s \<noteq> []" using assms(2,3) by (auto simp: peek_def)
  then show ?thesis using assms(1) 1 by (intro good_skip) (cases s, auto)
qed

lemma skip_whitespace_props:
  assumes "good b"
  shows "good (buffer_skip_whitespace b)" and "offset b \<le> offset (buffer_skip_whitespace b)"
    and "content (buffer_skip_whitespace b) = content b"
    and "depth (buffer_skip_whitespace b) = depth b"
    and "hooks (buffer_skip_whitespace b) = hooks b"
proof -
  let ?w = "length (takeWhile (\<lambda>c. code c \<le> 32) (buffer_at_offset b))"
  have w: "?w \<le> length (content b) - offset b"
    using length_takeWhile_le[of "\<lambda>c. code c \<le> 32" "buffer_at_offset b"]
    by (simp add: buffer_at_offset_def)
  have lt: "offset b < length (content b)" using assms by (simp add: good_def)
  show "good (buffer_skip_whitespace b)" and "offset b \<le> offset (buffer_skip_whitespace b)"
    using assms w lt by (auto simp: buffer_skip_whitespace_def good_def skip_def step_back_def Let_def)
qed (simp_all add: buffer_skip_whitespace_def skip_def step_back_def Let_def)

text \<open>The number of bytes \<open>unescape\<close> may store: one per byte, one per pair behind a backslash.\<close>

function stored :: "bytes \<Rightarrow> nat \<Rightarrow> nat" where
  "stored s n = (if n = 0 then 0 else if nth_opt s 0 = Some BSLASH
     then 1 + stored (drop 2 s) (n - 2) else 1 + stored (drop 1 s) (n - 1))"
  by pat_completeness auto
termination by (relation "measure snd") auto

declare stored.simps [simp del]

lemma stored_0 [simp]: "stored s 0 = 0"
  by (simp add: stored.simps)

lemma stored_step:
  "0 < n \<Longrightarrow> stored (drop 1 s) (n - 1) \<le> stored s n \<and> stored s n \<le> 1 + stored (drop 1 s) (n - 1)"
proof (induction n arbitrary: s rule: less_induct)
  case (less n)
  let ?t = "drop 1 s"
  show ?case
  proof (cases "nth_opt s 0 = Some BSLASH")
    case True
    then have eq: "stored s n = 1 + stored (drop 1 ?t) (n - 1 - 1)"
      using less.prems by (subst stored.simps) (simp add: numeral_2_eq_2)
    show ?thesis
    proof (cases "n = 1")
      case False
      with less.prems have "n - 1 < n" "0 < n - 1" by auto
      from less.IH[OF this, of ?t] show ?thesis by (simp add: eq)
    next
      case True
      then show ?thesis using eq by simp
    qed
  next
    case False
    then have "stored s n = 1 + stored ?t (n - 1)"
      using less.prems by (subst stored.simps) simp
    then show ?thesis by simp
  qed
qed

lemma stored_mono: "stored (drop k s) (n - k) \<le> stored s n"
proof (induction k arbitrary: s n)
  case (Suc k)
  have "stored (drop 1 s) (n - 1) \<le> stored s n"
    using stored_step[of n s] by (cases "n = 0") auto
  moreover have "stored (drop (Suc k) s) (n - Suc k) \<le> stored (drop 1 s) (n - 1)"
    using Suc[of "drop 1 s" "n - 1"] by simp
  ultimately show ?case by simp
qed simp

lemma stored_plain:
  assumes "k \<le> n" and "\<And>i. i < k \<Longrightarrow> nth_opt s i \<noteq> Some BSLASH"
  shows "stored s n = k + stored (drop k s) (n - k)"
  using assms
proof (induction k arbitrary: s n)
  case (Suc k)
  have "stored s n = 1 + stored (drop 1 s) (n - 1)"
    using Suc.prems by (subst stored.simps) auto
  also have "stored (drop 1 s) (n - 1) = k + stored (drop k (drop 1 s)) (n - 1 - k)"
    using Suc.prems by (intro Suc.IH) (auto simp: nth_opt_drop)
  finally show ?case by simp
qed simp

text \<open>What the scan for the closing quote finds.\<close>

lemma scan_string_props:
  assumes "scan_string s l k = Some (l', k')"
  shows "l \<le> l' \<and> k \<le> k' \<and> nth_opt s (l' - l) = Some QUOTE
    \<and> stored s (l' - l) + (k' - k) = l' - l"
  using assms
proof (induction s l k rule: scan_string.induct)
  case (3 c d s l k)
  consider "c = QUOTE" | "c = BSLASH" | "c \<noteq> QUOTE" "c \<noteq> BSLASH" by blast
  then show ?case
  proof cases
    case 1
    then show ?thesis using "3.prems" by simp
  next
    case 2
    then have IH: "l + 2 \<le> l' \<and> k + 1 \<le> k' \<and> nth_opt s (l' - (l + 2)) = Some QUOTE
        \<and> stored s (l' - (l + 2)) + (k' - (k + 1)) = l' - (l + 2)"
      using "3.IH"(1) "3.prems" by simp
    obtain j where j: "l' = l + 2 + j" using IH le_Suc_ex by blast
    have "stored (c # d # s) (l' - l) = 1 + stored s j"
      using j 2 by (subst stored.simps) simp
    then show ?thesis using IH j by (simp add: numeral_2_eq_2) arith
  next
    case 3
    then have IH: "l + 1 \<le> l' \<and> k \<le> k' \<and> nth_opt (d # s) (l' - (l + 1)) = Some QUOTE
        \<and> stored (d # s) (l' - (l + 1)) + (k' - k) = l' - (l + 1)"
      using "3.IH"(2) "3.prems" by simp
    obtain j where j: "l' = l + 1 + j" using IH le_Suc_ex by blast
    have "stored (c # d # s) (l' - l) = 1 + stored (d # s) j"
      using j 3 by (subst stored.simps) simp
    then show ?thesis using IH j by simp
  qed
qed (auto split: if_splits)

section \<open>Hexadecimal escapes\<close>

lemma hex4_loop_reads: "i \<le> length s \<Longrightarrow> hex4_loop i h s \<noteq> None"
  by (induction i h s rule: hex4_loop.induct) (auto simp: Let_def split: option.splits)

lemma hex_val_not_BSLASH: "hex_val BSLASH = None"
  by (simp add: hex_val_def)

lemma hex4_loop_valid:
  "hex4_loop i h s = Some v \<Longrightarrow> v \<noteq> 0 \<Longrightarrow> j < i \<Longrightarrow> nth_opt s j \<noteq> Some BSLASH"
proof (induction i h s arbitrary: j rule: hex4_loop.induct)
  case (3 i h c s)
  then obtain w where w: "hex_val c = Some w" by (auto split: option.splits)
  then have "c \<noteq> BSLASH" using hex_val_not_BSLASH by auto
  then show ?case using 3 w by (cases j) (auto simp: Let_def)
qed auto

lemma length_utf8_tail: "length (snd (utf8_tail n cp acc)) = n + length acc"
  by (induction n cp acc rule: utf8_tail.induct) auto

lemma length_utf8_encode [simp]: "length (utf8_encode cp) = utf8_length cp"
proof -
  have "length (snd (utf8_tail (utf8_length cp - 1) cp [])) = utf8_length cp - 1"
    by (simp add: length_utf8_tail)
  then show ?thesis
    by (auto simp: utf8_encode_def Let_def utf8_length_def split: prod.splits if_splits)
qed

lemma utf8_length_le: "utf8_length cp \<le> 4" and utf8_length_0 [simp]: "utf8_length 0 = 1"
  by (auto simp: utf8_length_def)

lemma stored_unit:
  assumes "nth_opt s 0 = Some BSLASH" and "6 \<le> n"
    and "parse_hex4 (drop 2 s) = Some v"
  shows "(if v = 0 then 1 else 5) + stored (drop 6 s) (n - 6) \<le> stored s n"
proof -
  have eq: "stored s n = 1 + stored (drop 2 s) (n - 2)"
    using assms by (subst stored.simps) simp
  show ?thesis
  proof (cases "v = 0")
    case True
    then show ?thesis using stored_mono[of 4 "drop 2 s" "n - 2"] eq by simp
  next
    case False
    then have "\<And>i. i < 4 \<Longrightarrow> nth_opt (drop 2 s) i \<noteq> Some BSLASH"
      using hex4_loop_valid assms(3) by (simp add: parse_hex4_def)
    then have "stored (drop 2 s) (n - 2) = 4 + stored (drop 4 (drop 2 s)) (n - 2 - 4)"
      using assms(2) by (intro stored_plain) auto
    then show ?thesis using eq False by simp
  qed
qed

lemma encode_codepoint_UOk:
  "encode_codepoint cp len = UOk us l \<Longrightarrow> l = len \<and> length us = utf8_length cp"
  by (auto simp: encode_codepoint_def split: if_splits)

lemma utf16_safe:
  assumes "nth_opt s 0 = Some BSLASH" and "n < length s"
  shows "utf16_literal_to_utf8 s n \<noteq> UFault"
    and "utf16_literal_to_utf8 s n = UOk us len \<Longrightarrow>
      0 < len \<and> len \<le> n \<and> length us + stored (drop len s) (n - len) \<le> stored s n"
proof -
  have hex: "parse_hex4 (drop k s) \<noteq> None" if "k + 4 \<le> length s" for k
    unfolding parse_hex4_def using that by (intro hex4_loop_reads) simp
  obtain v where v: "6 \<le> n \<Longrightarrow> parse_hex4 (drop 2 s) = Some v"
    using hex[of 2] assms(2) by fastforce
  obtain w where w: "12 \<le> n \<Longrightarrow> parse_hex4 (drop 8 s) = Some w"
    using hex[of 8] assms(2) by fastforce
  have six: "12 \<le> n \<Longrightarrow> nth_opt s 6 = Some (s ! 6) \<and> nth_opt s 7 = Some (s ! 7)"
    using assms(2) by (simp add: nth_opt_def)
  show "utf16_literal_to_utf8 s n \<noteq> UFault"
    using v w six by (auto simp: utf16_literal_to_utf8_def encode_codepoint_def)
  assume ok: "utf16_literal_to_utf8 s n = UOk us len"
  then have n: "6 \<le> n" by (auto simp: utf16_literal_to_utf8_def split: if_splits)
  note v = v[OF n]
  have unit: "(if v = 0 then 1 else 5) + stored (drop 6 s) (n - 6) \<le> stored s n"
    using stored_unit[OF assms(1) n v] .
  show "0 < len \<and> len \<le> n \<and> length us + stored (drop len s) (n - len) \<le> stored s n"
  proof (cases "0xD800 \<le> v \<and> v \<le> 0xDBFF")
    case True
    then have v0: "v \<noteq> 0" by auto
    from True ok n v have m: "12 \<le> n" by (auto simp: utf16_literal_to_utf8_def split: if_splits)
    from True ok v n have c: "s ! 6 = BSLASH" and w0: "\<not> w < 0xDC00"
      and us: "len = 12" "length us \<le> 4"
      using six[OF m] w[OF m] utf8_length_le
      by (auto simp: utf16_literal_to_utf8_def dest!: encode_codepoint_UOk split: if_splits)
    have "w \<noteq> 0" using w0 by auto
    moreover have "(if w = 0 then 1 else 5) + stored (drop 6 (drop 6 s)) (n - 6 - 6) \<le> stored (drop 6 s) (n - 6)"
      by (rule stored_unit) (use m w[OF m] six[OF m] c in \<open>simp_all add: nth_opt_drop\<close>)
    ultimately show ?thesis using unit v0 us m by simp
  next
    case False
    then have "encode_codepoint (ucast v) 6 = UOk us len"
      using ok n v by (auto simp: utf16_literal_to_utf8_def split: if_splits)
    then have us: "len = 6" "length us = utf8_length (ucast v)"
      by (auto dest: encode_codepoint_UOk)
    then have "length us \<le> (if v = 0 then 1 else 5)"
      using utf8_length_le[of "ucast v"] by simp
    then show ?thesis using unit us n by simp
  qed
qed

lemma unescape_safe:
  assumes "n = 0 \<or> n < length s" and "length out + stored s n < cap"
  shows "unescape s n out cap \<noteq> SFault"
  using assms
proof (induction s n out cap rule: unescape.induct)
  case (1 s n out cap)
  show ?case
  proof (cases "n = 0")
    case True
    then show ?thesis using "1.prems" by (simp add: unescape.simps)
  next
    case False
    then have lt: "n < length s" using "1.prems" by simp
    then obtain c where c: "nth_opt s 0 = Some c" by (cases s) auto
    have rest: "n - k = 0 \<or> n - k < length (drop k s)" for k using lt by auto
    show ?thesis
    proof (cases "c = BSLASH")
      case plain: False
      have "stored s n = 1 + stored (drop 1 s) (n - 1)"
        using False c plain by (subst stored.simps) simp
      then show ?thesis
        using "1.IH"(1)[OF False c plain] rest[of 1] "1.prems" False c plain
        by (subst unescape.simps) auto
    next
      case True
      obtain d where d: "nth_opt s 1 = Some d"
        using lt False by (cases "nth_opt s 1") auto
      have st: "stored s n = 1 + stored (drop 2 s) (n - 2)"
        using False c True by (subst stored.simps) simp
      show ?thesis
      proof (cases "simple_escape d")
        case (Some e)
        then show ?thesis
          using "1.IH"(3)[OF False c _ d Some] rest[of 2] "1.prems" False c True d st
          by (subst unescape.simps) auto
      next
        case None
        show ?thesis
        proof (cases "utf16_literal_to_utf8 s n")
          case (UOk us len)
          have u: "0 < len" "len \<le> n" "length us + stored (drop len s) (n - len) \<le> stored s n"
            using utf16_safe(2)[of s n us len] c True lt UOk by auto
          show ?thesis
            using "1.IH"(2)[OF False c _ d None _ UOk] rest[of len] u "1.prems" False c True d None UOk
            by (subst unescape.simps) auto
        next
          case UFail
          then show ?thesis using False c True d None by (subst unescape.simps) simp
        next
          case UFault
          then show ?thesis using utf16_safe(1)[of s n] c True lt by simp
        qed
      qed
    qed
  qed
qed

section \<open>One parsing function\<close>

text \<open>A result of a parsing function that is as it should be; \<open>enough\<close> is what rules out
  running out of fuel.\<close>

definition progress :: "bool \<Rightarrow> parse_buffer \<Rightarrow> 'a outcome \<Rightarrow> bool" where
  "progress enough b r = (case r of
     Ok x b' \<Rightarrow> good b' \<and> offset b < offset b' \<and> content b' = content b \<and> depth b' = depth b
   | Fail b' \<Rightarrow> content b' = content b
   | Fault \<Rightarrow> False
   | OutOfFuel \<Rightarrow> \<not> enough)"

lemma progress_simps [simp]:
  "progress e b (Ok x b') \<longleftrightarrow>
     good b' \<and> offset b < offset b' \<and> content b' = content b \<and> depth b' = depth b"
  "progress e b (Fail b') \<longleftrightarrow> content b' = content b"
  "progress e b Fault \<longleftrightarrow> False"
  "progress e b OutOfFuel \<longleftrightarrow> \<not> e"
  by (simp_all add: progress_def)

lemma parse_string_safe:
  assumes "good b"
  shows "progress e b (parse_string item b)"
proof -
  obtain q where q: "peek b 0 = Some q" using good_peek[OF assms] by auto
  show ?thesis
  proof (cases "q = QUOTE")
    case False
    then show ?thesis using q by (simp add: parse_string_def skip_def)
  next
    case True
    have g: "good (skip 1 b)" by (rule good_skip_1[OF assms q]) (simp add: True)
    let ?s = "buffer_at_offset (skip 1 b)"
    show ?thesis
    proof (cases "scan_string ?s 0 0")
      case None
      then show ?thesis using q True by (simp add: parse_string_def skip_def)
    next
      case (Some lk)
      obtain l k where lk: "scan_string ?s 0 0 = Some (l, k)" using Some by (cases lk) auto
      have sc: "nth_opt ?s l = Some QUOTE" "stored ?s l + k = l"
        using scan_string_props[OF lk] by auto
      obtain t where t: "?s = t @ [NUL]" using good_at[OF g] by metis
      then have l: "l < length t" using sc(1) by (auto simp: nth_opt_def nth_append split: if_splits)
      then have l2: "offset b + 1 + l + 1 < length (content b)"
        using t by (auto simp: buffer_at_offset_def skip_def dest!: arg_cong[where f = length])
      obtain ok m where al: "alloc (hooks b) = (ok, m)" by force
      have safe: "unescape ?s l [] (l + 1 - k + 1) \<noteq> SFault"
        by (rule unescape_safe) (use sc l t in auto)
      have b1: "buffer_at_offset ((skip 1 b)\<lparr>hooks := m\<rparr>) = ?s"
        by (simp add: buffer_at_offset_def)
      have same: "content (skip i ((skip 1 b)\<lparr>hooks := m\<rparr>)) = content b" for i
        by (simp add: skip_def)
      show ?thesis
        using q True lk al safe b1 same assms l2
        by (auto simp: parse_string_def Let_def skip_def good_def split: string_result.splits)
    qed
  qed
qed

lemma copy_number_prefix: "length (copy_number n (s @ NUL # t)) \<le> length s"
proof (induction n "s @ NUL # t" arbitrary: s rule: copy_number.induct)
  case (3 n c s')
  show ?case
  proof (cases s)
    case Nil
    then show ?thesis using 3 by (simp add: is_number_char_def is_digit_def)
  next
    case (Cons d s'')
    then show ?thesis using 3 by simp
  qed
qed auto

lemma strtod_length: "snd (strtod s) \<le> length s"
  by (auto simp: strtod_def Let_def split: prod.splits)

lemma parse_number_safe:
  assumes "good b"
  shows "progress e b (parse_number item b)"
  using good_at[OF assms]
proof cases
  case (1 s)
  obtain d n where dn: "strtod (copy_number 63 (buffer_at_offset b)) = (d, n)" by force
  have "n \<le> length s"
    using order_trans[OF strtod_length copy_number_prefix[of 63 s "[]"]] dn 1(1) by simp
  then show ?thesis using dn 1 assms by (simp add: parse_number_def good_def skip_def)
qed

section \<open>The mutual recursion\<close>

text \<open>Enough fuel for each of the functions, by the bytes that are left.\<close>

definition left :: "parse_buffer \<Rightarrow> nat" where
  "left b = length (content b) - offset b"

lemma progress_and_then:
  assumes "progress e b r"
    and "\<And>x b'. r = Ok x b' \<Longrightarrow> good b' \<Longrightarrow> offset b < offset b' \<Longrightarrow> content b' = content b
      \<Longrightarrow> depth b' = depth b \<Longrightarrow> progress e b (k x b')"
  shows "progress e b (and_then r k)"
  using assms by (cases r) (auto simp: and_then_def)

lemma progress_weaken:
  assumes "progress e' b' r" and "content b' = content b" and "offset b \<le> offset b'"
    and "depth b' = depth b" and "e \<longrightarrow> e'"
  shows "progress e b r"
  using assms by (cases r) auto

lemma leave_enter:
  assumes "good b" and "peek b 0 = Some c" and "c \<noteq> NUL"
  shows "good (leave b)" and "offset (leave b) = offset b + 1"
    and "content (leave b) = content b" and "depth (leave b) = depth b - 1"
  using good_skip_1[OF assms] by (simp_all add: leave_def skip_def good_def)

lemma looking_at_safe:
  assumes "good b" and "looking_at b s" and "nul_free s"
  shows "good (skip (length s) b)"
  using good_at[OF assms(1)]
proof cases
  case (1 t)
  have "take (length s) (t @ [NUL]) = s" "length s \<le> length (t @ [NUL])"
    using assms(2) 1 by (auto simp: looking_at_def can_read_def)
  then have "length s \<noteq> length (t @ [NUL])" using assms(3) by auto
  with \<open>length s \<le> _\<close> have "length s < length (t @ [NUL])" by simp
  then show ?thesis using assms(1) 1 by (intro good_skip) auto
qed

lemma progress_mono: "progress e' b r \<Longrightarrow> (e \<Longrightarrow> e') \<Longrightarrow> progress e b r"
  by (cases r) auto

lemma after_opening:
  assumes "good b" and "peek b 0 = Some c" and "c \<noteq> NUL"
  defines "b1 \<equiv> buffer_skip_whitespace (skip 1 (enter b))"
  shows "good b1" and "offset b < offset b1" and "content b1 = content b" and "depth b1 = depth b + 1"
    and "can_access_at_index b1 0" and "skip 1 (step_back b1) = b1"
    and "content (step_back b1) = content b" and "left (step_back b1) \<le> left b"
    and "depth (step_back b1) = depth b + 1" and "offset b \<le> offset (step_back b1)"
proof -
  have g: "good (skip 1 (enter b))"
    using good_skip_1[OF assms(1-3)] by (simp add: good_def skip_def enter_def)
  note w = skip_whitespace_props[OF g]
  show "good b1" using w by (simp add: b1_def)
  show lt: "offset b < offset b1" using w by (simp add: b1_def skip_def enter_def)
  show c: "content b1 = content b" and "depth b1 = depth b + 1"
    using w by (simp_all add: b1_def skip_def enter_def)
  then show "content (step_back b1) = content b" and "depth (step_back b1) = depth b + 1"
    by (simp_all add: step_back_def)
  show "can_access_at_index b1 0" using \<open>good b1\<close> by (simp add: good_def can_access_at_index_def)
  show "skip 1 (step_back b1) = b1" using lt by (simp add: skip_def step_back_def)
  show "left (step_back b1) \<le> left b" and "offset b \<le> offset (step_back b1)"
    using lt c by (simp_all add: left_def step_back_def)
qed

lemma next_element:
  assumes "good (skip 1 b)" and "new_item b = Ok item b1"
  defines "b2 \<equiv> buffer_skip_whitespace (skip 1 b1)"
  shows "good b2" and "offset b < offset b2" and "content b2 = content b" and "depth b2 = depth b"
    and "left b2 < left b"
proof -
  have b1: "content b1 = content b" "offset b1 = offset b" "depth b1 = depth b"
    using assms(2) by (auto simp: new_item_def cJSON_New_Item_def Let_def split: prod.splits if_splits)
  then have g: "good (skip 1 b1)" using assms(1) by (simp add: good_def skip_def)
  note w = skip_whitespace_props[OF g]
  show "good b2" and "offset b < offset b2" and "content b2 = content b" and "depth b2 = depth b"
    using w b1 by (simp_all add: b2_def skip_def)
  then show "left b2 < left b" by (auto simp: left_def good_def diff_less_mono2)
qed

lemma new_item_cases:
  obtains (ok) b1 where "new_item b = Ok blank_item b1"
  | (fail) b1 where "new_item b = Fail b1" "content b1 = content b"
proof (cases "alloc (hooks b)")
  case (Pair a m)
  then show thesis using that by (cases a) (auto simp: new_item_def cJSON_New_Item_def)
qed

text \<open>The part of \<open>parse_array\<close> and \<open>parse_object\<close> behind the opening bracket.\<close>

lemma bracketed:
  fixes r :: "cJSON list outcome"
  assumes b: "good b" and c: "peek b 0 = Some c" "c \<noteq> NUL" and d: "d \<noteq> NUL"
  defines "b1 \<equiv> buffer_skip_whitespace (skip 1 (enter b))"
  assumes r: "peek b1 0 \<noteq> Some d \<Longrightarrow> progress e' (step_back b1) r" and e: "e \<Longrightarrow> e'"
  shows "progress e b (if peek b1 0 = Some d then Ok x (leave b1)
      else if \<not> can_access_at_index b1 0 then Fail (step_back b1)
      else and_then r (\<lambda>items b2. if peek b2 0 = Some d then Ok (g items) (leave b2) else Fail b2))"
proof (cases "peek b1 0 = Some d")
  case True
  note o = after_opening[OF b c]
  then show ?thesis using leave_enter[of b1 d] True d by (simp add: b1_def)
next
  case False
  note o = after_opening[OF b c]
  show ?thesis
  proof (cases r)
    case (Ok items b2)
    then have p: "good b2" "offset b < offset b2" "content b2 = content b" "depth b2 = depth b + 1"
      using r[OF False] o by (auto simp: b1_def)
    then show ?thesis using leave_enter[of b2 d] False o d Ok by (auto simp: b1_def and_then_def)
  next
    case (Fail b2)
    then show ?thesis using r[OF False] False o by (auto simp: b1_def and_then_def)
  qed (use r[OF False] False o e in \<open>auto simp: b1_def and_then_def\<close>)
qed

lemma parse_safe:
  shows "good b \<Longrightarrow> progress (3 * left b \<le> f) b (parse_value f item b)"
    and "good b \<Longrightarrow> progress (3 * left b - 1 \<le> f) b (parse_array f item b)"
    and "good (skip 1 b) \<Longrightarrow> progress (3 * left b - 2 \<le> f) b (array_items f b)"
    and "good b \<Longrightarrow> progress (3 * left b - 1 \<le> f) b (parse_object f item b)"
    and "good (skip 1 b) \<Longrightarrow> progress (3 * left b - 2 \<le> f) b (object_items f b)"
proof (induction f item b and f item b and f b and f item b and f b
    rule: parse_value_parse_array_array_items_parse_object_object_items.induct)
  case (2 f item b)
  then obtain c where c: "peek b 0 = Some c" using good_peek by fastforce
  have lit: "good (skip n b)" if "looking_at b s" "nul_free s" "length s = n" for s n
    using looking_at_safe[OF "2.prems" that(1,2)] that(3) by simp
  have "progress (3 * left b \<le> Suc f) b (parse_array f item b)" if "c = CHR ''[''"
    "\<not> looking_at b ''null''" "\<not> looking_at b ''false''" "\<not> looking_at b ''true''"
    by (rule progress_mono[OF "2.IH"(1)]) (use that c "2.prems" in \<open>auto simp: is_number_start_def is_digit_def\<close>)
  moreover have "progress (3 * left b \<le> Suc f) b (parse_object f item b)" if "c = CHR ''{''"
    "\<not> looking_at b ''null''" "\<not> looking_at b ''false''" "\<not> looking_at b ''true''"
    by (rule progress_mono[OF "2.IH"(2)]) (use that c "2.prems" in \<open>auto simp: is_number_start_def is_digit_def\<close>)
  ultimately show ?case
    using c lit[of "''null''" 4] lit[of "''false''" 5] lit[of "''true''" 4]
      parse_string_safe[OF "2.prems"] parse_number_safe[OF "2.prems"]
    by (simp add: skip_def)
next
  case (4 f item b)
  then obtain c where c: "peek b 0 = Some c" using good_peek by fastforce
  have c': "peek (enter b) 0 = Some c" using c by (simp add: peek_def buffer_at_offset_def enter_def)
  let ?b1 = "buffer_skip_whitespace (skip 1 (enter b))"
  show ?case
  proof (cases "depth b < CJSON_NESTING_LIMIT \<and> c = CHR ''[''")
    case True
    then have op: "c \<noteq> NUL" by auto
    note o = after_opening[OF "4.prems" c op]
    have it: "progress (3 * left (step_back ?b1) - 2 \<le> f) (step_back ?b1) (array_items f (step_back ?b1))"
      if "peek ?b1 0 \<noteq> Some (CHR '']'')"
      by (rule "4.IH") (use True c' o that in auto)
    have eq: "parse_array (Suc f) item b = (if peek ?b1 0 = Some (CHR '']'')
        then Ok (with_children [] (with_type cJSON_Array item)) (leave ?b1)
        else if \<not> can_access_at_index ?b1 0 then Fail (step_back ?b1)
        else and_then (array_items f (step_back ?b1)) (\<lambda>items b2.
          if peek b2 0 = Some (CHR '']'') then Ok (with_children items (with_type cJSON_Array item)) (leave b2)
          else Fail b2))"
      using True c' by (simp add: Let_def)
    show ?thesis unfolding eq
      by (rule bracketed[OF "4.prems" c op _ it]) (use o(8) in auto)
  next
    case False
    then show ?thesis using c' by (auto simp: enter_def)
  qed
next
  case (6 f b)
  show ?case
  proof (cases rule: new_item_cases[of b])
    case (ok b1)
    note n = next_element[OF "6.prems" ok]
    let ?b2 = "buffer_skip_whitespace (skip 1 b1)"
    have v: "progress (3 * left b - 2 \<le> Suc f) b (parse_value f blank_item ?b2)"
      by (rule progress_weaken[OF "6.IH"(1)[OF n(1)]]) (use n in auto)
    have "progress (3 * left b - 2 \<le> Suc f) b
        (let b3 = buffer_skip_whitespace b2 in if peek b3 0 = Some (CHR '','')
         then and_then (array_items f b3) (\<lambda>items b4. Ok (x # items) b4) else Ok [x] b3)"
      if r: "parse_value f blank_item ?b2 = Ok x b2" and g: "good b2" "offset b < offset b2"
        "content b2 = content b" "depth b2 = depth b" for x b2
    proof -
      let ?b3 = "buffer_skip_whitespace b2"
      note w = skip_whitespace_props[OF g(1)]
      have "progress (3 * left b - 2 \<le> Suc f) b (array_items f ?b3)"
        if p: "peek ?b3 0 = Some (CHR '','')"
        by (rule progress_weaken[OF "6.IH"(2)[OF refl p good_skip_1[OF w(1) p]]])
          (use w g n in \<open>auto simp: left_def\<close>)
      then show ?thesis using w g
        by (auto simp: Let_def intro!: progress_and_then)
    qed
    then show ?thesis using v by (auto simp: ok and_then_def[of "Ok _ _"] intro!: progress_and_then)
  next
    case (fail b1)
    then show ?thesis by (simp add: and_then_def)
  qed
next
  case (8 f item b)
  then obtain c where c: "peek b 0 = Some c" using good_peek by fastforce
  have c': "peek (enter b) 0 = Some c" using c by (simp add: peek_def buffer_at_offset_def enter_def)
  let ?b1 = "buffer_skip_whitespace (skip 1 (enter b))"
  show ?case
  proof (cases "depth b < CJSON_NESTING_LIMIT \<and> c = CHR ''{''")
    case True
    then have op: "c \<noteq> NUL" by auto
    note o = after_opening[OF "8.prems" c op]
    have it: "progress (3 * left (step_back ?b1) - 2 \<le> f) (step_back ?b1) (object_items f (step_back ?b1))"
      if "peek ?b1 0 \<noteq> Some (CHR ''}'')"
      by (rule "8.IH") (use True c' o that in auto)
    have eq: "parse_object (Suc f) item b = (if peek ?b1 0 = Some (CHR ''}'')
        then Ok (with_children [] (with_type cJSON_Object item)) (leave ?b1)
        else if \<not> can_access_at_index ?b1 0 then Fail (step_back ?b1)
        else and_then (object_items f (step_back ?b1)) (\<lambda>items b2.
          if peek b2 0 = Some (CHR ''}'') then Ok (with_children items (with_type cJSON_Object item)) (leave b2)
          else Fail b2))"
      using True c' by (simp add: Let_def)
    show ?thesis unfolding eq
      by (rule bracketed[OF "8.prems" c op _ it]) (use o(8) in auto)
  next
    case False
    then show ?thesis using c' by (auto simp: enter_def)
  qed
next
  case (10 f b)
  show ?case
  proof (cases rule: new_item_cases[of b])
    case (ok b1)
    note n = next_element[OF "10.prems" ok]
    let ?b2 = "buffer_skip_whitespace (skip 1 b1)"
    define e where "e \<longleftrightarrow> 3 * left b - 2 \<le> Suc f"
    have str: "progress e b (parse_string blank_item ?b2)"
      by (rule progress_weaken[OF parse_string_safe[OF n(1)]]) (use n in auto)
    have "progress e b
       (let b3 = buffer_skip_whitespace b2; named = string_to_key item1
       in if peek b3 0 \<noteq> Some (CHR '':'') then Fail b3
          else and_then (parse_value f named (buffer_skip_whitespace (skip 1 b3))) (\<lambda>item2 b4.
            let b5 = buffer_skip_whitespace b4
            in if peek b5 0 = Some (CHR '','') then
                 and_then (object_items f b5) (\<lambda>items b6. Ok (item2 # items) b6)
               else Ok [item2] b5))"
      if g: "good b2" "offset b < offset b2" "content b2 = content b" "depth b2 = depth b" for item1 b2
    proof -
      let ?b3 = "buffer_skip_whitespace b2"
      let ?b4 = "buffer_skip_whitespace (skip 1 ?b3)"
      note w = skip_whitespace_props[OF g(1)]
      show ?thesis
      proof (cases "peek ?b3 0 = Some (CHR '':'')")
        case True
        have g3: "good (skip 1 ?b3)" using good_skip_1[OF w(1) True] by simp
        note w4 = skip_whitespace_props[OF g3]
        have "progress e b (parse_value f (string_to_key item1) ?b4)"
          by (rule progress_weaken[OF "10.IH"(1)[OF refl refl _ w4(1)]])
            (use True w w4 g in \<open>auto simp: e_def left_def skip_def\<close>)
        moreover have "progress e b (let b5 = buffer_skip_whitespace b4
            in if peek b5 0 = Some (CHR '','') then
                 and_then (object_items f b5) (\<lambda>items b6. Ok (x # items) b6)
               else Ok [x] b5)"
          if h: "good b4" "offset b < offset b4" "content b4 = content b" "depth b4 = depth b" for x b4
        proof -
          let ?b5 = "buffer_skip_whitespace b4"
          note w5 = skip_whitespace_props[OF h(1)]
          have "progress e b (object_items f ?b5)" if p: "peek ?b5 0 = Some (CHR '','')"
            by (rule progress_weaken[OF "10.IH"(2)[OF refl refl _ refl p good_skip_1[OF w5(1) p]]])
              (use True w5 h in \<open>auto simp: e_def left_def\<close>)
          then show ?thesis using w5 h by (auto simp: Let_def intro!: progress_and_then)
        qed
        ultimately show ?thesis using True
          by (simp add: Let_def) (rule progress_and_then, auto simp: Let_def)
      next
        case False
        then show ?thesis using w g by (simp add: Let_def)
      qed
    qed
    then show ?thesis using str unfolding e_def
      by (auto simp: ok and_then_def[of "Ok _ _"] intro!: progress_and_then)
  next
    case (fail b1)
    then show ?thesis by (simp add: and_then_def)
  qed
qed (auto simp: left_def good_def skip_def)

section \<open>The entry point\<close>

lemma start_buffer_good: "nul_free v \<Longrightarrow> good (start_buffer m v)"
  by (simp add: good_def c_input_def start_buffer_def)

lemma skip_utf8_bom_props:
  assumes "good b" and "offset b = 0"
  obtains b1 where "skip_utf8_bom b = Some b1" and "good b1" and "content b1 = content b"
    and "depth b1 = depth b" and "hooks b1 = hooks b"
proof (cases "can_access_at_index b 4 \<and> take 3 (buffer_at_offset b) = [CHR 0xEF, CHR 0xBB, CHR 0xBF]")
  case True
  show thesis by (rule that[of "skip 3 b"])
    (use True assms in \<open>simp_all add: skip_utf8_bom_def good_def skip_def can_access_at_index_def\<close>)
next
  case False
  show thesis by (rule that[of b]) (use False assms in \<open>auto simp: skip_utf8_bom_def\<close>)
qed

lemma error_report_bound:
  assumes "content b = v @ [NUL]"
  shows "\<exists>p. error_report b = \<lparr>parsed = None, parse_end = Some p, error_position = Some p\<rparr> \<and> p \<le> length v"
  using assms by (auto simp: error_report_def Let_def)

lemma parse_returns:
  assumes "nul_free v"
  shows "\<exists>r p. cJSON_ParseWithOpts m (Some v) req = Some r \<and> parse_end r = Some p \<and> p \<le> length v
    \<and> error_position r = (if parsed r = None then Some p else None)"
proof -
  note sg = start_buffer_good[OF assms, of m]
  show ?thesis
  proof (cases rule: new_item_cases[of "start_buffer m v"])
    case (fail b1)
    then show ?thesis using error_report_bound[of b1 v]
      by (auto simp: cJSON_ParseWithOpts_def start_buffer_def)
  next
    case (ok b)
    then have b: "content b = v @ [NUL]" "offset b = 0"
      by (auto simp: new_item_def cJSON_New_Item_def start_buffer_def split: prod.splits if_splits)
    then have g: "good b" using assms by (simp add: good_def c_input_def)
    from skip_utf8_bom_props[OF g b(2)] obtain b1
      where b1: "skip_utf8_bom b = Some b1" "good b1" "content b1 = content b" by metis
    let ?b = "buffer_skip_whitespace b1"
    let ?r = "parse_value (enough_fuel v) blank_item ?b"
    note w = skip_whitespace_props[OF b1(2)]
    have "left ?b \<le> length v + 1" using w b1 b by (simp add: left_def)
    then have ps: "progress True ?b ?r"
      by (intro progress_mono[OF parse_safe(1)[OF w(1)]]) (simp add: enough_fuel_def)
    show ?thesis
    proof (cases ?r)
      case (Ok item b2)
      then have b2: "good b2" "content b2 = v @ [NUL]" using ps w b1 b by auto
      note w2 = skip_whitespace_props[OF b2(1)]
      define b3 where "b3 = (if req then buffer_skip_whitespace b2 else b2)"
      have b3: "good b3" "content b3 = v @ [NUL]" using b2 w2 by (auto simp: b3_def)
      then have "offset b3 \<le> length v" by (simp add: good_def)
      then show ?thesis using ok b1 Ok error_report_bound[OF b3(2)]
        by (auto simp: cJSON_ParseWithOpts_def b3_def[symmetric])
    next
      case (Fail b2)
      then have "content b2 = v @ [NUL]" using ps w b1 b by auto
      from error_report_bound[OF this] show ?thesis using ok b1 Fail
        by (auto simp: cJSON_ParseWithOpts_def)
    qed (use ps in auto)
  qed
qed

text \<open>C5: On every C string and whatever the allocator answers, \<open>cJSON_ParseWithOpts\<close> returns,
  without reading outside the string (with its NUL) and without writing outside the block of
  a parsed string. The end position it reports, and the position it leaves in
  \<open>global_error\<close>, lie inside the string, and it reports an error position exactly when it
  returns NULL.\<close>

theorem parse_returns_safely:
  assumes "nul_free v"
  shows "\<exists>r p. cJSON_ParseWithOpts m (Some v) req = Some r \<and> parse_end r = Some p \<and> p \<le> length v
    \<and> error_position r = (if parsed r = None then Some p else None)"
  by (rule parse_returns[OF assms])

theorem parse_returns_safely_witness:
  "nul_free ''[1,'' \<and> (\<exists>r p. cJSON_ParseWithOpts [True, False] (Some ''[1,'') True = Some r
    \<and> parse_end r = Some p \<and> p \<le> 3 \<and> error_position r = (if parsed r = None then Some p else None))"
  using parse_returns_safely[of "''[1,''" "[True, False]" True] by (simp add: numeral_3_eq_3)

end
