(* ===== verification/ParseTypes.thy ===== *)
theory ParseTypes
  imports ParseSafety
begin

text \<open>
  The shape of what the parser returns: which types occur, and which fields go with them.
\<close>

text \<open>
  A parsed item carries one of the seven types without flags; an item of string type has its
  value string; members, and only they, are named.
\<close>

fun well_typed :: "cJSON \<Rightarrow> bool" where
  "well_typed (CJSON t vs vi vd k ch) =
     (t \<in> {cJSON_NULL, cJSON_False, cJSON_True, cJSON_Number, cJSON_String, cJSON_Array, cJSON_Object}
      \<and> (t = cJSON_String \<longrightarrow> vs \<noteq> None) \<and> (vi = saturate vd \<or> t \<noteq> cJSON_Number)
      \<and> (t = cJSON_Array \<or> t = cJSON_Object \<or> ch = [])
      \<and> (\<forall>i \<in> set ch. well_typed i \<and> (ckey i \<noteq> None \<longleftrightarrow> t = cJSON_Object)))"

definition gives :: "('a \<Rightarrow> bool) \<Rightarrow> 'a outcome \<Rightarrow> bool" where
  "gives P r \<longleftrightarrow> (\<forall>x b. r = Ok x b \<longrightarrow> P x)"

lemma gives_simps [simp]:
  "gives P (Ok x b) \<longleftrightarrow> P x" "gives P (Fail b)" "gives P Fault" "gives P OutOfFuel"
  by (auto simp: gives_def)

lemma gives_and_then:
  "gives P r \<Longrightarrow> (\<And>x b. P x \<Longrightarrow> gives Q (k x b)) \<Longrightarrow> gives Q (and_then r k)"
  by (cases r) (auto simp: and_then_def)

lemma new_item_gives: "gives (\<lambda>i. i = blank_item) (new_item b)"
  by (auto simp: new_item_def cJSON_New_Item_def split: prod.splits if_splits)

lemma parse_string_gives:
  "gives (\<lambda>i. ctype i = cJSON_String \<and> valuestring i \<noteq> None \<and> ckey i = ckey item \<and> child i = child item)
     (parse_string item b)"
  by (auto simp: parse_string_def Let_def split: option.splits prod.splits string_result.splits)

lemma parse_number_gives:
  "gives (\<lambda>i. ctype i = cJSON_Number \<and> valueint i = saturate (valuedouble i) \<and> ckey i = ckey item \<and> child i = child item)
     (parse_number item b)"
  by (auto simp: parse_number_def Let_def split: prod.splits)

lemma well_typed_leaf:
  assumes "child i = []" and "ctype i \<in> {cJSON_NULL, cJSON_False, cJSON_True}
    \<or> ctype i = cJSON_Number \<and> valueint i = saturate (valuedouble i) \<or> ctype i = cJSON_String \<and> valuestring i \<noteq> None"
  shows "well_typed i"
  using assms by (cases i) auto

lemma gives_bracket:
  assumes "gives (\<lambda>is. \<forall>i \<in> set is. well_typed i \<and> (ckey i \<noteq> None \<longleftrightarrow> T = cJSON_Object)) r"
    and "T = cJSON_Array \<or> T = cJSON_Object"
  shows "gives (\<lambda>i. well_typed i \<and> ckey i = ckey item) (and_then r (\<lambda>items b2.
    if peek b2 0 = Some c then Ok (with_children items (with_type T item)) (leave b2) else Fail b2))"
  by (rule gives_and_then[OF assms(1)])
    (use assms(2) in \<open>auto simp: with_children_def with_type_def split: if_splits\<close>)

lemma gives_if: "(P \<Longrightarrow> gives Q x) \<Longrightarrow> (\<not> P \<Longrightarrow> gives Q y) \<Longrightarrow> gives Q (if P then x else y)"
  by simp

lemma with_children_typed:
  "T = cJSON_Array \<or> T = cJSON_Object \<Longrightarrow>
    well_typed (with_children [] (with_type T item)) \<and> ckey (with_children [] (with_type T item)) = ckey item"
  by (auto simp: with_children_def with_type_def)

lemma parse_gives:
  "(\<forall>item b. child item = [] \<longrightarrow> gives (\<lambda>i. well_typed i \<and> ckey i = ckey item) (parse_value f item b))
   \<and> (\<forall>item b. gives (\<lambda>i. well_typed i \<and> ckey i = ckey item) (parse_array f item b))
   \<and> (\<forall>b. gives (\<lambda>is. \<forall>i \<in> set is. well_typed i \<and> ckey i = None) (array_items f b))
   \<and> (\<forall>item b. gives (\<lambda>i. well_typed i \<and> ckey i = ckey item) (parse_object f item b))
   \<and> (\<forall>b. gives (\<lambda>is. \<forall>i \<in> set is. well_typed i \<and> ckey i \<noteq> None) (object_items f b))"
proof (induction f)
  case (Suc f)
  have val: "gives (\<lambda>i. well_typed i \<and> ckey i = ckey item) (parse_value f item b)" if "child item = []" for item b
    using Suc that by blast
  have array: "gives (\<lambda>i. well_typed i \<and> ckey i = ckey item) (parse_array f item b)" for item b
    using Suc by blast
  have ob: "gives (\<lambda>i. well_typed i \<and> ckey i = ckey item) (parse_object f item b)" for item b
    using Suc by blast
  have items: "gives (\<lambda>is. \<forall>i \<in> set is. well_typed i \<and> ckey i = None) (array_items f b)" for b
    using Suc by blast
  have members: "gives (\<lambda>is. \<forall>i \<in> set is. well_typed i \<and> ckey i \<noteq> None) (object_items f b)" for b
    using Suc by blast
  have str: "gives (\<lambda>i. well_typed i \<and> ckey i = ckey item) (parse_string item b)" if "child item = []" for item b
    using parse_string_gives[of item b] that unfolding gives_def by (auto intro!: well_typed_leaf)
  have num: "gives (\<lambda>i. well_typed i \<and> ckey i = ckey item) (parse_number item b)" if "child item = []" for item b
    using parse_number_gives[of item b] that unfolding gives_def by (auto intro!: well_typed_leaf)
  have "gives (\<lambda>i. well_typed i \<and> ckey i = ckey item) (parse_value (Suc f) item b)" if "child item = []" for item b
    using array ob str[OF that] num[OF that] that
    by (auto simp: with_type_def with_valueint_def split: option.splits)
  moreover have "gives (\<lambda>i. well_typed i \<and> ckey i = ckey item) (parse_array (Suc f) item b)" for item b
    unfolding parse_array.simps Let_def
    by (intro gives_if gives_bracket) (use items with_children_typed in \<open>auto split: option.splits intro!: gives_if gives_bracket\<close>)
  moreover have "gives (\<lambda>is. \<forall>i \<in> set is. well_typed i \<and> ckey i = None) (array_items (Suc f) b)" for b
    unfolding array_items.simps Let_def
  proof (rule gives_and_then[OF new_item_gives])
    fix item b1 assume i: "item = blank_item"
    show "gives (\<lambda>is. \<forall>i \<in> set is. well_typed i \<and> ckey i = None)
      (and_then (parse_value f item (buffer_skip_whitespace (skip 1 b1))) (\<lambda>item' b2.
         if peek (buffer_skip_whitespace b2) 0 = Some (CHR '','')
         then and_then (array_items f (buffer_skip_whitespace b2)) (\<lambda>items b4. Ok (item' # items) b4)
         else Ok [item'] (buffer_skip_whitespace b2)))"
    proof (rule gives_and_then[OF val])
      show "child item = []" using i by (simp add: blank_item_def)
      fix item' b2 assume "well_typed item' \<and> ckey item' = ckey item"
      then have t: "well_typed item' \<and> ckey item' = None" using i by (simp add: blank_item_def)
      show "gives (\<lambda>is. \<forall>i \<in> set is. well_typed i \<and> ckey i = None)
         (if peek (buffer_skip_whitespace b2) 0 = Some (CHR '','')
         then and_then (array_items f (buffer_skip_whitespace b2)) (\<lambda>items b4. Ok (item' # items) b4)
         else Ok [item'] (buffer_skip_whitespace b2))"
        by (rule gives_if, rule gives_and_then[OF items]) (use t in auto)
    qed
  qed
  moreover have "gives (\<lambda>i. well_typed i \<and> ckey i = ckey item) (parse_object (Suc f) item b)" for item b
    unfolding parse_object.simps Let_def
    by (intro gives_if gives_bracket) (use members with_children_typed in \<open>auto split: option.splits intro!: gives_if gives_bracket\<close>)
  moreover have "gives (\<lambda>is. \<forall>i \<in> set is. well_typed i \<and> ckey i \<noteq> None) (object_items (Suc f) b)" for b
    unfolding object_items.simps Let_def
  proof (rule gives_and_then[OF new_item_gives])
    fix item b1 assume i: "item = blank_item"
    show "gives (\<lambda>is. \<forall>i \<in> set is. well_typed i \<and> ckey i \<noteq> None)
      (and_then (parse_string item (buffer_skip_whitespace (skip 1 b1))) (\<lambda>item1 b2.
         if peek (buffer_skip_whitespace b2) 0 \<noteq> Some (CHR '':'') then Fail (buffer_skip_whitespace b2)
         else and_then (parse_value f (string_to_key item1) (buffer_skip_whitespace (skip 1 (buffer_skip_whitespace b2)))) (\<lambda>item2 b4.
           if peek (buffer_skip_whitespace b4) 0 = Some (CHR '','')
           then and_then (object_items f (buffer_skip_whitespace b4)) (\<lambda>items b6. Ok (item2 # items) b6)
           else Ok [item2] (buffer_skip_whitespace b4))))"
    proof (rule gives_and_then[OF parse_string_gives], rule gives_if, simp, rule gives_and_then[OF val])
      fix item1 b2
      assume s: "ctype item1 = cJSON_String \<and> valuestring item1 \<noteq> None \<and> ckey item1 = ckey item \<and> child item1 = child item"
      then show "child (string_to_key item1) = []" using i by (simp add: string_to_key_def blank_item_def)
      fix item2 b4 assume "well_typed item2 \<and> ckey item2 = ckey (string_to_key item1)"
      then have t: "well_typed item2 \<and> ckey item2 \<noteq> None" using s by (simp add: string_to_key_def)
      show "gives (\<lambda>is. \<forall>i \<in> set is. well_typed i \<and> ckey i \<noteq> None)
         (if peek (buffer_skip_whitespace b4) 0 = Some (CHR '','')
           then and_then (object_items f (buffer_skip_whitespace b4)) (\<lambda>items b6. Ok (item2 # items) b6)
           else Ok [item2] (buffer_skip_whitespace b4))"
        by (rule gives_if, rule gives_and_then[OF members]) (use t in auto)
    qed
  qed
  ultimately show ?case by blast
qed simp_all

lemma Parse_well_typed:
  assumes "cJSON_Parse m v = Some (Some i)"
  shows "well_typed i" and "ckey i = None"
proof -
  obtain f b b2 where "parse_value f blank_item b = Ok i b2"
    using assms by (auto simp: cJSON_Parse_def cJSON_ParseWithOpts_def new_item_def cJSON_New_Item_def error_report_def Let_def
        split: option.splits outcome.splits prod.splits if_splits)
  moreover have c: "child blank_item = []" by (simp add: blank_item_def)
  have "gives (\<lambda>i. well_typed i \<and> ckey i = ckey blank_item) (parse_value f blank_item b)"
    using conjunct1[OF parse_gives[of f]] c by blast
  ultimately have "well_typed i \<and> ckey i = ckey blank_item" by simp
  then show "well_typed i" "ckey i = None" by (simp_all add: blank_item_def)
qed

text \<open>C16: Every item that \<open>cJSON_Parse\<close> returns is well typed at every level: one of the seven JSON
  types, a string under every string, the saturated integer beside every number, children only
  in arrays and objects, and names exactly on the members of objects.\<close>

theorem parse_result_typed:
  assumes "cJSON_Parse m v = Some (Some i)"
  shows "well_typed i \<and> ckey i = None"
  using Parse_well_typed[OF assms] by blast

theorem parse_result_typed_witness:
  "\<exists>i. cJSON_Parse [] (Some ''[true]'') = Some (Some i) \<and> well_typed i \<and> ckey i = None"
proof -
  have "cJSON_Parse [] (Some ''[true]'') = Some (Some (CJSON 32 None 0 (Fin 0) None [CJSON 2 None 1 (Fin 0) None []]))"
    by code_simp
  from parse_result_typed[OF this] this show ?thesis by blast
qed

end
