(* ===== verification/Representation.thy ===== *)
theory Representation
  imports HeapTrees JsonRoundtrip ParseTypes
begin

text \<open>
  \<open>src/representation.c\<close> and \<open>include/edsac_representation.h\<close>: the messages, their
  constructors, and their encoding as JSON text. GLib is not part of the repository: the type
  \<open>'g\<close> of a \<open>GString\<close> and the two things the code does with one are parameters, and
  \<open>glib_ok\<close> is what the code relies on.
\<close>

section \<open>Messages\<close>

datatype MessageType = HARD_ERROR_VALVE | HARD_ERROR_OTHER | SOFT_ERROR | KEEP_ALIVE | INVALID

text \<open>
  The union \<open>MessageData\<close>, by the member last written; a \<open>GString\<close> pointer may be NULL.
  \<open>No_data\<close> is a union that was never written.
\<close>

datatype 'g MessageData = Hardware_valve int "'g option" | Hardware_other "'g option" | Software "'g option" | No_data

record 'g Message =
  mtype :: MessageType
  mdata :: "'g MessageData"

text \<open>\<open>g_string_new\<close>, and the C string that the member \<open>str\<close> of a \<open>GString\<close> points to.\<close>

record 'g glib =
  g_string_new :: "bytes option \<Rightarrow> 'g"
  g_str :: "'g \<Rightarrow> bytes"

definition glib_ok :: "'g glib \<Rightarrow> bool" where
  "glib_ok G \<longleftrightarrow> (\<forall>s. nul_free s \<longrightarrow> g_str G (g_string_new G (Some s)) = s)
     \<and> g_str G (g_string_new G None) = [] \<and> (\<forall>g. nul_free (g_str G g))"

text \<open>The constructors write through a pointer that may be NULL.\<close>

definition hardware_error_valve ::
    "'g glib \<Rightarrow> 'g Message option \<Rightarrow> int \<Rightarrow> bytes option \<Rightarrow> 'g Message option" where
  "hardware_error_valve G message valve string = (case message of None \<Rightarrow> None
     | Some m \<Rightarrow> Some (m\<lparr>mtype := HARD_ERROR_VALVE, mdata := Hardware_valve valve (Some (g_string_new G string))\<rparr>))"

definition hardware_error_other :: "'g glib \<Rightarrow> 'g Message option \<Rightarrow> bytes option \<Rightarrow> 'g Message option" where
  "hardware_error_other G message string = (case message of None \<Rightarrow> None
     | Some m \<Rightarrow> Some (m\<lparr>mtype := HARD_ERROR_OTHER, mdata := Hardware_other (Some (g_string_new G string))\<rparr>))"

definition software_error :: "'g glib \<Rightarrow> 'g Message option \<Rightarrow> bytes option \<Rightarrow> 'g Message option" where
  "software_error G message string = (case message of None \<Rightarrow> None
     | Some m \<Rightarrow> Some (m\<lparr>mtype := SOFT_ERROR, mdata := Software (Some (g_string_new G string))\<rparr>))"

definition keep_alive :: "'g Message option \<Rightarrow> 'g Message option" where
  "keep_alive message = (case message of None \<Rightarrow> None | Some m \<Rightarrow> Some (m\<lparr>mtype := KEEP_ALIVE\<rparr>))"

text \<open>
  \<open>free_message\<close>: the message afterwards, and the strings passed to \<open>g_string_free\<close>. A union
  member is read only when the type says so; \<^const>\<open>None\<close> is a read of another member.
\<close>

definition free_message :: "'g Message option \<Rightarrow> ('g Message option \<times> 'g option list) option" where
  "free_message msg = (case msg of None \<Rightarrow> Some (None, []) | Some m \<Rightarrow>
     (case (mtype m, mdata m) of
        (SOFT_ERROR, Software g) \<Rightarrow> Some (Some (m\<lparr>mtype := INVALID, mdata := Software None\<rparr>), [g])
      | (HARD_ERROR_OTHER, Hardware_other g) \<Rightarrow> Some (Some (m\<lparr>mtype := INVALID, mdata := Hardware_other None\<rparr>), [g])
      | (HARD_ERROR_VALVE, Hardware_valve v g) \<Rightarrow> Some (Some (m\<lparr>mtype := INVALID, mdata := Hardware_valve v None\<rparr>), [g])
      | (KEEP_ALIVE, _) \<Rightarrow> Some (Some (m\<lparr>mtype := INVALID\<rparr>), [])
      | (INVALID, _) \<Rightarrow> Some (Some (m\<lparr>mtype := INVALID\<rparr>), [])
      | _ \<Rightarrow> None))"

section \<open>Encoding\<close>

definition DATA_FORMAT_VERSION :: double where "DATA_FORMAT_VERSION = Fin 2"
definition MAX_MSG_LEN :: nat where "MAX_MSG_LEN = 200"
definition MAX_ENCODED_LEN :: nat where "MAX_ENCODED_LEN = MAX_MSG_LEN + 100"

text \<open>
  The pieces of the macros: create an item, on NULL delete the root and return (\<^const>\<open>False\<close>),
  otherwise add the item to an object.
\<close>

definition add_created :: "(addr option \<times> heap) option \<Rightarrow> addr \<Rightarrow> addr \<Rightarrow> bytes \<Rightarrow> (bool \<times> heap) option" where
  "add_created created rootp object name = do {
     (item, h) \<leftarrow> created;
     (case item of
        None \<Rightarrow> do { h1 \<leftarrow> cJSON_Delete (Some rootp) h; Some (False, h1) }
      | Some i \<Rightarrow> do { h1 \<leftarrow> cJSON_AddItemToObject (Some object) (Some name) (Some i) h; Some (True, h1) }) }"

text \<open>\<open>PRINTABLE_MSG_DECODE\<close>; \<open>str\<close> is \<^const>\<open>None\<close> when \<open>message->data...message\<close> is NULL.\<close>

definition PRINTABLE_MSG_DECODE :: "'g glib \<Rightarrow> addr \<Rightarrow> addr \<Rightarrow> bytes \<Rightarrow> 'g option \<Rightarrow> heap \<Rightarrow> (bool \<times> heap) option" where
  "PRINTABLE_MSG_DECODE G rootp data type_name message h = do {
     (ok, h1) \<leftarrow> add_created (cJSON_CreateString (Some type_name) h) rootp rootp ''type'';
     (if \<not> ok then Some (False, h1)
      else do {
        g \<leftarrow> message;
        add_created (cJSON_CreateString (Some (g_str G g)) h1) rootp data ''message'' }) }"

text \<open>The \<open>switch\<close>; on \<^const>\<open>False\<close> the rootp is deleted.\<close>

definition encode_body :: "'g glib \<Rightarrow> 'g Message \<Rightarrow> addr \<Rightarrow> addr \<Rightarrow> heap \<Rightarrow> (bool \<times> heap) option" where
  "encode_body G m rootp data h = (case (mtype m, mdata m) of
     (HARD_ERROR_VALVE, Hardware_valve v g) \<Rightarrow> do {
       (ok, h1) \<leftarrow> PRINTABLE_MSG_DECODE G rootp data ''HARD_ERROR_VALVE'' g h;
       (if \<not> ok then Some (False, h1)
        else add_created (cJSON_CreateNumber (dbl_int v) h1) rootp data ''valve_no'') }
   | (HARD_ERROR_OTHER, Hardware_other g) \<Rightarrow> PRINTABLE_MSG_DECODE G rootp data ''HARD_ERROR_OTHER'' g h
   | (SOFT_ERROR, Software g) \<Rightarrow> PRINTABLE_MSG_DECODE G rootp data ''SOFT_ERROR'' g h
   | (KEEP_ALIVE, _) \<Rightarrow> add_created (cJSON_CreateString (Some ''KEEP_ALIVE'') h) rootp rootp ''type''
   | (INVALID, _) \<Rightarrow> do { h1 \<leftarrow> cJSON_Delete (Some rootp) h; Some (False, h1) }
   | _ \<Rightarrow> None)"

text \<open>Everything before the text is printed: the root, or \<^const>\<open>None\<close> for the return of -1.\<close>

definition build_message :: "'g glib \<Rightarrow> 'g Message \<Rightarrow> heap \<Rightarrow> (addr option \<times> heap) option" where
  "build_message G m h = do {
     (version_number, h1) \<leftarrow> cJSON_CreateNumber DATA_FORMAT_VERSION h;
     (case version_number of None \<Rightarrow> Some (None, h1) | Some v \<Rightarrow> do {
       (rootp, h2) \<leftarrow> cJSON_CreateObject h1;
       (case rootp of None \<Rightarrow> do { h3 \<leftarrow> cJSON_Delete (Some v) h2; Some (None, h3) } | Some r \<Rightarrow> do {
         h3 \<leftarrow> cJSON_AddItemToObject (Some r) (Some ''version'') (Some v) h2;
         (data, h4) \<leftarrow> cJSON_CreateObject h3;
         (case data of None \<Rightarrow> do { h5 \<leftarrow> cJSON_Delete (Some r) h4; Some (None, h5) } | Some d \<Rightarrow> do {
           h5 \<leftarrow> cJSON_AddItemToObject (Some r) (Some ''data'') (Some d) h4;
           (ok, h6) \<leftarrow> encode_body G m r d h5;
           Some (if ok then Some r else None, h6) }) }) }) }"

text \<open>
  The result: the returned length, the value of \<open>*encoded_message\<close> (\<open>encoded\<close> before, which is
  \<^const>\<open>None\<close> if the pointer is NULL), the store. The printer walks the tree below the rootp. It
  allocates last: its answers are those that the store has left, and they stay in the store, so
  the list holds for one call of \<open>encode_message\<close>.
\<close>

definition encode_message :: "'g glib \<Rightarrow> 'g Message option \<Rightarrow> bytes option option \<Rightarrow> heap
    \<Rightarrow> (int \<times> bytes option option \<times> heap) option" where
  "encode_message G message encoded h = (case (message, encoded) of
     (Some m, Some old) \<Rightarrow> do {
       (rootp, h1) \<leftarrow> build_message G m h;
       (case rootp of None \<Rightarrow> Some (- 1, encoded, h1) | Some r \<Rightarrow> do {
         trees \<leftarrow> load (Some r) h1;
         (case cJSON_PrintUnformatted (Some (hd trees)) (hmem h1) of
            PrintFault \<Rightarrow> None
          | PrintNull \<Rightarrow> do { h2 \<leftarrow> cJSON_Delete (Some r) h1; Some (- 1, Some None, h2) }
          | Printed s \<Rightarrow> do { h2 \<leftarrow> cJSON_Delete (Some r) h1;
                Some (int (strnlen s MAX_ENCODED_LEN), Some (Some s), h2) }) }) }
   | _ \<Rightarrow> Some (- 1, encoded, h))"

section \<open>Decoding\<close>

text \<open>\<open>PRINTABLE_MSG_ENCODE\<close>, after its test of the type: the description, if it is a string.\<close>

definition description_of :: "cJSON \<Rightarrow> cJSON option" where
  "description_of data = (case cJSON_GetObjectItem (Some data) (Some ''message'') of
     None \<Rightarrow> None | Some description \<Rightarrow> if cJSON_IsString (Some description) then Some description else None)"

text \<open>What is done with the parsed root; the tree is read only, and deleted on every path.\<close>

definition decode_root :: "'g glib \<Rightarrow> cJSON \<Rightarrow> 'g Message \<Rightarrow> (bool \<times> 'g Message) option" where
  "decode_root G rootp message =
     (case cJSON_GetObjectItem (Some rootp) (Some ''version'') of None \<Rightarrow> Some (False, message)
      | Some version \<Rightarrow>
     if \<not> cJSON_IsNumber (Some version) then Some (False, message)
     else if \<not> deq DATA_FORMAT_VERSION (valuedouble version) then Some (False, message)
     else (case cJSON_GetObjectItem (Some rootp) (Some ''data'') of None \<Rightarrow> Some (False, message)
      | Some data \<Rightarrow>
     (case cJSON_GetObjectItem (Some rootp) (Some ''type'') of None \<Rightarrow> Some (False, message)
      | Some type \<Rightarrow>
     if \<not> cJSON_IsString (Some type) then Some (False, message)
     else (case valuestring type of None \<Rightarrow> None | Some tname \<Rightarrow>
       if strncmp_eq ''SOFT_ERR'' tname 8 then
         (case description_of data of None \<Rightarrow> Some (False, message)
          | Some d \<Rightarrow> Some (True, the (software_error G (Some message) (valuestring d))))
       else if strncmp_eq ''HARD_ERROR_OTHER'' tname 16 then
         (case description_of data of None \<Rightarrow> Some (False, message)
          | Some d \<Rightarrow> Some (True, the (hardware_error_other G (Some message) (valuestring d))))
       else if strncmp_eq ''HARD_ERROR_VALVE'' tname 16 then
         (case description_of data of None \<Rightarrow> Some (False, message)
          | Some d \<Rightarrow>
            (case cJSON_GetObjectItem (Some data) (Some ''valve_no'') of None \<Rightarrow> Some (False, message)
             | Some valve_no \<Rightarrow>
               if \<not> cJSON_IsNumber (Some valve_no) then Some (False, message)
               else Some (True, the (hardware_error_valve G (Some message) (valueint valve_no) (valuestring d)))))
       else if strncmp_eq ''KEEP_ALIVE'' tname 11 then Some (True, the (keep_alive (Some message)))
       else Some (False, message)))))"

definition decode_message :: "'g glib \<Rightarrow> mem \<Rightarrow> bytes option \<Rightarrow> 'g Message option
    \<Rightarrow> (bool \<times> 'g Message option) option" where
  "decode_message G mm encoded_message message = (case (encoded_message, message) of
     (Some s, Some m) \<Rightarrow>
       (case cJSON_Parse mm (Some s) of
          None \<Rightarrow> None
        | Some None \<Rightarrow> Some (False, message)
        | Some (Some rootp) \<Rightarrow> do { (ok, m') \<leftarrow> decode_root G rootp m; Some (ok, Some m') })
   | _ \<Rightarrow> Some (False, message))"

end
