(* ===== verification/MessageCodec.thy ===== *)
theory MessageCodec
  imports Representation
begin

text \<open>
  What the message codec promises: the tree and the text that stand for a message, the proof
  that the encoder builds, prints and frees exactly that tree, that it stays safe when memory
  runs out, and that the decoder reads back what the encoder wrote.
\<close>

section \<open>What a message says\<close>

text \<open>The abstract content of a message, and the tree that stands for it on the wire.\<close>

datatype notice = ValveError int bytes | OtherError bytes | SoftwareError bytes | Alive

definition view :: "'g glib \<Rightarrow> 'g Message \<Rightarrow> notice option" where
  "view G m = (case (mtype m, mdata m) of
     (HARD_ERROR_VALVE, Hardware_valve v (Some g)) \<Rightarrow> Some (ValveError v (g_str G g))
   | (HARD_ERROR_OTHER, Hardware_other (Some g)) \<Rightarrow> Some (OtherError (g_str G g))
   | (SOFT_ERROR, Software (Some g)) \<Rightarrow> Some (SoftwareError (g_str G g))
   | (KEEP_ALIVE, _) \<Rightarrow> Some Alive
   | _ \<Rightarrow> None)"

definition number_item :: "bytes \<Rightarrow> double \<Rightarrow> cJSON" where
  "number_item k d = CJSON cJSON_Number None (saturate d) d (Some k) []"

definition string_item :: "bytes \<Rightarrow> bytes \<Rightarrow> cJSON" where
  "string_item k s = CJSON cJSON_String (Some s) 0 (Fin 0) (Some k) []"

definition wire_object :: "bytes \<Rightarrow> cJSON list \<Rightarrow> cJSON" where
  "wire_object tname members = CJSON cJSON_Object None 0 (Fin 0) None
     [number_item ''version'' DATA_FORMAT_VERSION,
      CJSON cJSON_Object None 0 (Fin 0) (Some ''data'') members,
      string_item ''type'' tname]"

fun wire_tree :: "notice \<Rightarrow> cJSON" where
  "wire_tree (ValveError v s) = wire_object ''HARD_ERROR_VALVE''
     [string_item ''message'' s, number_item ''valve_no'' (dbl_int v)]"
| "wire_tree (OtherError s) = wire_object ''HARD_ERROR_OTHER'' [string_item ''message'' s]"
| "wire_tree (SoftwareError s) = wire_object ''SOFT_ERROR'' [string_item ''message'' s]"
| "wire_tree Alive = wire_object ''KEEP_ALIVE'' []"

definition wire_text :: "notice \<Rightarrow> bytes" where
  "wire_text n = render False 0 (wire_tree n)"

fun notice_ok :: "notice \<Rightarrow> bool" where
  "notice_ok (ValveError v s) = (INT_MIN \<le> v \<and> v \<le> INT_MAX \<and> nul_free s)"
| "notice_ok (OtherError s) = nul_free s"
| "notice_ok (SoftwareError s) = nul_free s"
| "notice_ok Alive = True"

lemma int15_int [simp]: "int15 (dbl_int v) \<longleftrightarrow> \<bar>v\<bar> < 10 ^ 15"
  by (simp add: int15_def)

lemma number_item_ok: "\<bar>v\<bar> < 10 ^ 15 \<Longrightarrow> nul_free k \<Longrightarrow> named (number_item k (dbl_int v)) \<and> canonical n (number_item k (dbl_int v))"
  by (simp add: number_item_def named_def)

lemma string_item_ok: "nul_free s \<Longrightarrow> nul_free k \<Longrightarrow> named (string_item k s) \<and> canonical n (string_item k s)"
  by (simp add: string_item_def named_def)

lemma wire_object_canonical:
  assumes "nul_free tname" and "\<forall>i \<in> set members. named i \<and> canonical 998 i"
  shows "canonical 1000 (wire_object tname members)"
proof -
  have "named (number_item ''version'' (dbl_int 2)) \<and> canonical 999 (number_item ''version'' (dbl_int 2))"
    by (rule number_item_ok) simp_all
  moreover have "named (string_item ''type'' tname) \<and> canonical 999 (string_item ''type'' tname)"
    by (rule string_item_ok) (use assms(1) in simp_all)
  ultimately show ?thesis using assms(2) by (simp add: wire_object_def DATA_FORMAT_VERSION_def named_def)
qed

lemma wire_tree_canonical: "notice_ok n \<Longrightarrow> canonical 1000 (wire_tree n) \<and> ckey (wire_tree n) = None"
proof -
  assume n: "notice_ok n"
  have "canonical 1000 (wire_tree n)"
  proof (cases n)
    case (ValveError v s)
    then have "\<bar>v\<bar> < 10 ^ 15" "nul_free s" using n by (auto simp: INT_MAX_def INT_MIN_def)
    then show ?thesis using ValveError number_item_ok[of v "''valve_no''"] string_item_ok[of s "''message''"]
      by (auto intro!: wire_object_canonical)
  qed (use n string_item_ok[of _ "''message''"] in \<open>auto intro!: wire_object_canonical\<close>)
  then show ?thesis by (cases n) (simp_all add: wire_object_def)
qed

lemma wire_tree_parses:
  assumes "notice_ok n"
  shows "cJSON_Parse [] (Some (wire_text n)) = Some (Some (wire_tree n))"
  using parse_render[of "wire_tree n" False 0 False] wire_tree_canonical[OF assms]
  by (simp add: cJSON_Parse_def wire_text_def)

section \<open>Decoding what was encoded\<close>

lemma find_ci_hit: "ckey i = Some name \<Longrightarrow> find_ci name (i # is) = Some i"
proof -
  have "ci_loop s s = 0" for s by (induction s) auto
  then show "ckey i = Some name \<Longrightarrow> find_ci name (i # is) = Some i"
    by (simp add: case_insensitive_strcmp_def)
qed

lemma decode_wire_tree:
  assumes "notice_ok n" and "glib_ok G"
  shows "\<exists>m. decode_root G (wire_tree n) m0 = Some (True, m) \<and> view G m = Some n"
  using assms
  by (cases n) (auto simp: decode_root_def wire_object_def number_item_def string_item_def
      cJSON_GetObjectItem_def get_object_item_def case_insensitive_strcmp_def tolower_def description_of_def
      cJSON_IsNumber_def cJSON_IsString_def type_is_def DATA_FORMAT_VERSION_def strncmp_eq_def view_def
      software_error_def hardware_error_other_def hardware_error_valve_def keep_alive_def glib_ok_def
      saturate_def INT_MAX_def INT_MIN_def)

section \<open>Building the tree\<close>

lemma create_ok:
  assumes "forest h F" and "hmem h = []" and "f blank_node = lnode None (leaf (brk h) t None vi vd) []"
    and "\<not> has_flag t cJSON_IsReference" "\<not> has_flag t cJSON_StringIsConst"
  shows "\<exists>h'. create f h = Some (Some (brk h), h') \<and> forest h' (leaf (brk h) t None vi vd # F) \<and> hmem h' = []"
  using create_forest[of h F f t vi vd] assms by auto

lemma CreateNumber_ok:
  assumes "forest h F" and "hmem h = []"
  shows "\<exists>h'. cJSON_CreateNumber v h = Some (Some (brk h), h')
    \<and> forest h' (leaf (brk h) cJSON_Number None (saturate v) v # F) \<and> hmem h' = []"
  unfolding cJSON_CreateNumber_def
  by (rule create_ok[OF assms]) (simp_all add: blank_node_def lnode_def leaf_def has_flag_def)

lemma CreateObject_ok:
  assumes "forest h F" and "hmem h = []"
  shows "\<exists>h'. cJSON_CreateObject h = Some (Some (brk h), h')
    \<and> forest h' (leaf (brk h) cJSON_Object None 0 (Fin 0) # F) \<and> hmem h' = []"
  unfolding cJSON_CreateObject_def
  by (rule create_ok[OF assms]) (simp_all add: blank_node_def lnode_def leaf_def has_flag_def)

lemma add_created_ok:
  assumes "created = Some (Some i, h)" and "forest h (leaf i t vs vi vd # F)" and "hmem h = []"
    and "ob \<in> set (node_addrs F)"
  shows "\<exists>h' p. add_created created r ob nm = Some (True, h') \<and> hmem h' = []
    \<and> forest h' (adopt ob (LT i t vs vi vd (Some (p, nm)) []) F)"
proof -
  have "laddr (leaf i t vs vi vd) = i" "lkey (leaf i t vs vi vd) = None" by (simp_all add: leaf_def)
  then show ?thesis
    using AddItemToObject_forest[of h "[]" "leaf i t vs vi vd" F ob nm] assms
    by (auto simp: add_created_def leaf_def)
qed

lemma add_text_ok:
  assumes "forest h F" and "hmem h = []" and "ob \<in> set (node_addrs F)"
  shows "\<exists>h' i q p. add_created (cJSON_CreateString (Some s) h) r ob nm = Some (True, h') \<and> hmem h' = []
    \<and> i \<notin> set (node_addrs F) \<and> forest h' (adopt ob (LT i cJSON_String (Some (q, s)) 0 (Fin 0) (Some (p, nm)) []) F)"
proof -
  obtain h1 where h1: "cJSON_CreateString (Some s) h = Some (Some (brk h), h1)" "hmem h1 = []"
    "forest h1 (leaf (brk h) cJSON_String (Some (brk h + 1, s)) 0 (Fin 0) # F)"
    using CreateString_forest[OF assms(1), of s] assms(2) by auto
  show ?thesis using add_created_ok[OF h1(1,3,2) assms(3), of r nm] forest_distinct[OF h1(3)]
    by (fastforce simp: leaf_def)
qed

lemma add_number_ok:
  assumes "forest h F" and "hmem h = []" and "ob \<in> set (node_addrs F)"
  shows "\<exists>h' i p. add_created (cJSON_CreateNumber v h) r ob nm = Some (True, h') \<and> hmem h' = []
    \<and> i \<notin> set (node_addrs F) \<and> forest h' (adopt ob (LT i cJSON_Number None (saturate v) v (Some (p, nm)) []) F)"
proof -
  obtain h1 where h1: "cJSON_CreateNumber v h = Some (Some (brk h), h1)" "hmem h1 = []"
    "forest h1 (leaf (brk h) cJSON_Number None (saturate v) v # F)"
    using CreateNumber_ok[OF assms(1,2), of v] by auto
  show ?thesis using add_created_ok[OF h1(1,3,2) assms(3), of r nm] forest_distinct[OF h1(3)]
    by (fastforce simp: leaf_def)
qed

text \<open>The root of a message under construction: its address, the address of its data object,
  the members of both so far.\<close>

definition growing :: "heap \<Rightarrow> addr \<Rightarrow> addr \<Rightarrow> cJSON list \<Rightarrow> cJSON list \<Rightarrow> ltree list \<Rightarrow> bool" where
  "growing h r d tops members F \<longleftrightarrow> hmem h = [] \<and> (\<exists>v kd ch ts.
     forest h (LT r cJSON_Object None 0 (Fin 0) None (v # LT d cJSON_Object None 0 (Fin 0) (Some (kd, ''data'')) ch # ts) # F)
     \<and> erase v = number_item ''version'' DATA_FORMAT_VERSION \<and> map erase ts = tops \<and> map erase ch = members)"

lemma growing_start:
  assumes "forest h F" and "hmem h = []"
  shows "\<exists>v r d h1 h2 h3 h4 h5. cJSON_CreateNumber DATA_FORMAT_VERSION h = Some (Some v, h1)
    \<and> cJSON_CreateObject h1 = Some (Some r, h2)
    \<and> cJSON_AddItemToObject (Some r) (Some ''version'') (Some v) h2 = Some h3
    \<and> cJSON_CreateObject h3 = Some (Some d, h4)
    \<and> cJSON_AddItemToObject (Some r) (Some ''data'') (Some d) h4 = Some h5 \<and> growing h5 r d [] [] F"
proof -
  let ?n = "DATA_FORMAT_VERSION"
  obtain v h1 where h1: "cJSON_CreateNumber ?n h = Some (Some v, h1)" "hmem h1 = []"
    "forest h1 (leaf v cJSON_Number None (saturate ?n) ?n # F)"
    using CreateNumber_ok[OF assms] by blast
  obtain r h2 where h2: "cJSON_CreateObject h1 = Some (Some r, h2)" "hmem h2 = []"
    "forest h2 (leaf r cJSON_Object None 0 (Fin 0) # leaf v cJSON_Number None (saturate ?n) ?n # F)"
    using CreateObject_ok[OF h1(3,2)] by blast
  obtain h3 p where h3: "cJSON_AddItemToObject (Some r) (Some ''version'') (Some v) h2 = Some h3" "hmem h3 = []"
    "forest h3 (adopt r (LT v cJSON_Number None (saturate ?n) ?n (Some (p, ''version'')) []) (leaf r cJSON_Object None 0 (Fin 0) # F))"
    using AddItemToObject_forest[of h2 "[leaf r cJSON_Object None 0 (Fin 0)]" "leaf v cJSON_Number None (saturate ?n) ?n" F r "''version''"]
      h2(2,3) by (auto simp: leaf_def)
  let ?v = "LT v cJSON_Number None (saturate ?n) ?n (Some (p, ''version'')) []"
  have r: "r \<notin> set (node_addrs F)" using forest_distinct[OF h2(3)] by (simp add: leaf_def)
  then have f3: "forest h3 (LT r cJSON_Object None 0 (Fin 0) None [?v] # F)"
    using h3(3) by (simp add: leaf_def)
  obtain d h4 where h4: "cJSON_CreateObject h3 = Some (Some d, h4)" "hmem h4 = []"
    "forest h4 (leaf d cJSON_Object None 0 (Fin 0) # LT r cJSON_Object None 0 (Fin 0) None [?v] # F)"
    using CreateObject_ok[OF f3 h3(2)] by blast
  obtain h5 kd where h5: "cJSON_AddItemToObject (Some r) (Some ''data'') (Some d) h4 = Some h5" "hmem h5 = []"
    "forest h5 (adopt r (LT d cJSON_Object None 0 (Fin 0) (Some (kd, ''data'')) []) (LT r cJSON_Object None 0 (Fin 0) None [?v] # F))"
    using AddItemToObject_forest[of h4 "[]" "leaf d cJSON_Object None 0 (Fin 0)" "LT r cJSON_Object None 0 (Fin 0) None [?v] # F" r "''data''"]
      h4(2,3) by (auto simp: leaf_def)
  have "growing h5 r d [] [] F"
    using h5(2,3) r unfolding growing_def by (fastforce simp: number_item_def)
  then show ?thesis using h1(1) h2(1) h3(1) h4(1) h5(1) by blast
qed

lemma growing_forest:
  assumes "growing h r d tops members F"
  obtains v kd ch ts where
    "forest h (LT r cJSON_Object None 0 (Fin 0) None (v # LT d cJSON_Object None 0 (Fin 0) (Some (kd, ''data'')) ch # ts) # F)"
    and "erase v = number_item ''version'' DATA_FORMAT_VERSION" "map erase ts = tops" "map erase ch = members"
    and "hmem h = []"
  using assms by (auto simp: growing_def)

lemma node_addrs_Cons: "node_addrs (t # ts) = node_addrs [t] @ node_addrs ts"
  by (cases t) simp

lemma growing_root:
  assumes "growing h r d tops members F"
    and add: "\<And>F'. forest h F' \<Longrightarrow> hmem h = [] \<Longrightarrow> r \<in> set (node_addrs F') \<Longrightarrow>
      \<exists>h' x. c = Some (True, h') \<and> hmem h' = [] \<and> erase x = item \<and> forest h' (adopt r x F')"
  shows "\<exists>h'. c = Some (True, h') \<and> growing h' r d (tops @ [item]) members F"
proof -
  obtain v kd ch ts where g: "forest h (LT r cJSON_Object None 0 (Fin 0) None (v # LT d cJSON_Object None 0 (Fin 0) (Some (kd, ''data'')) ch # ts) # F)"
    "erase v = number_item ''version'' DATA_FORMAT_VERSION" "map erase ts = tops" "map erase ch = members" "hmem h = []"
    using growing_forest[OF assms(1)] by blast
  obtain h' x where x: "c = Some (True, h')" "hmem h' = []" "erase x = item"
    "forest h' (adopt r x (LT r cJSON_Object None 0 (Fin 0) None (v # LT d cJSON_Object None 0 (Fin 0) (Some (kd, ''data'')) ch # ts) # F))"
    using add[OF g(1,5)] by auto
  have "r \<notin> set (node_addrs F)" using forest_distinct[OF g(1)] by simp
  then have "forest h' (LT r cJSON_Object None 0 (Fin 0) None (v # LT d cJSON_Object None 0 (Fin 0) (Some (kd, ''data'')) ch # (ts @ [x])) # F)"
    using x(4) by simp
  moreover have "map erase (ts @ [x]) = tops @ [item]" using g(3) x(3) by simp
  ultimately have "growing h' r d (tops @ [item]) members F"
    using g(2,4) x(2) unfolding growing_def by blast
  then show ?thesis using x(1) by blast
qed

lemma growing_data:
  assumes "growing h r d tops members F"
    and add: "\<And>F'. forest h F' \<Longrightarrow> hmem h = [] \<Longrightarrow> d \<in> set (node_addrs F') \<Longrightarrow>
      \<exists>h' x. c = Some (True, h') \<and> hmem h' = [] \<and> erase x = item \<and> forest h' (adopt d x F')"
  shows "\<exists>h'. c = Some (True, h') \<and> growing h' r d tops (members @ [item]) F"
proof -
  obtain v kd ch ts where g: "forest h (LT r cJSON_Object None 0 (Fin 0) None (v # LT d cJSON_Object None 0 (Fin 0) (Some (kd, ''data'')) ch # ts) # F)"
    "erase v = number_item ''version'' DATA_FORMAT_VERSION" "map erase ts = tops" "map erase ch = members" "hmem h = []"
    using growing_forest[OF assms(1)] by blast
  have in_d: "d \<in> set (node_addrs (LT r cJSON_Object None 0 (Fin 0) None (v # LT d cJSON_Object None 0 (Fin 0) (Some (kd, ''data'')) ch # ts) # F))"
    using node_addrs_Cons[of v "LT d cJSON_Object None 0 (Fin 0) (Some (kd, ''data'')) ch # ts"] by simp
  obtain h' x where x: "c = Some (True, h')" "hmem h' = []" "erase x = item"
    "forest h' (adopt d x (LT r cJSON_Object None 0 (Fin 0) None (v # LT d cJSON_Object None 0 (Fin 0) (Some (kd, ''data'')) ch # ts) # F))"
    using add[OF g(1,5) in_d] by auto
  have n: "r \<noteq> d" "d \<notin> set (node_addrs F)" "d \<notin> set (node_addrs [v])" "d \<notin> set (node_addrs ts)"
    using forest_distinct[OF g(1)] node_addrs_Cons[of v "LT d cJSON_Object None 0 (Fin 0) (Some (kd, ''data'')) ch # ts"] by auto
  have "adopt d x (v # LT d cJSON_Object None 0 (Fin 0) (Some (kd, ''data'')) ch # ts)
    = adopt d x [v] @ adopt d x (LT d cJSON_Object None 0 (Fin 0) (Some (kd, ''data'')) ch # ts)"
    using adopt_append[of d x "[v]" "LT d cJSON_Object None 0 (Fin 0) (Some (kd, ''data'')) ch # ts"]
    by (simp only: append_Cons append_Nil)
  also have "\<dots> = v # LT d cJSON_Object None 0 (Fin 0) (Some (kd, ''data'')) (ch @ [x]) # ts"
    using n(3,4) by (simp del: node_addrs.simps)
  finally have "adopt d x (LT r cJSON_Object None 0 (Fin 0) None (v # LT d cJSON_Object None 0 (Fin 0) (Some (kd, ''data'')) ch # ts) # F)
    = LT r cJSON_Object None 0 (Fin 0) None (v # LT d cJSON_Object None 0 (Fin 0) (Some (kd, ''data'')) (ch @ [x]) # ts) # F"
    using n(1,2) by (simp del: node_addrs.simps)
  then have "forest h' (LT r cJSON_Object None 0 (Fin 0) None (v # LT d cJSON_Object None 0 (Fin 0) (Some (kd, ''data'')) (ch @ [x]) # ts) # F)"
    using x(4) by (simp only:)
  moreover have "map erase (ch @ [x]) = members @ [item]" using g(4) x(3) by simp
  ultimately have "growing h' r d tops (members @ [item]) F"
    using g(2,3) x(2) unfolding growing_def by blast
  then show ?thesis using x(1) by blast
qed

lemma add_text_item:
  assumes "forest h F" and "hmem h = []" and "ob \<in> set (node_addrs F)"
  shows "\<exists>h' x. add_created (cJSON_CreateString (Some s) h) r ob nm = Some (True, h') \<and> hmem h' = []
    \<and> erase x = string_item nm s \<and> forest h' (adopt ob x F)"
proof -
  obtain h' i q p where "add_created (cJSON_CreateString (Some s) h) r ob nm = Some (True, h')" "hmem h' = []"
    "forest h' (adopt ob (LT i cJSON_String (Some (q, s)) 0 (Fin 0) (Some (p, nm)) []) F)"
    using add_text_ok[OF assms] by blast
  moreover have "erase (LT i cJSON_String (Some (q, s)) 0 (Fin 0) (Some (p, nm)) []) = string_item nm s"
    by (simp add: string_item_def)
  ultimately show ?thesis by blast
qed

lemma add_number_item:
  assumes "forest h F" and "hmem h = []" and "ob \<in> set (node_addrs F)"
  shows "\<exists>h' x. add_created (cJSON_CreateNumber v h) r ob nm = Some (True, h') \<and> hmem h' = []
    \<and> erase x = number_item nm v \<and> forest h' (adopt ob x F)"
proof -
  obtain h' i p where "add_created (cJSON_CreateNumber v h) r ob nm = Some (True, h')" "hmem h' = []"
    "forest h' (adopt ob (LT i cJSON_Number None (saturate v) v (Some (p, nm)) []) F)"
    using add_number_ok[OF assms] by blast
  moreover have "erase (LT i cJSON_Number None (saturate v) v (Some (p, nm)) []) = number_item nm v"
    by (simp add: number_item_def)
  ultimately show ?thesis by blast
qed

lemma growing_type:
  assumes "growing h r d tops members F"
  shows "\<exists>h'. add_created (cJSON_CreateString (Some s) h) r' r nm = Some (True, h')
    \<and> growing h' r d (tops @ [string_item nm s]) members F"
  by (rule growing_root[OF assms]) (rule add_text_item)

lemma growing_text:
  assumes "growing h r d tops members F"
  shows "\<exists>h'. add_created (cJSON_CreateString (Some s) h) r' d nm = Some (True, h')
    \<and> growing h' r d tops (members @ [string_item nm s]) F"
  by (rule growing_data[OF assms]) (rule add_text_item)

lemma growing_number:
  assumes "growing h r d tops members F"
  shows "\<exists>h'. add_created (cJSON_CreateNumber v h) r' d nm = Some (True, h')
    \<and> growing h' r d tops (members @ [number_item nm v]) F"
  by (rule growing_data[OF assms]) (rule add_number_item)

fun wire_type :: "notice \<Rightarrow> bytes" where
  "wire_type (ValveError v s) = ''HARD_ERROR_VALVE''"
| "wire_type (OtherError s) = ''HARD_ERROR_OTHER''"
| "wire_type (SoftwareError s) = ''SOFT_ERROR''"
| "wire_type Alive = ''KEEP_ALIVE''"

fun wire_members :: "notice \<Rightarrow> cJSON list" where
  "wire_members (ValveError v s) = [string_item ''message'' s, number_item ''valve_no'' (dbl_int v)]"
| "wire_members (OtherError s) = [string_item ''message'' s]"
| "wire_members (SoftwareError s) = [string_item ''message'' s]"
| "wire_members Alive = []"

lemma wire_tree_eq: "wire_tree n = wire_object (wire_type n) (wire_members n)"
  by (cases n) auto

lemma printable_ok:
  assumes "growing h r d [] [] F"
  shows "\<exists>h'. PRINTABLE_MSG_DECODE G r d tn (Some g) h = Some (True, h')
    \<and> growing h' r d [string_item ''type'' tn] [string_item ''message'' (g_str G g)] F"
proof -
  obtain h1 where h1: "add_created (cJSON_CreateString (Some tn) h) r r ''type'' = Some (True, h1)"
    "growing h1 r d [string_item ''type'' tn] [] F" using growing_type[OF assms, of tn r "''type''"] by auto
  then show ?thesis using growing_text[OF h1(2), of "g_str G g" r "''message''"]
    by (auto simp: PRINTABLE_MSG_DECODE_def)
qed

lemma encode_body_ok:
  assumes "growing h r d [] [] F" and "view G m = Some n"
  shows "\<exists>h'. encode_body G m r d h = Some (True, h')
    \<and> growing h' r d [string_item ''type'' (wire_type n)] (wire_members n) F"
proof (cases n)
  case (ValveError v s)
  then obtain g where m: "mtype m = HARD_ERROR_VALVE" "mdata m = Hardware_valve v (Some g)" "s = g_str G g"
    using assms(2) by (auto simp: view_def split: MessageType.splits MessageData.splits option.splits)
  obtain h1 where h1: "PRINTABLE_MSG_DECODE G r d ''HARD_ERROR_VALVE'' (Some g) h = Some (True, h1)"
    "growing h1 r d [string_item ''type'' ''HARD_ERROR_VALVE''] [string_item ''message'' s] F"
    using printable_ok[OF assms(1), of G "''HARD_ERROR_VALVE''" g] m(3) by blast
  show ?thesis using growing_number[OF h1(2), of "dbl_int v" r "''valve_no''"] h1(1) m ValveError
    by (auto simp: encode_body_def)
next
  case (OtherError s)
  then obtain g where m: "mtype m = HARD_ERROR_OTHER" "mdata m = Hardware_other (Some g)" "s = g_str G g"
    using assms(2) by (auto simp: view_def split: MessageType.splits MessageData.splits option.splits)
  show ?thesis using printable_ok[OF assms(1), of G "''HARD_ERROR_OTHER''" g] m OtherError
    by (auto simp: encode_body_def)
next
  case (SoftwareError s)
  then obtain g where m: "mtype m = SOFT_ERROR" "mdata m = Software (Some g)" "s = g_str G g"
    using assms(2) by (auto simp: view_def split: MessageType.splits MessageData.splits option.splits)
  show ?thesis using printable_ok[OF assms(1), of G "''SOFT_ERROR''" g] m SoftwareError
    by (auto simp: encode_body_def)
next
  case Alive
  then have m: "mtype m = KEEP_ALIVE"
    using assms(2) by (auto simp: view_def split: MessageType.splits MessageData.splits option.splits)
  show ?thesis using growing_type[OF assms(1), of "''KEEP_ALIVE''" r "''type''"] m Alive
    by (auto simp: encode_body_def split: MessageData.splits)
qed

lemma build_message_ok:
  assumes "forest h F" and "hmem h = []" and "view G m = Some n"
  shows "\<exists>r T h'. build_message G m h = Some (Some r, h') \<and> laddr T = r \<and> erase T = wire_tree n
    \<and> forest h' (T # F) \<and> hmem h' = []"
proof -
  obtain v r d h1 h2 h3 h4 h5 where s: "cJSON_CreateNumber DATA_FORMAT_VERSION h = Some (Some v, h1)"
    "cJSON_CreateObject h1 = Some (Some r, h2)"
    "cJSON_AddItemToObject (Some r) (Some ''version'') (Some v) h2 = Some h3"
    "cJSON_CreateObject h3 = Some (Some d, h4)"
    "cJSON_AddItemToObject (Some r) (Some ''data'') (Some d) h4 = Some h5" "growing h5 r d [] [] F"
    using growing_start[OF assms(1,2)] by blast
  obtain h6 where h6: "encode_body G m r d h5 = Some (True, h6)"
    "growing h6 r d [string_item ''type'' (wire_type n)] (wire_members n) F"
    using encode_body_ok[OF s(6) assms(3)] by blast
  then have b: "build_message G m h = Some (Some r, h6)" using s by (simp add: build_message_def)
  obtain vt kd ch ts where g: "forest h6 (LT r cJSON_Object None 0 (Fin 0) None (vt # LT d cJSON_Object None 0 (Fin 0) (Some (kd, ''data'')) ch # ts) # F)"
    "erase vt = number_item ''version'' DATA_FORMAT_VERSION" "map erase ts = [string_item ''type'' (wire_type n)]"
    "map erase ch = wire_members n" "hmem h6 = []"
    using growing_forest[OF h6(2)] by blast
  have "erase (LT r cJSON_Object None 0 (Fin 0) None (vt # LT d cJSON_Object None 0 (Fin 0) (Some (kd, ''data'')) ch # ts)) = wire_tree n"
    using g(2-4) by (simp add: wire_tree_eq wire_object_def)
  then show ?thesis using b g(1,5) ltree.sel(1) by blast
qed

lemma encode_ok_memory:
  assumes "forest h F" and "hmem h = []" and "view G m = Some n" and "notice_ok n"
    and "length (wire_text n) + 2 \<le> 2147483647"
  shows "\<exists>h'. encode_message G (Some m) (Some old) h
      = Some (int (strnlen (wire_text n) MAX_ENCODED_LEN), Some (Some (wire_text n)), h') \<and> forest h' F \<and> hmem h' = []"
proof -
  obtain r T h1 where b: "build_message G m h = Some (Some r, h1)" "laddr T = r" "erase T = wire_tree n"
    "forest h1 (T # F)" "hmem h1 = []"
    using build_message_ok[OF assms(1-3)] by blast
  have "linked h1 None [T]" using b(4) by (simp add: forest_def)
  then have l: "load (Some r) h1 = Some [wire_tree n]" using load_linked[of h1 None "[T]"] b(2,3) by simp
  note c = wire_tree_canonical[OF assms(4)]
  have p: "cJSON_PrintUnformatted (Some (wire_tree n)) [] = Printed (wire_text n)"
    using print_ok[OF canonical_printable[OF conjunct1[OF c]]] c assms(5)
    by (simp add: cJSON_PrintUnformatted_def wire_text_def)
  obtain h2 where "cJSON_Delete (Some r) h1 = Some h2" "forest h2 F" "hmem h2 = []"
    using Delete_forest[of h1 "[]" T F] b(2,4,5) by auto
  then show ?thesis using b(1,5) l p by (simp add: encode_message_def)
qed

lemma encode_ok:
  assumes "forest h F" and "hmem h = []" and "view G m = Some n" and "notice_ok n"
    and "length (wire_text n) + 2 \<le> 2147483647"
  shows "\<exists>h'. encode_message G (Some m) (Some old) h
      = Some (int (strnlen (wire_text n) MAX_ENCODED_LEN), Some (Some (wire_text n)), h') \<and> forest h' F"
  using encode_ok_memory[OF assms] by blast

section \<open>Building the tree when memory runs out\<close>

lemma laddr_adopt: "map laddr (adopt d x ts) = map laddr ts"
  by (induction ts rule: node_addrs.induct) auto

lemma adopt_keeps: "set (node_addrs ts) \<subseteq> set (node_addrs (adopt d x ts))"
  by (induction ts rule: node_addrs.induct) auto

lemma adopt_adds: "ob \<in> set (node_addrs ts) \<Longrightarrow> laddr y \<in> set (node_addrs (adopt ob y ts))"
  by (induction ts rule: node_addrs.induct) auto

lemma laddr_with_key [simp]: "laddr (with_key p s x) = laddr x"
  by (cases x) simp

lemma adopt_front:
  assumes "forest h (x # L @ F)" and "ob \<in> set (node_addrs L)"
  shows "adopt ob y (L @ F) = adopt ob y L @ F"
proof -
  have "distinct (node_addrs (x # L @ F))" by (rule forest_distinct[OF assms(1)])
  then have "distinct (node_addrs L @ node_addrs F)" using node_addrs_Cons[of x "L @ F"] by simp
  then have "ob \<notin> set (node_addrs F)" using assms(2) by auto
  then show ?thesis by simp
qed

text \<open>What a creation function answers, whatever the allocator does.\<close>

definition creates :: "(addr option \<times> heap) option \<Rightarrow> ltree list \<Rightarrow> bool" where
  "creates c F \<longleftrightarrow> (\<exists>h'. c = Some (None, h') \<and> forest h' F)
     \<or> (\<exists>h' x. c = Some (Some (laddr x), h') \<and> forest h' (x # F) \<and> lkey x = None)"

lemma create_creates:
  assumes "forest h F" and "f blank_node = lnode None (leaf (brk h) t None vi vd) []"
    and "\<not> has_flag t cJSON_IsReference" "\<not> has_flag t cJSON_StringIsConst"
  shows "creates (create f h) F"
proof -
  have "laddr (leaf (brk h) t None vi vd) = brk h" "lkey (leaf (brk h) t None vi vd) = None"
    by (simp_all add: leaf_def)
  then show ?thesis using create_forest[of h F f t vi vd] assms unfolding creates_def by metis
qed

lemma CreateNumber_creates: "forest h F \<Longrightarrow> creates (cJSON_CreateNumber v h) F"
  unfolding cJSON_CreateNumber_def
  by (rule create_creates[where t = cJSON_Number and vi = "saturate v" and vd = v])
    (simp_all add: blank_node_def lnode_def leaf_def has_flag_def)

lemma CreateObject_creates: "forest h F \<Longrightarrow> creates (cJSON_CreateObject h) F"
  unfolding cJSON_CreateObject_def
  by (rule create_creates[where t = cJSON_Object and vi = 0 and vd = "Fin 0"])
    (simp_all add: blank_node_def lnode_def leaf_def has_flag_def)

lemma CreateString_creates: "forest h F \<Longrightarrow> creates (cJSON_CreateString (Some s) h) F"
proof -
  assume f: "forest h F"
  let ?x = "leaf (brk h) cJSON_String (Some (brk h + 1, s)) 0 (Fin 0)"
  have "laddr ?x = brk h" "lkey ?x = None" by (simp_all add: leaf_def)
  then show ?thesis using CreateString_forest[OF f, of s] unfolding creates_def by metis
qed

text \<open>\<open>L\<close> are the trees made so far: later ones have at least their roots and nodes. A safe
  step ends without a fault, whether it succeeds or not, and leaves \<open>F\<close> alone.\<close>

definition grown :: "ltree list \<Rightarrow> ltree list \<Rightarrow> bool" where
  "grown L L' \<longleftrightarrow> laddr ` set L \<subseteq> laddr ` set L' \<and> set (node_addrs L) \<subseteq> set (node_addrs L')"

definition safe_step :: "(bool \<times> heap) option \<Rightarrow> ltree list \<Rightarrow> ltree list \<Rightarrow> bool" where
  "safe_step c L F \<longleftrightarrow> (\<exists>ok h' L'. c = Some (ok, h') \<and> forest h' (L' @ F) \<and> (ok \<longrightarrow> grown L L'))"

lemma grown_refl [simp]: "grown L L"
  by (simp add: grown_def)

lemma grown_trans: "grown L L' \<Longrightarrow> grown L' L'' \<Longrightarrow> grown L L''"
  unfolding grown_def by (meson order_trans)

lemma grown_Cons: "grown L (x # L)"
  using node_addrs_Cons[of x L] by (auto simp: grown_def)

lemma grown_adopt: "grown L (adopt ob y L)"
proof -
  have "laddr ` set (adopt ob y L) = laddr ` set L"
    using laddr_adopt[of ob y L] by (metis list.set_map)
  then show ?thesis using adopt_keeps[of L ob y] by (simp add: grown_def)
qed

lemma grownD:
  assumes "grown L L'"
  shows "r \<in> laddr ` set L \<Longrightarrow> r \<in> laddr ` set L'" and "d \<in> set (node_addrs L) \<Longrightarrow> d \<in> set (node_addrs L')"
  using assms by (auto simp: grown_def)

lemma safe_okI: "c = Some (True, h') \<Longrightarrow> forest h' (L' @ F) \<Longrightarrow> grown L L' \<Longrightarrow> safe_step c L F"
  and safe_failI: "c = Some (False, h') \<Longrightarrow> forest h' (L' @ F) \<Longrightarrow> safe_step c L F"
  unfolding safe_step_def by blast+

lemma safe_bind:
  assumes "safe_step c L F"
    and "\<And>h' L'. forest h' (L' @ F) \<Longrightarrow> grown L L' \<Longrightarrow> safe_step (k h') L' F"
  shows "safe_step (do { (ok, h1) \<leftarrow> c; (if \<not> ok then Some (False, h1) else k h1) }) L F"
proof -
  obtain ok h1 L1 where 1: "c = Some (ok, h1)" "forest h1 (L1 @ F)" "ok \<longrightarrow> grown L L1"
    using assms(1) by (auto simp: safe_step_def)
  show ?thesis
  proof (cases ok)
    case True
    then obtain ok2 h2 L2 where "k h1 = Some (ok2, h2)" "forest h2 (L2 @ F)" "ok2 \<longrightarrow> grown L1 L2"
      using assms(2)[OF 1(2)] 1(3) by (auto simp: safe_step_def)
    then show ?thesis using 1 True grown_trans unfolding safe_step_def by auto
  next
    case False
    then show ?thesis using 1 by (intro safe_failI) auto
  qed
qed

lemma add_item_safe:
  assumes "forest h (x # L @ F)" and "ob \<in> set (node_addrs L)" and "lkey x = None"
  shows "\<exists>h' L'. cJSON_AddItemToObject (Some ob) (Some nm) (Some (laddr x)) h = Some h' \<and> forest h' (L' @ F)
    \<and> grown L L' \<and> laddr x \<in> set (node_addrs L')"
proof -
  have ob: "ob \<in> set (node_addrs ([] @ L @ F))" using assms(2) by simp
  have f: "forest h ([] @ x # L @ F)" using assms(1) by simp
  let ?y = "with_key (brk h) nm x"
  from AddItemToObject_forest[OF f ob assms(3), of nm]
  consider h' where "cJSON_AddItemToObject (Some ob) (Some nm) (Some (laddr x)) h = Some h'" "forest h' ((x # L) @ F)"
    | h' where "cJSON_AddItemToObject (Some ob) (Some nm) (Some (laddr x)) h = Some h'"
      "forest h' (adopt ob ?y L @ F)"
    using adopt_front[OF assms(1,2)] by auto
  then show ?thesis
  proof cases
    case 1
    have "laddr x \<in> set (node_addrs (x # L))" by (rule laddr_in) simp
    then show ?thesis using 1 grown_Cons by blast
  next
    case 2
    have "laddr x \<in> set (node_addrs (adopt ob ?y L))" using adopt_adds[OF assms(2), of ?y] by simp
    then show ?thesis using 2 grown_adopt by blast
  qed
qed

lemma add_second_safe:
  assumes "forest h (r # x # F)" and "lkey x = None"
  shows "\<exists>h' L'. cJSON_AddItemToObject (Some (laddr r)) (Some nm) (Some (laddr x)) h = Some h'
    \<and> forest h' (L' @ F) \<and> laddr r \<in> laddr ` set L'"
proof -
  let ?y = "with_key (brk h) nm x"
  have f: "forest h ([r] @ x # F)" using assms(1) by simp
  have r: "laddr r \<in> set (node_addrs [r])" by (rule laddr_in) simp
  then have r': "laddr r \<in> set (node_addrs ([r] @ F))" by simp
  have "distinct (node_addrs [r] @ node_addrs [x] @ node_addrs F)"
    using forest_distinct[OF assms(1)] node_addrs_Cons[of r "x # F"] node_addrs_Cons[of x F] by simp
  then have "set (node_addrs [r]) \<inter> set (node_addrs F) = {}" by auto
  then have "laddr r \<notin> set (node_addrs F)" using r by blast
  then have a: "adopt (laddr r) ?y ([r] @ F) = adopt (laddr r) ?y [r] @ F"
    by (simp del: append_Cons append_Nil)
  from AddItemToObject_forest[OF f r' assms(2), of nm]
  consider h' where "cJSON_AddItemToObject (Some (laddr r)) (Some nm) (Some (laddr x)) h = Some h'" "forest h' ([r, x] @ F)"
    | h' where "cJSON_AddItemToObject (Some (laddr r)) (Some nm) (Some (laddr x)) h = Some h'"
      "forest h' (adopt (laddr r) ?y [r] @ F)"
    using a by auto
  then show ?thesis
  proof cases
    case 1
    have "laddr r \<in> laddr ` set [r, x]" by simp
    then show ?thesis using 1 by blast
  next
    case 2
    have "laddr r \<in> laddr ` set (adopt (laddr r) ?y [r])"
      by (rule grownD(1)[OF grown_adopt]) simp
    then show ?thesis using 2 by blast
  qed
qed

lemma delete_root_safe:
  assumes "forest h (L @ F)" and "r \<in> laddr ` set L"
  shows "\<exists>h' L'. cJSON_Delete (Some r) h = Some h' \<and> forest h' (L' @ F)"
proof -
  obtain A x B where L: "L = A @ x # B" "laddr x = r" using assms(2) by (metis imageE split_list)
  then show ?thesis using Delete_forest[of h A x "B @ F"] assms(1)
    by (metis append.assoc append_Cons)
qed

lemma add_created_safe:
  assumes "creates c (L @ F)" and "r \<in> laddr ` set L" and "ob \<in> set (node_addrs L)"
  shows "safe_step (add_created c r ob nm) L F"
proof -
  from assms(1) consider h1 where "c = Some (None, h1)" "forest h1 (L @ F)"
    | h1 x where "c = Some (Some (laddr x), h1)" "forest h1 (x # L @ F)" "lkey x = None"
    by (auto simp: creates_def)
  then show ?thesis
  proof cases
    case 1
    obtain h' L' where "cJSON_Delete (Some r) h1 = Some h'" "forest h' (L' @ F)"
      using delete_root_safe[OF 1(2) assms(2)] by blast
    then show ?thesis using 1(1) by (intro safe_failI) (simp_all add: add_created_def)
  next
    case 2
    obtain h' L' where "cJSON_AddItemToObject (Some ob) (Some nm) (Some (laddr x)) h1 = Some h'"
      "forest h' (L' @ F)" "grown L L'" using add_item_safe[OF 2(2) assms(3) 2(3)] by blast
    then show ?thesis using 2(1) by (intro safe_okI) (simp_all add: add_created_def)
  qed
qed

lemmas add_text_safe = add_created_safe[OF CreateString_creates]
  and add_number_safe = add_created_safe[OF CreateNumber_creates]

lemma root_node: "r \<in> laddr ` set L \<Longrightarrow> r \<in> set (node_addrs L)"
  by auto

lemma printable_safe:
  assumes "forest h (L @ F)" and "r \<in> laddr ` set L" and "d \<in> set (node_addrs L)"
  shows "safe_step (PRINTABLE_MSG_DECODE G r d tn (Some g) h) L F"
  unfolding PRINTABLE_MSG_DECODE_def bind.bind_lunit
  by (rule safe_bind[OF add_text_safe[OF assms(1,2) root_node[OF assms(2)]]])
    (rule add_text_safe; use assms(2,3) grownD in blast)

text \<open>A message whose union holds the member its type announces, with a string in it.\<close>

definition message_ok :: "'g glib \<Rightarrow> 'g Message \<Rightarrow> bool" where
  "message_ok G m \<longleftrightarrow> mtype m = INVALID \<or> view G m \<noteq> None"

lemma message_cases:
  assumes "message_ok G m"
  obtains (invalid) "mtype m = INVALID" | (alive) "mtype m = KEEP_ALIVE"
  | (soft) g where "mtype m = SOFT_ERROR" "mdata m = Software (Some g)"
  | (other) g where "mtype m = HARD_ERROR_OTHER" "mdata m = Hardware_other (Some g)"
  | (valve) v g where "mtype m = HARD_ERROR_VALVE" "mdata m = Hardware_valve v (Some g)"
  using assms by (auto simp: message_ok_def view_def split: MessageType.splits MessageData.splits option.splits)

lemma encode_body_safe:
  assumes "forest h (L @ F)" and "r \<in> laddr ` set L" and "d \<in> set (node_addrs L)" and "message_ok G m"
  shows "safe_step (encode_body G m r d h) L F"
  using assms(4)
proof (cases rule: message_cases)
  case invalid
  obtain h' L' where "cJSON_Delete (Some r) h = Some h'" "forest h' (L' @ F)"
    using delete_root_safe[OF assms(1,2)] by blast
  then show ?thesis using invalid
    by (intro safe_failI) (simp_all add: encode_body_def split: MessageData.splits)
next
  case alive
  then have "encode_body G m r d h = add_created (cJSON_CreateString (Some ''KEEP_ALIVE'') h) r r ''type''"
    by (simp add: encode_body_def split: MessageData.splits)
  then show ?thesis using add_text_safe[OF assms(1,2) root_node[OF assms(2)]] by simp
next
  case (soft g)
  then show ?thesis using printable_safe[OF assms(1-3)] by (simp add: encode_body_def)
next
  case (other g)
  then show ?thesis using printable_safe[OF assms(1-3)] by (simp add: encode_body_def)
next
  case (valve v g)
  have "safe_step (do { (ok, h1) \<leftarrow> PRINTABLE_MSG_DECODE G r d ''HARD_ERROR_VALVE'' (Some g) h;
       (if \<not> ok then Some (False, h1)
        else add_created (cJSON_CreateNumber (dbl_int v) h1) r d ''valve_no'') }) L F"
    by (rule safe_bind[OF printable_safe[OF assms(1-3)]])
      (rule add_number_safe; use assms(2,3) grownD in blast)
  then show ?thesis using valve by (simp add: encode_body_def)
qed

lemma build_message_safe:
  assumes "forest h F" and "message_ok G m"
  shows "\<exists>res h' L. build_message G m h = Some (res, h') \<and> forest h' (L @ F)
    \<and> (\<forall>r. res = Some r \<longrightarrow> r \<in> laddr ` set L)"
proof -
  from CreateNumber_creates[OF assms(1), of DATA_FORMAT_VERSION]
  consider h1 where "cJSON_CreateNumber DATA_FORMAT_VERSION h = Some (None, h1)" "forest h1 F"
    | h1 v where "cJSON_CreateNumber DATA_FORMAT_VERSION h = Some (Some (laddr v), h1)" "forest h1 ([v] @ F)" "lkey v = None"
    by (auto simp: creates_def)
  then show ?thesis
  proof cases
    case 1
    then show ?thesis by (intro exI[of _ None] exI[of _ h1] exI[of _ "[]"]) (simp add: build_message_def)
  next
    case v: 2
    from CreateObject_creates[OF v(2)]
    consider h2 where "cJSON_CreateObject h1 = Some (None, h2)" "forest h2 ([v] @ F)"
      | h2 r where "cJSON_CreateObject h1 = Some (Some (laddr r), h2)" "forest h2 (r # [v] @ F)" "lkey r = None"
      by (auto simp: creates_def)
    then show ?thesis
    proof cases
      case 1
      obtain h3 L3 where "cJSON_Delete (Some (laddr v)) h2 = Some h3" "forest h3 (L3 @ F)"
        using delete_root_safe[OF 1(2)] by auto
      then show ?thesis using v 1
        by (intro exI[of _ None] exI[of _ h3] exI[of _ L3]) (simp add: build_message_def)
    next
      case r: 2
      obtain h3 L3 where a3: "cJSON_AddItemToObject (Some (laddr r)) (Some ''version'') (Some (laddr v)) h2 = Some h3"
        "forest h3 (L3 @ F)" "laddr r \<in> laddr ` set L3"
        using add_second_safe[OF r(2)[simplified] v(3), of "''version''"] by blast
      from CreateObject_creates[OF a3(2)]
      consider h4 where "cJSON_CreateObject h3 = Some (None, h4)" "forest h4 (L3 @ F)"
        | h4 d where "cJSON_CreateObject h3 = Some (Some (laddr d), h4)" "forest h4 (d # L3 @ F)" "lkey d = None"
        by (auto simp: creates_def)
      then show ?thesis
      proof cases
        case 1
        obtain h5 L5 where "cJSON_Delete (Some (laddr r)) h4 = Some h5" "forest h5 (L5 @ F)"
          using delete_root_safe[OF 1(2) a3(3)] by auto
        then show ?thesis using v(1) r(1) a3(1) 1(1)
          by (intro exI[of _ None] exI[of _ h5] exI[of _ L5]) (simp add: build_message_def)
      next
        case d: 2
        obtain h5 L5 where a5: "cJSON_AddItemToObject (Some (laddr r)) (Some ''data'') (Some (laddr d)) h4 = Some h5"
          "forest h5 (L5 @ F)" "laddr r \<in> laddr ` set L5" "laddr d \<in> set (node_addrs L5)"
          using add_item_safe[OF d(2) root_node[OF a3(3)] d(3), of "''data''"] grownD(1)[OF _ a3(3)] by blast
        from encode_body_safe[OF a5(2-4) assms(2)] obtain ok h6 L6
          where "encode_body G m (laddr r) (laddr d) h5 = Some (ok, h6)" "forest h6 (L6 @ F)" "ok \<longrightarrow> grown L5 L6"
          by (auto simp: safe_step_def)
        then show ?thesis using v(1) r(1) a3(1) d(1) a5(1,3) grownD(1)
          by (intro exI[of _ "if ok then Some (laddr r) else None"] exI[of _ h6] exI[of _ L6])
            (auto simp: build_message_def)
      qed
    qed
  qed
qed

section \<open>Decoding arbitrary text\<close>

lemma find_ci_in: "find_ci name is = Some i \<Longrightarrow> i \<in> set is"
  by (induction "is") (auto split: if_splits)

lemma GetObjectItem_typed:
  assumes "cJSON_GetObjectItem (Some ob) (Some name) = Some i" and "well_typed ob"
  shows "well_typed i"
proof -
  have "i \<in> set (child ob)"
    using assms(1) find_ci_in by (auto simp: cJSON_GetObjectItem_def get_object_item_def)
  then show ?thesis using assms(2) by (cases ob) auto
qed

lemma IsString_value:
  assumes "well_typed i" and "cJSON_IsString (Some i)"
  shows "\<exists>s. valuestring i = Some s"
  using assms by (cases i) (auto simp: cJSON_IsString_def type_is_def)

lemma saturate_range: "INT_MIN \<le> saturate d \<and> saturate d \<le> INT_MAX"
proof (cases d)
  case (Fin x)
  have "INT_MIN \<le> \<lceil>x\<rceil>" if "of_int INT_MIN < x" using that by (simp add: le_ceiling_iff)
  moreover have "\<lfloor>x\<rfloor> \<le> INT_MAX" if "x < of_int INT_MAX" using that by (simp add: floor_le_iff)
  moreover have "0 \<le> \<lfloor>x\<rfloor>" if "0 \<le> x" using that by simp
  moreover have "\<lceil>x\<rceil> \<le> 0" if "\<not> 0 \<le> x" using that by (simp add: ceiling_le_iff)
  ultimately show ?thesis using Fin by (auto simp: saturate_def not_le) (auto simp: INT_MIN_def INT_MAX_def)
qed (auto simp: saturate_def INT_MIN_def INT_MAX_def)

lemma IsNumber_value:
  assumes "well_typed i" and "cJSON_IsNumber (Some i)"
  shows "INT_MIN \<le> valueint i \<and> valueint i \<le> INT_MAX"
proof -
  have "valueint i = saturate (valuedouble i)"
    using assms by (cases i) (auto simp: cJSON_IsNumber_def type_is_def)
  then show ?thesis using saturate_range by simp
qed

lemma constructors_view:
  "view G (the (software_error G (Some m) s)) = Some (SoftwareError (g_str G (g_string_new G s)))"
  "view G (the (hardware_error_other G (Some m) s)) = Some (OtherError (g_str G (g_string_new G s)))"
  "view G (the (hardware_error_valve G (Some m) v s)) = Some (ValveError v (g_str G (g_string_new G s)))"
  "view G (the (keep_alive (Some m))) = Some Alive"
  by (simp_all add: software_error_def hardware_error_other_def hardware_error_valve_def keep_alive_def view_def)

lemma glib_str_nul_free: "glib_ok G \<Longrightarrow> nul_free (g_str G g)"
  by (simp add: glib_ok_def)

definition decodes_well :: "'g glib \<Rightarrow> 'g Message \<Rightarrow> bool \<times> 'g Message \<Rightarrow> bool" where
  "decodes_well G m0 r = (if fst r then (case view G (snd r) of None \<Rightarrow> False | Some n \<Rightarrow> notice_ok n) else snd r = m0)"

definition yields :: "'g glib \<Rightarrow> 'g Message \<Rightarrow> (bool \<times> 'g Message) option \<Rightarrow> bool" where
  "yields G m0 r \<longleftrightarrow> (\<exists>res. r = Some res \<and> decodes_well G m0 res)"

lemma yields_if: "(P \<Longrightarrow> yields G m x) \<Longrightarrow> (\<not> P \<Longrightarrow> yields G m y) \<Longrightarrow> yields G m (if P then x else y)"
  and yields_option: "(oo = None \<Longrightarrow> yields G m r) \<Longrightarrow> (\<And>d. oo = Some d \<Longrightarrow> yields G m (k d))
    \<Longrightarrow> yields G m (case oo of None \<Rightarrow> r | Some d \<Rightarrow> k d)"
  by (auto split: option.splits)

lemma decode_root_total:
  assumes r: "well_typed r" and G: "glib_ok G"
  shows "yields G m0 (decode_root G r m0)"
proof -
  note nf = glib_str_nul_free[OF G]
  have fail: "yields G m0 (Some (False, m0))" by (simp add: yields_def decodes_well_def)
  have soft: "yields G m0 (Some (True, the (software_error G (Some m0) s)))"
    and other: "yields G m0 (Some (True, the (hardware_error_other G (Some m0) s)))"
    and alive: "yields G m0 (Some (True, the (keep_alive (Some m0))))" for s
    using nf by (simp_all add: yields_def decodes_well_def constructors_view)
  have valve: "yields G m0 (Some (True, the (hardware_error_valve G (Some m0) (valueint v) s)))"
    if "cJSON_GetObjectItem (Some r) (Some ''data'') = Some da"
      "cJSON_GetObjectItem (Some da) (Some ''valve_no'') = Some v" "\<not> \<not> cJSON_IsNumber (Some v)" for da v s
    using nf IsNumber_value[OF GetObjectItem_typed[OF that(2) GetObjectItem_typed[OF that(1) r]]] that(3)
    by (simp add: yields_def decodes_well_def constructors_view)
  have str: "yields G m0 None"
    if "cJSON_GetObjectItem (Some r) (Some ''type'') = Some ty" "\<not> \<not> cJSON_IsString (Some ty)" "valuestring ty = None" for ty
    using IsString_value[OF GetObjectItem_typed[OF that(1) r]] that(2,3) by simp
  show ?thesis
    unfolding decode_root_def
    by (intro yields_if yields_option) (rule fail soft other alive valve str; assumption)+
qed

lemma cJSON_Parse_cases:
  assumes "nul_free s"
  shows "cJSON_Parse m (Some s) = Some None \<or> (\<exists>i. cJSON_Parse m (Some s) = Some (Some i) \<and> well_typed i)"
proof -
  obtain r where r: "cJSON_Parse m (Some s) = Some r"
    using parse_returns[OF assms, of m False] by (auto simp: cJSON_Parse_def)
  then show ?thesis using Parse_well_typed(1)[of m "Some s"] by (cases r) auto
qed

lemma decode_total:
  assumes "nul_free s" and "glib_ok G"
  shows "\<exists>ok m. decode_message G mm (Some s) (Some m0) = Some (ok, Some m) \<and> decodes_well G m0 (ok, m)"
  using cJSON_Parse_cases[OF assms(1), of mm]
proof (elim disjE exE conjE)
  fix r assume r: "cJSON_Parse mm (Some s) = Some (Some r)" and t: "well_typed r"
  then obtain ok m where "decode_root G r m0 = Some (ok, m)" "decodes_well G m0 (ok, m)"
    using decode_root_total[OF t assms(2), of m0] by (auto simp: yields_def)
  then show ?thesis using r by (intro exI[of _ ok] exI[of _ m]) (simp add: decode_message_def)
qed (intro exI[of _ False] exI[of _ m0], simp add: decode_message_def decodes_well_def)

end
