(* ===== verification/Framing.thy ===== *)
theory Framing
  imports MessageCodec
begin

text \<open>
  How the server cuts the byte stream of a socket into messages: \<open>read_json_object\<close> of
  \<open>src/server.c\<close>, which counts braces, and when that gives back the texts that were written.

  A socket is the bytes that have arrived and what \<open>read\<close> answers behind them: end of file (0)
  or -1 with an \<open>errno\<close>. The calls of \<open>read\<close> ask for one byte.
\<close>

section \<open>Reading one object\<close>

datatype errno = EAGAIN | EWOULDBLOCK | EBADF | Other_errno

datatype read_end = End_of_file | Failed errno

datatype ReadStatus = SUCCESS | ERROR | END

text \<open>The answer to the first \<open>read\<close> when there is no byte: \<open>errno\<close> is looked at first.\<close>

definition no_first_byte :: "read_end \<Rightarrow> ReadStatus" where
  "no_first_byte e = (case e of End_of_file \<Rightarrow> END
     | Failed en \<Rightarrow> if en = EBADF \<or> en = EAGAIN \<or> en = EWOULDBLOCK then END else ERROR)"

definition brace :: "char \<Rightarrow> int" where
  "brace c = (if c = CHR ''{'' then 1 else if c = CHR ''}'' then - 1 else 0)"

text \<open>The loop: the status, the string and the bytes that are left in the socket.\<close>

fun read_rest :: "int \<Rightarrow> bytes \<Rightarrow> bytes \<Rightarrow> ReadStatus \<times> bytes \<times> bytes" where
  "read_rest nest_count str [] = (ERROR, [], [])"
| "read_rest nest_count str (c # s) =
     (let n = nest_count + brace c; str' = str @ [c]
      in if n = 0 then (SUCCESS, str', s) else read_rest n str' s)"

fun read_json_object :: "read_end \<Rightarrow> bytes \<Rightarrow> ReadStatus \<times> bytes \<times> bytes" where
  "read_json_object e [] = (no_first_byte e, [], [])"
| "read_json_object e (c # s) =
     (if c \<noteq> CHR ''{'' then
        (if c = CHR 0x0A \<or> c = CHR 0x0D then read_json_object e s else (ERROR, [], s))
      else read_rest 1 ''{'' s)"

section \<open>Texts that are read back whole\<close>

definition braces :: "bytes \<Rightarrow> int" where
  "braces s = sum_list (map brace s)"

lemma braces_simps [simp]:
  "braces [] = 0" "braces (c # s) = brace c + braces s" "braces (s @ t) = braces s + braces t"
  by (simp_all add: braces_def)

text \<open>
  The C program counts in an \<open>int\<close>, here it is any integer: after \<open>length s\<close> bytes the count is
  at most \<open>length s\<close> away from its start, so it leaves the range of an \<open>int\<close> only if a text opens
  more than \<open>INT_MAX\<close> braces.
\<close>

lemma braces_bound: "\<bar>braces s\<bar> \<le> int (length s)"
  by (induction s) (auto simp: brace_def)

text \<open>The count stays positive after every byte.\<close>

fun stays :: "int \<Rightarrow> bytes \<Rightarrow> bool" where
  "stays n [] = True"
| "stays n (c # s) = (0 < n + brace c \<and> stays (n + brace c) s)"

lemma stays_append [simp]: "stays n (s @ t) \<longleftrightarrow> stays n s \<and> stays (n + braces s) t"
  by (induction s arbitrary: n) (auto simp: add.assoc)

lemma read_rest_stays: "stays n s \<Longrightarrow> read_rest n str (s @ t) = read_rest (n + braces s) (str @ s) t"
  by (induction s arbitrary: n str) (auto simp: Let_def add.assoc)

definition frame :: "bytes \<Rightarrow> bool" where
  "frame s \<longleftrightarrow> (\<exists>body. s = CHR ''{'' # body @ ''}'' \<and> stays 1 body \<and> 1 + braces body = 1)"

lemma read_frame:
  assumes "frame s"
  shows "read_json_object e (s @ rest) = (SUCCESS, s, rest)"
proof -
  obtain body where b: "s = CHR ''{'' # body @ ''}''" "stays 1 body" "braces body = 0"
    using assms by (auto simp: frame_def)
  have "read_rest 1 ''{'' (body @ CHR ''}'' # rest) = read_rest 1 (CHR ''{'' # body) (CHR ''}'' # rest)"
    using read_rest_stays[OF b(2), of "''{''" "CHR ''}'' # rest"] b(3) by simp
  then show ?thesis using b(1) by (simp add: brace_def Let_def)
qed

text \<open>
  A string in the data of a message is read at count 2: its own braces may take the count
  down to 1, and must be even at its end.
\<close>

definition nesting_ok :: "bytes \<Rightarrow> bool" where
  "nesting_ok s \<longleftrightarrow> stays 2 s \<and> braces s = 0"

lemma stays_mono: "stays n s \<Longrightarrow> n \<le> m \<Longrightarrow> stays m s"
proof (induction s arbitrary: n m)
  case (Cons c s)
  then show ?case using Cons.IH[of "n + brace c" "m + brace c"] by auto
qed simp

definition brace_free :: "bytes \<Rightarrow> bool" where
  "brace_free s \<longleftrightarrow> (\<forall>c \<in> set s. c \<noteq> CHR ''{'' \<and> c \<noteq> CHR ''}'')"

lemma brace_free: "brace_free s \<Longrightarrow> braces s = 0 \<and> (0 < n \<longrightarrow> stays n s)"
  by (induction s) (auto simp: brace_free_def brace_def)

lemma brace_free_nesting: "brace_free s \<Longrightarrow> nesting_ok s"
  using brace_free[of s 2] by (simp add: nesting_ok_def)

lemma stays_brace_free: "brace_free s \<Longrightarrow> s \<noteq> [] \<Longrightarrow> stays n s \<longleftrightarrow> 0 < n"
proof -
  assume b: "brace_free s" and "s \<noteq> []"
  then obtain c t where s: "s = c # t" by (cases s) auto
  then have "brace c = 0" "brace_free t" using b by (simp_all add: brace_free_def brace_def)
  then show ?thesis using brace_free[of t n] s by auto
qed

lemma escape_brace_free:
  assumes "c \<noteq> CHR ''{''" and "c \<noteq> CHR ''}''"
  shows "brace_free (escape_char c)"
proof -
  have h: "hex_digit (n mod 16) \<noteq> CHR ''{''" "hex_digit (n mod 16) \<noteq> CHR ''}''" for n
    using hex_digit_props(1)[of "n mod 16"] by (auto simp: hex_val_def split: if_splits)
  show ?thesis
    using assms h[of 0] h[of "code c div 16"] h[of "code c"]
    by (auto simp: brace_free_def escape_char_def short_escape_def u04x_def split: if_splits)
qed

lemma escape_braces:
  "braces (escape_char c) = brace c" "stays n (escape_char c) \<longleftrightarrow> 0 < n + brace c"
proof -
  have "braces (escape_char c) = brace c \<and> (stays n (escape_char c) \<longleftrightarrow> 0 < n + brace c)"
  proof (cases "c = CHR ''{'' \<or> c = CHR ''}''")
    case True
    then have "escape_char c = [c]" by (auto simp: escape_char_def)
    then show ?thesis by simp
  next
    case False
    then have "brace_free (escape_char c)" "brace c = 0" using escape_brace_free by (auto simp: brace_def)
    moreover have "escape_char c \<noteq> []" by (cases rule: escape_cases[of c]) auto
    ultimately show ?thesis using brace_free[of "escape_char c" 1] stays_brace_free by simp
  qed
  then show "braces (escape_char c) = brace c" "stays n (escape_char c) \<longleftrightarrow> 0 < n + brace c" by auto
qed

lemma escaped_braces:
  "braces (concat (map escape_char s)) = braces s" "stays n (concat (map escape_char s)) \<longleftrightarrow> stays n s"
  by (induction s arbitrary: n) (auto simp: escape_braces)

lemma show_int_brace_free: "brace_free (show_int v)"
proof -
  have "\<not> is_number_char (CHR ''{'')" "\<not> is_number_char (CHR ''}'')" by (simp_all add: is_number_char_def is_digit_def)
  then show ?thesis using show_int_chars unfolding brace_free_def by metis
qed

section \<open>The text of a message\<close>

lemma show_int_two: "show_int 2 = ''2''"
proof -
  have "digit 2 = CHR ''2''"
    by (rule of_char_eq_iff[where 'a = nat, THEN iffD1]) (simp add: digit_def)
  then show ?thesis by (simp add: show_int_def dec_digits.simps)
qed

lemma wire_object_text:
  \<open>render False 0 (wire_object tname members) = ''{"version":2,"data":{'' @ render_members False (Suc (Suc 0)) members
    @ ''},"type":"'' @ concat (map escape_char tname) @ ''"}''\<close>
proof -
  have "number_text (dbl_int 2) = ''2''"
    using number_text_int[of 2] show_int_two by simp
  then show ?thesis
    by (simp add: wire_object_def number_item_def string_item_def DATA_FORMAT_VERSION_def render_string_def
        escape_char_def short_escape_def)
qed

lemma wire_type_escape: "concat (map escape_char (wire_type n)) = wire_type n"
  by (cases n) (simp_all add: escape_char_def)

lemma message_member_text:
  \<open>render_members False d (string_item ''message'' s # is) = ''"message":"'' @ concat (map escape_char s) @ ''"''
    @ (if is \<noteq> [] then '','' else []) @ render_members False d is\<close>
  by (simp add: string_item_def render_string_def escape_char_def short_escape_def)

lemma valve_member_text:
  assumes "\<bar>v\<bar> < 10 ^ 15"
  shows \<open>render_members False d [number_item ''valve_no'' (dbl_int v)] = ''"valve_no":'' @ show_int v\<close>
  using number_text_int[OF assms] by (simp add: number_item_def render_string_def escape_char_def short_escape_def)

fun message_string :: "notice \<Rightarrow> bytes" where
  "message_string (ValveError v s) = s"
| "message_string (OtherError s) = s"
| "message_string (SoftwareError s) = s"
| "message_string Alive = []"

lemma wire_text_frame:
  assumes "notice_ok n" and "nesting_ok (message_string n)"
  shows "frame (wire_text n)"
proof -
  define body where \<open>body = ''"version":2,"data":{'' @ render_members False (Suc (Suc 0)) (wire_members n) @ ''},"type":"'' @ wire_type n @ ''"''\<close>
  have w: "wire_text n = CHR ''{'' # body @ ''}''"
    by (simp add: wire_text_def wire_tree_eq wire_object_text wire_type_escape body_def)
  have m: "stays 2 (message_string n)" "braces (message_string n) = 0"
    using assms(2) by (auto simp: nesting_ok_def)
  have "stays 2 (render_members False (Suc (Suc 0)) (wire_members n)) \<and> braces (render_members False (Suc (Suc 0)) (wire_members n)) = 0"
  proof (cases n)
    case (ValveError v s)
    then have v: "\<bar>v\<bar> < 10 ^ 15" using assms(1) by (auto simp: INT_MAX_def INT_MIN_def)
    show ?thesis using m ValveError brace_free[OF show_int_brace_free, of v 2]
      unfolding ValveError wire_members.simps message_member_text valve_member_text[OF v]
      by (simp add: escaped_braces brace_def)
  next
    case (OtherError s)
    show ?thesis using m OtherError unfolding OtherError wire_members.simps message_member_text
      by (simp add: escaped_braces brace_def)
  next
    case (SoftwareError s)
    show ?thesis using m SoftwareError unfolding SoftwareError wire_members.simps message_member_text
      by (simp add: escaped_braces brace_def)
  qed simp
  moreover have "stays 1 (wire_type n) \<and> braces (wire_type n) = 0"
    by (cases n) (simp_all add: brace_def)
  ultimately have "stays 1 body" "braces body = 0" by (simp_all add: body_def brace_def)
  then show ?thesis using w unfolding frame_def by fastforce
qed

end
