(* ===== verification/CodecLaws.thy ===== *)
theory CodecLaws
  imports Framing
begin

text \<open>
  The properties of the message codec (\<open>src/representation.c\<close>): the round trip, decoding of
  arbitrary text, memory safety of the encoder, and the length of the text.
\<close>

section \<open>The properties of the codec\<close>

text \<open>A concrete \<open>GString\<close> (its text), a store with nothing in it, and a message.\<close>

definition test_glib :: "bytes glib" where
  "test_glib = \<lparr>g_string_new = case_option [] c_str, g_str = c_str\<rparr>"

lemma test_glib_ok: "glib_ok test_glib"
  by (simp add: glib_ok_def test_glib_def)

definition valve_message :: "bytes Message" where
  "valve_message = \<lparr>mtype = HARD_ERROR_VALVE, mdata = Hardware_valve 42 (Some ''hot'')\<rparr>"

lemma valve_view: "view test_glib valve_message = Some (ValveError 42 ''hot'')"
  by (simp add: view_def valve_message_def test_glib_def)

text \<open>The length of the text: at most 84 bytes beside the escaped message.\<close>

definition escaped :: "bytes \<Rightarrow> bytes" where
  "escaped s = concat (map escape_char s)"

lemma show_int_length: "INT_MIN \<le> v \<Longrightarrow> v \<le> INT_MAX \<Longrightarrow> length (show_int v) \<le> 11"
proof -
  assume "INT_MIN \<le> v" and "v \<le> INT_MAX"
  then have "nat v < 10 ^ 10" "nat (- v) < 10 ^ 10" by (simp_all add: INT_MIN_def INT_MAX_def)
  then show ?thesis using length_dec_digits_le[of "nat v" 10] length_dec_digits_le[of "nat (- v)" 10]
    by (simp add: show_int_def)
qed

lemma wire_text_length:
  assumes "notice_ok n"
  shows "length (wire_text n) \<le> length (escaped (message_string n)) + 84"
proof (cases n)
  case (ValveError v s)
  then have v: "\<bar>v\<bar> < 10 ^ 15" "length (show_int v) \<le> 11"
    using assms show_int_length[of v] by (auto simp: INT_MAX_def INT_MIN_def)
  show ?thesis unfolding ValveError wire_text_def wire_tree.simps wire_object_text message_member_text valve_member_text[OF v(1)]
    using v(2) by (simp add: escaped_def escape_char_def)
next
  case (OtherError s)
  show ?thesis unfolding OtherError wire_text_def wire_tree.simps wire_object_text message_member_text
    by (simp add: escaped_def escape_char_def)
next
  case (SoftwareError s)
  show ?thesis unfolding SoftwareError wire_text_def wire_tree.simps wire_object_text message_member_text
    by (simp add: escaped_def escape_char_def)
qed (simp add: wire_text_def wire_object_text escape_char_def)

lemma escaped_length: "length (escaped s) \<le> 6 * length s"
proof (induction s)
  case (Cons c s)
  have "length (escape_char c) \<le> 6" by (cases rule: escape_cases[of c]) (auto simp: u04x_def)
  then show ?case using Cons by (simp add: escaped_def)
qed (simp add: escaped_def)


section \<open>The round trip\<close>

text \<open>C1: Encoding a message and decoding the text gives a message of the same content, whatever
  the message holds and whatever its destination held before. The encoder also returns the
  length of the text cut at \<open>MAX_ENCODED_LEN\<close>, and has freed every block that it allocated:
  the store holds exactly the trees that it held before.\<close>

theorem encode_decode_roundtrip:
  assumes "glib_ok G" and "view G m = Some n" and "notice_ok n"
    and "forest h F" and "hmem h = []" and "6 * length (message_string n) + 86 \<le> 2147483647"
  shows "\<exists>s h' m'. encode_message G (Some m) (Some old) h
      = Some (int (strnlen s MAX_ENCODED_LEN), Some (Some s), h') \<and> forest h' F
    \<and> decode_message G [] (Some s) (Some m0) = Some (True, Some m') \<and> view G m' = Some n"
proof -
  have "length (wire_text n) + 2 \<le> 2147483647"
    using assms(6) wire_text_length[OF assms(3)] escaped_length[of "message_string n"] by simp
  from encode_ok[OF assms(4,5,2,3) this] obtain h' where
    "encode_message G (Some m) (Some old) h
      = Some (int (strnlen (wire_text n) MAX_ENCODED_LEN), Some (Some (wire_text n)), h')" "forest h' F" by blast
  moreover obtain m' where "decode_root G (wire_tree n) m0 = Some (True, m')" "view G m' = Some n"
    using decode_wire_tree[OF assms(3,1)] by blast
  ultimately show ?thesis using wire_tree_parses[OF assms(3)] by (auto simp: decode_message_def)
qed

theorem encode_decode_roundtrip_witness:
  "\<exists>s h' m'. encode_message test_glib (Some valve_message) (Some None) (empty_heap [])
      = Some (int (strnlen s MAX_ENCODED_LEN), Some (Some s), h') \<and> forest h' []
    \<and> decode_message test_glib [] (Some s) (Some valve_message) = Some (True, Some m')
    \<and> view test_glib m' = Some (ValveError 42 ''hot'')"
  by (rule encode_decode_roundtrip[OF test_glib_ok valve_view _ empty_heap_forest])
    (simp_all add: INT_MIN_def INT_MAX_def empty_heap_def)

text \<open>C7: Decoding is total and guarded: whatever text arrives and whatever the allocator answers,
  \<open>decode_message\<close> returns; it either accepts, and then the message has the content of a
  legal message (its valve number an \<open>int\<close>), or refuses, and then the message is unchanged.\<close>

theorem decode_any_text:
  assumes "nul_free s" and "glib_ok G"
  shows "\<exists>ok m. decode_message G mm (Some s) (Some m0) = Some (ok, Some m)
    \<and> (if ok then \<exists>n. view G m = Some n \<and> notice_ok n else m = m0)"
proof -
  obtain ok m where "decode_message G mm (Some s) (Some m0) = Some (ok, Some m)" "decodes_well G m0 (ok, m)"
    using decode_total[OF assms] by blast
  then show ?thesis
    by (intro exI[of _ ok] exI[of _ m]) (auto simp: decodes_well_def split: if_splits option.splits)
qed

theorem decode_any_text_witness:
  "nul_free ''{]'' \<and> (\<exists>ok m. decode_message test_glib [] (Some ''{]'') (Some valve_message) = Some (ok, Some m)
    \<and> (if ok then \<exists>n. view test_glib m = Some n \<and> notice_ok n else m = valve_message))"
  using decode_any_text[OF _ test_glib_ok, of "''{]''" "[]" valve_message] by simp

text \<open>C22: Building a message never faults, whichever allocations fail: no block is used after it
  is freed or freed twice, what was in the store before stays as it was, and a root that is
  returned is the root of a complete tree.\<close>

theorem build_message_memory_safe:
  assumes "forest h F" and "message_ok G m"
  shows "\<exists>res h' L. build_message G m h = Some (res, h') \<and> forest h' (L @ F)
    \<and> (\<forall>r. res = Some r \<longrightarrow> r \<in> laddr ` set L)"
  by (rule build_message_safe[OF assms])

theorem build_message_memory_safe_witness:
  "\<exists>res h' L. build_message test_glib valve_message (empty_heap [True, True, False]) = Some (res, h')
    \<and> forest h' (L @ []) \<and> (\<forall>r. res = Some r \<longrightarrow> r \<in> laddr ` set L)"
  by (rule build_message_memory_safe[OF empty_heap_forest]) (simp add: message_ok_def valve_view)

text \<open>C39: A message whose escaped text has at most 200 bytes is never cut: the length that
  \<open>encode_message\<close> returns is the length of the text.\<close>

theorem short_message_not_cut:
  assumes "view G m = Some n" and "notice_ok n" and "forest h F" and "hmem h = []"
    and "length (escaped (message_string n)) \<le> MAX_MSG_LEN"
  shows "\<exists>h'. encode_message G (Some m) (Some old) h
      = Some (int (length (wire_text n)), Some (Some (wire_text n)), h')"
proof -
  have l: "length (wire_text n) \<le> MAX_ENCODED_LEN"
    using assms(5) wire_text_length[OF assms(2)] by (simp add: MAX_ENCODED_LEN_def MAX_MSG_LEN_def)
  then have "length (wire_text n) + 2 \<le> 2147483647" by (simp add: MAX_ENCODED_LEN_def MAX_MSG_LEN_def)
  from encode_ok[OF assms(3,4,1,2) this] l show ?thesis by (auto simp: strnlen_def min_absorb2)
qed

theorem short_message_not_cut_witness:
  "\<exists>h'. encode_message test_glib (Some valve_message) (Some None) (empty_heap [])
      = Some (int (length (wire_text (ValveError 42 ''hot''))), Some (Some (wire_text (ValveError 42 ''hot''))), h')"
  by (rule short_message_not_cut[OF valve_view _ empty_heap_forest])
    (simp_all add: INT_MIN_def INT_MAX_def empty_heap_def MAX_MSG_LEN_def escaped_def escape_char_def)

end
