(* ===== verification/FramingLaws.thy ===== *)
theory FramingLaws
  imports CodecLaws
begin

text \<open>
  When \<open>read_json_object\<close> of \<open>src/server.c\<close> gives back the texts that the encoder wrote.
\<close>

section \<open>Frames\<close>

lemma read_after_newlines:
  "set ws \<subseteq> {CHR 0x0A, CHR 0x0D} \<Longrightarrow> read_json_object e (ws @ s) = read_json_object e s"
  by (induction ws) auto

text \<open>C29: The frame of a message: \<open>read_json_object\<close> cuts the text of a message off the front of the
  stream, after any line ends before it and whatever follows it, provided that the braces in
  the message are balanced and never close later than two levels.\<close>

theorem read_wire_text:
  assumes "notice_ok n" and "nesting_ok (message_string n)" and "set ws \<subseteq> {CHR 0x0A, CHR 0x0D}"
  shows "read_json_object e (ws @ wire_text n @ rest) = (SUCCESS, wire_text n, rest)"
  using read_after_newlines[OF assms(3)] read_frame[OF wire_text_frame[OF assms(1,2)]] by simp

theorem read_wire_text_witness:
  "read_json_object End_of_file ([CHR 0x0D, CHR 0x0A] @ wire_text (OtherError ''{a}'') @ ''{'')
    = (SUCCESS, wire_text (OtherError ''{a}''), ''{'')"
  by (rule read_wire_text) (simp_all add: nesting_ok_def brace_def)

section \<open>Strings that break frames\<close>

text \<open>A text that stops inside the string of the message is no JSON text.\<close>

lemma member_value:
  assumes "buffer_at_offset (skip 1 b) = QUOTE # k @ QUOTE # CHR '':'' # x # s" and "32 < code x" and "nul_free k"
    and "concat (map escape_char k) = k" and "hooks b = []"
  shows "object_items (Suc f) b = and_then
    (parse_value f (CJSON cJSON_String None 0 (Fin 0) (Some k) []) (skip (4 + length k) b)) (\<lambda>item b4.
      let b5 = buffer_skip_whitespace b4
      in if peek b5 0 = Some (CHR '','') then and_then (object_items f b5) (\<lambda>items b6. Ok (item # items) b6)
         else Ok [item] b5)"
proof -
  have r: "render_string (Some k) = QUOTE # k @ [QUOTE]" using assms(4) by (simp add: render_string_def)
  have at: "buffer_at_offset (skip 1 b) = render_string (Some k) @ CHR '':'' # x # s" using assms(1) r by simp
  have ws1: "buffer_skip_whitespace (skip 1 b) = skip 1 b" using skip_blank[of "skip 1 b" "[]"] assms(1) by simp
  define b3 where "b3 = skip (length k + 2) (skip 1 b)"
  have ps: "parse_string blank_item (skip 1 b) = Ok (CJSON cJSON_String (Some k) 0 (Fin 0) None []) b3"
    unfolding blank_item_def b3_def using parse_string_render[OF at] assms(3,5) r by simp
  have at3: "buffer_at_offset b3 = CHR '':'' # x # s" unfolding b3_def skip_simps(2)[of "length k + 2"] assms(1) by simp
  have ws3: "buffer_skip_whitespace b3 = b3" using skip_blank[of b3 "[]"] at3 by simp
  have "buffer_at_offset (skip 1 b3) = x # s" using at3 by simp
  then have ws4: "buffer_skip_whitespace (skip 1 b3) = skip 1 b3" using skip_blank[of "skip 1 b3" "[]"] assms(2) by simp
  have pos: "skip (4 + length k) b = skip 1 b3" by (simp add: b3_def eval_nat_numeral)
  show ?thesis using assms(5) ws1 ps ws3 at3 ws4
    by (simp add: pos string_to_key_def del: skip_simps)
qed

lemma object_fails:
  assumes "buffer_at_offset b = CHR ''{'' # x # s" and "32 < code x" and "x \<noteq> CHR ''}''" and "depth b < 1000"
    and "object_items f (enter b) = Fail b'"
  shows "parse_value (Suc (Suc f)) item b = Fail b'"
proof -
  have at: "buffer_at_offset (skip 1 b) = x # s" using assms(1) by simp
  have ws: "buffer_skip_whitespace (skip 1 (enter b)) = enter (skip 1 b)"
    using skip_blank[of "enter (skip 1 b)" "[]" x s] at assms(2) by simp
  have pk: "peek (enter (skip 1 b)) 0 = Some x" "can_access_at_index (enter (skip 1 b)) 0"
    using at by (auto intro: access_at)
  show ?thesis using assms ws pk
    by (simp add: looking_at_iff is_number_start_def is_digit_def CJSON_NESTING_LIMIT_def and_then_def)
qed

lemma unclosed_string_fails:
  assumes "buffer_at_offset b = QUOTE # u" and "scan_string u 0 0 = None"
  shows "parse_value (Suc f) item b = Fail (skip 1 b)"
  using assms by (simp add: looking_at_iff parse_string_def)

lemma unclosed_message_fails:
  assumes "scan_string (u @ [NUL]) 0 0 = None"
  shows \<open>cJSON_Parse [] (Some (''{"version":2,"data":{"message":"'' @ u)) = Some None\<close>
proof -
  define v where \<open>v = ''{"version":2,"data":{"message":"'' @ u\<close>
  define b where "b = start_buffer [] v"
  have h: "hooks b = []" "depth b = 0" "offset b = 0" "content b = v @ [NUL]"
    and at: \<open>buffer_at_offset b = ''{"version":2,"data":{"message":"'' @ u @ [NUL]\<close>
    by (simp_all add: b_def v_def start_buffer_def buffer_at_offset_def)
  have bom: "skip_utf8_bom b = Some b" using h at by (simp add: skip_utf8_bom_def)
  have ws: "buffer_skip_whitespace b = b" using skip_blank[of b "[]"] at by simp
  obtain g where f: "enough_fuel v = Suc (Suc (Suc (Suc (Suc (Suc (Suc (Suc g)))))))"
    using that[of "3 * length v - 2"] by (simp add: enough_fuel_def v_def)
  define e where "e = enter b"
  have e: "hooks e = []" "depth e = 1" using h by (simp_all add: e_def)
  have ate: \<open>buffer_at_offset e = ''{"version":2,"data":{"message":"'' @ u @ [NUL]\<close> using at by (simp add: e_def)
  define e2 where "e2 = enter (skip 20 e)"
  have e2: "hooks e2 = []" by (simp add: e2_def e)
  have at2: \<open>buffer_at_offset e2 = ''{"message":"'' @ u @ [NUL]\<close> using ate by (simp add: e2_def)
  have "parse_value g3 i (skip 11 e2) = Fail (skip 1 (skip 11 e2))" if "g3 = Suc g" for g3 i
    unfolding that by (rule unclosed_string_fails[of _ "u @ [NUL]"]) (use at2 assms in simp_all)
  then have "object_items (Suc (Suc g)) e2 = Fail (skip 12 e2)"
    using member_value[of e2 "''message''" QUOTE "u @ [NUL]" "Suc g"] at2 e2
    by (simp add: escape_char_def and_then_def)
  then have d: "parse_value (Suc (Suc (Suc (Suc g)))) i (skip 20 e) = Fail (skip 12 e2)" for i
    using object_fails[of "skip 20 e" QUOTE] ate e(2) unfolding e2_def by simp
  have o2: "object_items (Suc (Suc (Suc (Suc (Suc g))))) (skip 12 e) = Fail (skip 12 e2)"
    using member_value[of "skip 12 e" "''data''" "CHR ''{''"] ate e(1) d
    by (simp add: escape_char_def and_then_def)
  have n: "number_text (dbl_int 2) = ''2''"
    using number_text_int[of 2] show_int_two by simp
  have "int15 (dbl_int 2)" using int15_int[of 2] by (simp del: int15_int)
  then have nv: "parse_value (Suc m) (CJSON cJSON_String None 0 (Fin 0) (Some ''version'') []) (skip 11 e)
      = Ok (CJSON cJSON_Number None (saturate (dbl_int 2)) (dbl_int 2) (Some ''version'') []) (skip 12 e)" for m
    using number_value[of "dbl_int 2" "skip 11 e" "CHR '',''"] ate n by (simp add: is_number_char_def is_digit_def)
  have "buffer_skip_whitespace (skip 12 e) = skip 12 e"
    using skip_blank[of "skip 12 e" "[]" "CHR '',''"] ate by simp
  then have "object_items (Suc (Suc (Suc (Suc (Suc (Suc g)))))) e = Fail (skip 12 e2)"
    using member_value[of e "''version''" "CHR ''2''"] ate e(1) nv o2
    by (simp add: escape_char_def and_then_def)
  then have "parse_value (enough_fuel v) blank_item b = Fail (skip 12 e2)"
    using object_fails[of b QUOTE] at h(2) unfolding f e_def by simp
  then show ?thesis unfolding v_def[symmetric]
    using h(1) bom ws by (simp add: cJSON_Parse_def cJSON_ParseWithOpts_def error_report_def Let_def flip: b_def)
qed

text \<open>Where the count of the braces of a message reaches 0.\<close>

lemma braces_count: "braces s = int (count_list s (CHR ''{'')) - int (count_list s (CHR ''}''))"
  by (induction s) (auto simp: brace_def)

lemma stays_split: "0 < n \<Longrightarrow> n + braces s \<le> 0 \<Longrightarrow> \<exists>p q. s = p @ CHR ''}'' # q \<and> stays n p \<and> n + braces p = 1"
proof (induction s arbitrary: n)
  case (Cons c s)
  show ?case
  proof (cases "0 < n + brace c")
    case True
    then obtain p q where "s = p @ CHR ''}'' # q" "stays (n + brace c) p" "n + brace c + braces p = 1"
      using Cons.IH[of "n + brace c"] Cons.prems by auto
    then show ?thesis using True by (intro exI[of _ "c # p"] exI[of _ q]) (simp add: add.assoc)
  next
    case False
    then have "c = CHR ''}''" "n = 1" using Cons.prems(1) by (auto simp: brace_def split: if_splits)
    then show ?thesis by (intro exI[of _ "[]"] exI[of _ s]) simp
  qed
qed simp

lemma wire_text_string:
  assumes "message_string n \<noteq> []"
  obtains r where \<open>wire_text n = ''{"version":2,"data":{"message":"'' @ concat (map escape_char (message_string n)) @ QUOTE # r\<close>
proof (cases n)
  case (ValveError v s)
  show ?thesis by (rule that) (unfold ValveError wire_text_def wire_tree.simps wire_object_text message_member_text message_string.simps, simp)
next
  case (OtherError s)
  show ?thesis by (rule that) (unfold OtherError wire_text_def wire_tree.simps wire_object_text message_member_text message_string.simps, simp)
next
  case (SoftwareError s)
  show ?thesis by (rule that) (unfold SoftwareError wire_text_def wire_tree.simps wire_object_text message_member_text message_string.simps, simp)
qed (use assms in simp)

lemma cut_in_string:
  assumes "stays 2 p" and "2 + braces p = 1"
  shows \<open>read_json_object e (''{"version":2,"data":{"message":"'' @ concat (map escape_char p) @ CHR ''}'' # r)
    = (SUCCESS, ''{"version":2,"data":{"message":"'' @ concat (map escape_char p) @ ''}'', r)\<close>
proof -
  let ?e = "concat (map escape_char p)" and ?h = \<open>''"version":2,"data":{"message":"''\<close>
  have "stays 1 (?h @ ?e)" "1 + braces (?h @ ?e) = 1" using assms by (simp_all add: escaped_braces brace_def)
  then have "read_rest 1 ''{'' ((?h @ ?e) @ CHR ''}'' # r) = (SUCCESS, (''{'' @ ?h @ ?e) @ ''}'', r)"
    using read_rest_stays[of 1 "?h @ ?e" "''{''" "CHR ''}'' # r"] by (simp add: brace_def Let_def del: stays_append)
  then show ?thesis by simp
qed

text \<open>C30: The count does not know strings: when some part at the front of a message closes two
  braces later than it opens, the frame ends inside the string, the rest of the text stays in
  the stream, and what was cut off does not decode. (A message in which the braces are balanced
  and never close two later than were opened is framed as a whole.)\<close>

theorem braces_in_strings_break_frames:
  assumes "notice_ok n" and "message_string n = p @ q"
    and "count_list p (CHR ''}'') = count_list p (CHR ''{'') + 2"
  shows "\<exists>cut rest. read_json_object e (wire_text n @ later) = (SUCCESS, cut, rest @ later)
    \<and> rest \<noteq> [] \<and> cut @ rest = wire_text n
    \<and> decode_message G [] (Some cut) (Some m) = Some (False, Some m)"
proof -
  let ?h = \<open>''{"version":2,"data":{"message":"''\<close>
  obtain u v where u: "p = u @ CHR ''}'' # v" "stays 2 u" "2 + braces u = 1"
    using stays_split[of 2 p] assms(3) by (auto simp: braces_count)
  let ?e = "concat (map escape_char u)"
  obtain r where w: "wire_text n = ?h @ concat (map escape_char (message_string n)) @ QUOTE # r"
    by (rule wire_text_string[of n]) (use assms(2) u(1) in auto)
  define rest where "rest = concat (map escape_char (v @ q)) @ QUOTE # r"
  have w': "wire_text n = ?h @ ?e @ CHR ''}'' # rest"
    unfolding w assms(2) u(1) rest_def by (simp add: escape_char_def[of "CHR ''}''"])
  have "scan_string ((?e @ ''}'') @ [NUL]) 0 0 = None"
    using scan_escapes[of "[CHR ''}'', NUL]" u 0 0] by simp
  from unclosed_message_fails[OF this]
  have "decode_message G [] (Some (?h @ ?e @ ''}'')) (Some m) = Some (False, Some m)"
    by (simp add: decode_message_def)
  moreover have "read_json_object e (wire_text n @ later) = (SUCCESS, ?h @ ?e @ ''}'', rest @ later)"
    using cut_in_string[OF u(2,3), of e "rest @ later"] w' by simp
  moreover have "rest \<noteq> []" by (simp add: rest_def)
  ultimately show ?thesis using w' by (intro exI[of _ "?h @ ?e @ ''}''"] exI[of _ rest]) simp
qed

theorem braces_in_strings_break_frames_witness:
  "\<exists>cut rest. read_json_object End_of_file (wire_text (ValveError 7 ''{}a}}b'') @ ''{'') = (SUCCESS, cut, rest @ ''{'')
    \<and> rest \<noteq> [] \<and> cut @ rest = wire_text (ValveError 7 ''{}a}}b'')
    \<and> decode_message test_glib [] (Some cut) (Some valve_message) = Some (False, Some valve_message)"
  by (rule braces_in_strings_break_frames[of _ "''{}a}}''" "''b''"]) (simp_all add: INT_MIN_def INT_MAX_def)

end
