(* ===== verification/Timer.thy ===== *)
theory Timer
  imports Prelude
begin

text \<open>
  \<open>src/timer.c\<close>. The results of \<open>timer_create\<close> and \<open>timer_settime\<close> are arguments; the setting
  that reaches the kernel is part of the result (\<^const>\<open>None\<close> if none does).
\<close>

record itimerspec =
  interval_sec :: int
  interval_nsec :: int
  value_sec :: int
  value_nsec :: int

definition create_timer :: "int \<Rightarrow> int \<Rightarrow> int \<Rightarrow> bool \<times> itimerspec option" where
  "create_timer created settime seconds =
     (if created \<noteq> 0 then (False, None)
      else let t_spec = \<lparr>interval_sec = seconds, interval_nsec = 0, value_sec = seconds, value_nsec = 0\<rparr>
           in if settime \<noteq> 0 then (False, None) else (True, Some t_spec))"

definition stop_timer :: "int \<Rightarrow> bool \<times> itimerspec option" where
  "stop_timer settime =
     (let t_spec = \<lparr>interval_sec = 0, interval_nsec = 0, value_sec = 0, value_nsec = 0\<rparr>
      in (0 \<noteq> settime, if settime = 0 then Some t_spec else None))"

text \<open>The seconds after the setting at which a timer fires, up to a time: first after the value,
  then once per interval; a zero value disarms it.\<close>

fun firings :: "nat \<Rightarrow> itimerspec \<Rightarrow> int list" where
  "firings 0 spec = []"
| "firings (Suc n) spec = (if value_sec spec = 0 \<and> value_nsec spec = 0 then []
     else value_sec spec # (if interval_sec spec = 0 then []
       else map (\<lambda>t. t + interval_sec spec) (firings n spec)))"

lemma timer_fires:
  assumes "create_timer created settime seconds = (True, Some spec)" and "seconds \<noteq> 0"
  shows "firings n spec = map (\<lambda>k. (int k + 1) * seconds) [0..<n]"
proof -
  have s: "value_sec spec = seconds" "interval_sec spec = seconds"
    using assms(1) by (auto simp: create_timer_def Let_def split: if_splits)
  show ?thesis
  proof (induction n)
    case (Suc n)
    have "[0..<Suc n] = 0 # map Suc [0..<n]" by (simp add: map_Suc_upt upt_conv_Cons del: upt_Suc)
    then show ?case using Suc s assms(2) by (simp add: o_def algebra_simps del: upt_Suc)
  qed simp
qed



text \<open>The result of \<open>stop_timer\<close> is inverted: it is true exactly when the timer could not be
  stopped, unlike that of \<open>create_timer\<close>, which is true exactly when the timer is set.\<close>

theorem stop_timer_inverted:
  "fst (stop_timer settime) = (snd (stop_timer settime) = None)
    \<and> fst (create_timer created settime seconds) = (snd (create_timer created settime seconds) \<noteq> None)"
  by (simp add: stop_timer_def create_timer_def Let_def)

end
