(* ===== verification/Server.thy ===== *)
theory Server
  imports Framing Timer
begin

text \<open>
  \<open>src/server.c\<close>: the connections, the queue of received messages, the two signal handlers, the
  keep-alive check, and the calls that start, read and stop the server.

  GLib's queue and hash table are parameters; \<open>gqueue_ok\<close> and \<open>ghash_ok\<close> are their documented
  behaviour. The kernel is in the state as what it will answer: the bytes that have arrived on
  each descriptor, the clock, whether \<open>malloc\<close> and \<open>pthread_mutex_lock\<close> succeed. A handler runs
  to its end on the state in which the signal finds the program.
\<close>

section \<open>GLib containers\<close>

record ('q, 'i) gqueue =
  g_queue_new :: 'q
  g_queue_push_tail :: "'q \<Rightarrow> 'i \<Rightarrow> 'q"
  g_queue_pop_head :: "'q \<Rightarrow> 'i option \<times> 'q"
  g_queue_items :: "'q \<Rightarrow> 'i list"

text \<open>\<open>g_queue_items\<close> is the order in which \<open>g_queue_free_full\<close> and an observer see the elements.\<close>

definition gqueue_ok :: "('q, 'i) gqueue \<Rightarrow> bool" where
  "gqueue_ok Q \<longleftrightarrow> g_queue_items Q (g_queue_new Q) = []
     \<and> (\<forall>q x. g_queue_items Q (g_queue_push_tail Q q x) = g_queue_items Q q @ [x])
     \<and> (\<forall>q. case g_queue_items Q q of
          [] \<Rightarrow> fst (g_queue_pop_head Q q) = None \<and> g_queue_items Q (snd (g_queue_pop_head Q q)) = []
        | x # xs \<Rightarrow> fst (g_queue_pop_head Q q) = Some x \<and> g_queue_items Q (snd (g_queue_pop_head Q q)) = xs)"

text \<open>
  The table maps a descriptor to a pointer. \<open>g_hash_table_insert\<close> answers whether the key is new,
  \<open>g_hash_table_remove\<close> whether it was there; \<open>ht_values\<close> is the order of \<open>g_hash_table_foreach\<close>.
\<close>

type_synonym fd = int
type_synonym ptr = nat

record 't ghash =
  g_hash_table_new :: 't
  g_hash_table_insert :: "'t \<Rightarrow> fd \<Rightarrow> ptr \<Rightarrow> bool \<times> 't"
  g_hash_table_lookup :: "'t \<Rightarrow> fd \<Rightarrow> ptr option"
  g_hash_table_remove :: "'t \<Rightarrow> fd \<Rightarrow> bool \<times> 't"
  ht_values :: "'t \<Rightarrow> ptr list"

definition ghash_ok :: "'t ghash \<Rightarrow> bool" where
  "ghash_ok H \<longleftrightarrow> (\<forall>k. g_hash_table_lookup H (g_hash_table_new H) k = None)
     \<and> (\<forall>t k p. fst (g_hash_table_insert H t k p) = (g_hash_table_lookup H t k = None)
          \<and> g_hash_table_lookup H (snd (g_hash_table_insert H t k p)) = (g_hash_table_lookup H t)(k \<mapsto> p))
     \<and> (\<forall>t k. fst (g_hash_table_remove H t k) = (g_hash_table_lookup H t k \<noteq> None)
          \<and> g_hash_table_lookup H (snd (g_hash_table_remove H t k)) = (g_hash_table_lookup H t)(k := None))
     \<and> (\<forall>t. set (ht_values H t) = ran (g_hash_table_lookup H t)
          \<and> (inj_on (g_hash_table_lookup H t) (dom (g_hash_table_lookup H t)) \<longrightarrow> distinct (ht_values H t)))"

section \<open>The state\<close>

record 'g BufferItem =
  msg :: "'g Message"
  address :: "32 word"
  recv_time :: int

record ConnectionData =
  cfd :: fd
  mutex :: bool
  addr :: "32 word"
  last_keep_alive :: int
  destroyed :: bool

text \<open>
  A mutex is \<^const>\<open>True\<close> while it is held. \<open>condatas\<close> are the \<open>ConnectionData\<close> blocks by address;
  \<open>closed\<close> the descriptors passed to \<open>close\<close>; \<open>connect_sig_on\<close> and \<open>read_sig_on\<close> tell whether the
  two handlers are installed, \<open>signalling\<close> which descriptors were set up to raise signals;
  \<open>misuses\<close> counts unlocks of a mutex that is not
  held, which POSIX leaves undefined. \<open>mallocs\<close> and \<open>locks\<close> are the answers to come of \<open>malloc\<close>
  and \<open>pthread_mutex_lock\<close> (success once used up), \<open>json_mem\<close> those within a parse: every parse begins
  with them, and \<open>ServerRuns\<close> gives every signal its own.
\<close>

record ('q, 't) server =
  read_buff :: "'q option"
  read_buff_mux :: bool
  connections_mux :: bool
  connections_table :: "'t option"
  listen_socket :: fd
  timer_armed :: bool
  connect_sig_on :: bool
  read_sig_on :: bool
  signalling :: "fd list"
  condatas :: "ptr \<rightharpoonup> ConnectionData"
  next_ptr :: ptr
  closed :: "fd list"
  misuses :: nat
  inbox :: "fd \<Rightarrow> bytes"
  ending :: "fd \<Rightarrow> read_end"
  clock :: int
  mallocs :: mem
  locks :: mem
  json_mem :: mem

text \<open>\<open>Blocked\<close>: waits for a mutex that its own thread holds. \<open>Exited\<close>: \<open>exit\<close> or a failed
  \<open>assert\<close>. \<open>Undef\<close>: an access to a freed block.\<close>

datatype 'a run = Done 'a | Blocked | Exited | Undef

definition and_run :: "('a \<times> 's) run \<Rightarrow> ('a \<Rightarrow> 's \<Rightarrow> 'b run) \<Rightarrow> 'b run" where
  "and_run r k = (case r of Done (x, s) \<Rightarrow> k x s | Blocked \<Rightarrow> Blocked | Exited \<Rightarrow> Exited | Undef \<Rightarrow> Undef)"

definition smalloc :: "('q, 't) server \<Rightarrow> bool \<times> ('q, 't) server" where
  "smalloc s = (let (ok, m) = alloc (mallocs s) in (ok, s\<lparr>mallocs := m\<rparr>))"

definition lock_read_buff :: "('q, 't) server \<Rightarrow> (bool \<times> ('q, 't) server) run" where
  "lock_read_buff s = (let (ok, l) = alloc (locks s) in
     if \<not> ok then Done (False, s\<lparr>locks := l\<rparr>)
     else if read_buff_mux s then Blocked else Done (True, s\<lparr>locks := l, read_buff_mux := True\<rparr>))"

definition unlock_read_buff :: "('q, 't) server \<Rightarrow> ('q, 't) server" where
  "unlock_read_buff s = (if read_buff_mux s then s\<lparr>read_buff_mux := False\<rparr> else s\<lparr>misuses := misuses s + 1\<rparr>)"

definition lock_connections :: "('q, 't) server \<Rightarrow> (bool \<times> ('q, 't) server) run" where
  "lock_connections s = (let (ok, l) = alloc (locks s) in
     if \<not> ok then Done (False, s\<lparr>locks := l\<rparr>)
     else if connections_mux s then Blocked else Done (True, s\<lparr>locks := l, connections_mux := True\<rparr>))"

definition unlock_connections :: "('q, 't) server \<Rightarrow> ('q, 't) server" where
  "unlock_connections s = (if connections_mux s then s\<lparr>connections_mux := False\<rparr> else s\<lparr>misuses := misuses s + 1\<rparr>)"

definition update_con :: "ptr \<Rightarrow> (ConnectionData \<Rightarrow> ConnectionData) \<Rightarrow> ('q, 't) server \<Rightarrow> ('q, 't) server" where
  "update_con p f s = s\<lparr>condatas := (condatas s)(p := map_option f (condatas s p))\<rparr>"

definition lock_con :: "ptr \<Rightarrow> ('q, 't) server \<Rightarrow> (bool \<times> ('q, 't) server) run" where
  "lock_con p s = (case condatas s p of None \<Rightarrow> Undef | Some c \<Rightarrow>
     let (ok, l) = alloc (locks s) in
     if \<not> ok then Done (False, s\<lparr>locks := l\<rparr>)
     else if mutex c then Blocked
     else Done (True, update_con p (\<lambda>c. c\<lparr>mutex := True\<rparr>) (s\<lparr>locks := l\<rparr>)))"

definition unlock_con :: "ptr \<Rightarrow> ('q, 't) server \<Rightarrow> ('q, 't) server run" where
  "unlock_con p s = (case condatas s p of None \<Rightarrow> Undef | Some c \<Rightarrow>
     if mutex c then Done (update_con p (\<lambda>c. c\<lparr>mutex := False\<rparr>) s) else Done (s\<lparr>misuses := misuses s + 1\<rparr>))"

section \<open>Items and connections\<close>

text \<open>\<open>free_bufferitem\<close>; its result is \<^const>\<open>None\<close> if the message cannot be freed.\<close>

definition free_bufferitem :: "'g BufferItem \<Rightarrow> 'g option list option" where
  "free_bufferitem item = map_option snd (free_message (Some (msg item)))"

definition free_connectiondata :: "ptr \<Rightarrow> ('q, 't) server \<Rightarrow> ('q, 't) server run" where
  "free_connectiondata p s = (case condatas s p of None \<Rightarrow> Undef | Some c \<Rightarrow>
     let s1 = (if mutex c then s else s\<lparr>misuses := misuses s + 1\<rparr>)
     in Done (s1\<lparr>condatas := (condatas s1)(p := None), closed := closed s1 @ [cfd c]\<rparr>))"

text \<open>\<open>g_queue_push_tail(read_buff, item)\<close>; GLib ignores a NULL queue.\<close>

definition push_item :: "('q, 'g BufferItem) gqueue \<Rightarrow> 'g BufferItem \<Rightarrow> ('q, 't) server \<Rightarrow> ('q, 't) server" where
  "push_item Q item s = s\<lparr>read_buff := map_option (\<lambda>q. g_queue_push_tail Q q item) (read_buff s)\<rparr>"

text \<open>What \<open>malloc\<close> leaves in the message of a new item.\<close>

definition fresh_message :: "'g Message" where
  "fresh_message = \<lparr>mtype = INVALID, mdata = No_data\<rparr>"

definition error_item :: "'g glib \<Rightarrow> bytes \<Rightarrow> 32 word \<Rightarrow> int \<Rightarrow> 'g BufferItem" where
  "error_item G string ad now = \<lparr>msg = the (software_error G (Some fresh_message) (Some string)),
     address = ad, recv_time = now\<rparr>"

definition fetch_item :: "'g glib \<Rightarrow> ('q, 'g BufferItem) gqueue \<Rightarrow> ptr \<Rightarrow> ('q, 't) server
    \<Rightarrow> (ReadStatus \<times> ('q, 't) server) run" where
  "fetch_item G Q p s =
     (let (ok, s1) = smalloc s in
      if \<not> ok then Done (ERROR, s1)
      else case condatas s1 p of None \<Rightarrow> Undef | Some c \<Rightarrow>
        (case read_json_object (ending s1 (cfd c)) (inbox s1 (cfd c)) of (status, obj, rest) \<Rightarrow>
           let s2 = s1\<lparr>inbox := (inbox s1)(cfd c := rest)\<rparr> in
           if status \<noteq> SUCCESS then Done (status, s2)
           else case decode_message G (json_mem s2) (Some (c_str obj)) (Some fresh_message) of
             Some (decoded, Some m) \<Rightarrow>
               let m' = (if \<not> decoded then the (software_error G (Some m) (Some ''Could not decode message'')) else m)
               in if mtype m' = KEEP_ALIVE
                  then (case free_bufferitem \<lparr>msg = m', address = 0, recv_time = 0\<rparr> of None \<Rightarrow> Undef
                        | Some _ \<Rightarrow> Done (SUCCESS, update_con p (\<lambda>c. c\<lparr>last_keep_alive := clock s2\<rparr>) s2))
                  else Done (SUCCESS, push_item Q \<lparr>msg = m', address = addr c, recv_time = clock s2\<rparr> s2)
           | _ \<Rightarrow> Undef))"

text \<open>
  \<open>g_hash_table_remove\<close> calls \<open>free_connectiondata\<close> on the pointer it removes. When the key is
  not there the mutex is unlocked twice.
\<close>

definition destroy_connection :: "'t ghash \<Rightarrow> ptr \<Rightarrow> ('q, 't) server \<Rightarrow> ('q, 't) server run" where
  "destroy_connection H p s = and_run (lock_connections s) (\<lambda>ok s1.
     if \<not> ok then Done s1
     else case condatas s1 p of None \<Rightarrow> Undef | Some c \<Rightarrow>
       (case connections_table s1 of
          None \<Rightarrow> Done (unlock_connections (unlock_connections s1))
        | Some t \<Rightarrow>
            (case g_hash_table_lookup H t (cfd c) of
               None \<Rightarrow> Done (unlock_connections (unlock_connections s1))
             | Some q \<Rightarrow>
                 (case free_connectiondata q (s1\<lparr>connections_table := Some (snd (g_hash_table_remove H t (cfd c)))\<rparr>) of
                    Done s2 \<Rightarrow> Done (unlock_connections s2)
                  | r \<Rightarrow> r))))"

section \<open>The handlers\<close>

definition object_reader :: "'g glib \<Rightarrow> ('q, 'g BufferItem) gqueue \<Rightarrow> 't ghash \<Rightarrow> ptr
    \<Rightarrow> ('q, 't) server \<Rightarrow> ('q, 't) server run" where
  "object_reader G Q H p s = and_run (lock_read_buff s) (\<lambda>ok s1.
     if \<not> ok then Done s1
     else and_run (fetch_item G Q p s1) (\<lambda>status s2.
       if status = ERROR then
         (case destroy_connection H p s2 of Done s3 \<Rightarrow> Done (unlock_read_buff s3) | r \<Rightarrow> r)
       else unlock_con p (unlock_read_buff s2)))"

definition report_close :: "'g glib \<Rightarrow> ('q, 'g BufferItem) gqueue \<Rightarrow> 't ghash \<Rightarrow> ptr
    \<Rightarrow> ('q, 't) server \<Rightarrow> ('q, 't) server run" where
  "report_close G Q H p s =
     (let (ok, s1) = smalloc s in
      if \<not> ok then Done s1
      else case condatas s1 p of None \<Rightarrow> Undef | Some c \<Rightarrow>
        let item = error_item G ''Connection closed'' (addr c) (clock s1)
        in and_run (lock_read_buff s1) (\<lambda>locked s2.
             if \<not> locked then Done s2
             else destroy_connection H p (unlock_read_buff (push_item Q item s2))))"

definition io_handler :: "'g glib \<Rightarrow> ('q, 'g BufferItem) gqueue \<Rightarrow> 't ghash \<Rightarrow> fd
    \<Rightarrow> ('q, 't) server \<Rightarrow> ('q, 't) server run" where
  "io_handler G Q H si_fd s = and_run (lock_connections s) (\<lambda>ok s1.
     if \<not> ok then Done s1
     else let found = (case connections_table s1 of None \<Rightarrow> None | Some t \<Rightarrow> g_hash_table_lookup H t si_fd);
              s2 = unlock_connections s1
       in case found of None \<Rightarrow> Done s2 | Some p \<Rightarrow>
         (case condatas s2 p of None \<Rightarrow> Undef | Some c \<Rightarrow>
            if si_fd \<noteq> cfd c then Exited
            else and_run (lock_con p s2) (\<lambda>locked s3.
              if \<not> locked then Done s3
              else if map_option destroyed (condatas s3 p) = Some True then Done s3
              else if inbox s3 si_fd = [] then report_close G Q H p s3
              else object_reader G Q H p s3)))"

text \<open>The answers of the kernel to \<open>setup_rt_signal_io\<close>.\<close>

record rt_answers =
  sigaction_result :: int
  setown_result :: int
  setsig_result :: int
  setfl_result :: int

text \<open>\<open>setup_rt_signal_io\<close>: its result, and whether the handler has been installed.\<close>

definition setup_rt_signal_io :: "rt_answers \<Rightarrow> bool \<times> bool" where
  "setup_rt_signal_io k =
     (if sigaction_result k = - 1 then (False, False)
      else if setown_result k = - 1 then (False, True)
      else if setsig_result k = - 1 then (False, True)
      else if setfl_result k = - 1 then (False, True)
      else (True, True))"

text \<open>The kernel's answers to \<open>connect_handler\<close>: \<open>accept\<close>, the two calls of \<open>getpeername\<close>, and
  \<open>pthread_mutex_init\<close>, and those of \<open>setup_rt_signal_io\<close>, whose result is not looked at;
  \<open>garbage\<close> is what \<open>malloc\<close> leaves in the field \<open>fd\<close>.\<close>

record answers =
  accepted :: fd
  peer1 :: "32 word option"
  peer2 :: "32 word option"
  mutex_init :: int
  garbage :: fd
  read_rt :: rt_answers

definition close_fd :: "fd \<Rightarrow> ('q, 't) server \<Rightarrow> ('q, 't) server" where
  "close_fd fd s = s\<lparr>closed := closed s @ [fd]\<rparr>"

definition connect_handler :: "'t ghash \<Rightarrow> answers \<Rightarrow> ('q, 't) server \<Rightarrow> ('q, 't) server run" where
  "connect_handler H a s =
     (if accepted a = - 1 then Done s
      else let fd = accepted a; (ok, s1) = smalloc s in
        if \<not> ok then Done (close_fd fd s1)
        else if peer1 a = None then Done (close_fd fd s1)
        else (case peer2 a of None \<Rightarrow> Done (close_fd fd s1) | Some ad \<Rightarrow>
          if mutex_init a = - 1 then Done (close_fd fd s1)
          else let p = next_ptr s1;
                   c = \<lparr>cfd = garbage a, mutex = False, addr = ad, last_keep_alive = clock s1, destroyed = False\<rparr>;
                   s2 = s1\<lparr>condatas := (condatas s1)(p \<mapsto> c), next_ptr := p + 1\<rparr>
               in if clock s2 = - 1 then free_connectiondata p (close_fd fd s2)
                  else let s3 = update_con p (\<lambda>c. c\<lparr>cfd := fd\<rparr>) s2
                       in and_run (lock_connections s3) (\<lambda>locked s4.
                            if \<not> locked then free_connectiondata p (close_fd fd s4)
                            else let (key_ok, s5) = smalloc s4
                                 in if \<not> key_ok then free_connectiondata p (close_fd fd s5)
                                    else case connections_table s5 of None \<Rightarrow> Exited | Some t \<Rightarrow>
                                      let (fresh, t') = g_hash_table_insert H t fd p
                                      in if \<not> fresh then Exited
                                         else let (ok, installed) = setup_rt_signal_io (read_rt a);
                                                  s6 = unlock_connections (s5\<lparr>connections_table := Some t'\<rparr>)
                                              in Done (s6\<lparr>read_sig_on := (read_sig_on s6 \<or> installed),
                                                   signalling := signalling s6 @ (if ok then [fd] else [])\<rparr>))))"

section \<open>Keep-alive check\<close>

definition KEEP_ALIVE_INTERVAL :: int where "KEEP_ALIVE_INTERVAL = 10"
definition KEEP_ALIVE_CHECK_PERIOD :: int where "KEEP_ALIVE_CHECK_PERIOD = 1"
definition KEEP_ALIVE_GRACE :: int where "KEEP_ALIVE_GRACE = 3"
definition KEEP_ALIVE_PROD :: int where
  "KEEP_ALIVE_PROD = KEEP_ALIVE_CHECK_PERIOD * KEEP_ALIVE_GRACE * KEEP_ALIVE_INTERVAL"

text \<open>\<open>pthread_mutex_trylock\<close> answers at once; it fails while the mutex is held.\<close>

definition check_keep_alive :: "'g glib \<Rightarrow> ('q, 'g BufferItem) gqueue \<Rightarrow> ptr \<Rightarrow> ('q, 't) server
    \<Rightarrow> ('q, 't) server run" where
  "check_keep_alive G Q p s = (case condatas s p of None \<Rightarrow> Undef | Some c \<Rightarrow>
     if clock s = - 1 then Done s
     else if KEEP_ALIVE_PROD < clock s - last_keep_alive c then
       (let (ok, s1) = smalloc s in
        if \<not> ok then Done s1
        else if read_buff_mux s1 then Done s1
        else Done (unlock_read_buff (push_item Q (error_item G ''Connection timeout'' (addr c) (clock s1))
                    (s1\<lparr>read_buff_mux := True\<rparr>))))
     else Done s)"

fun foreach_con :: "(ptr \<Rightarrow> 's \<Rightarrow> 's run) \<Rightarrow> ptr list \<Rightarrow> 's \<Rightarrow> 's run" where
  "foreach_con f [] s = Done s"
| "foreach_con f (p # ps) s = (case f p s of Done s1 \<Rightarrow> foreach_con f ps s1 | r \<Rightarrow> r)"

definition iter_keep_alives :: "'g glib \<Rightarrow> ('q, 'g BufferItem) gqueue \<Rightarrow> 't ghash \<Rightarrow> ('q, 't) server
    \<Rightarrow> ('q, 't) server run" where
  "iter_keep_alives G Q H s =
     (if connections_mux s then Done s
      else let s1 = s\<lparr>connections_mux := True\<rparr>;
               ps = (case connections_table s1 of None \<Rightarrow> [] | Some t \<Rightarrow> ht_values H t)
           in case foreach_con (check_keep_alive G Q) ps s1 of Done s2 \<Rightarrow> Done (unlock_connections s2) | r \<Rightarrow> r)"

section \<open>The interface of the server\<close>

definition read_message :: "('q, 'i) gqueue \<Rightarrow> ('q, 't) server \<Rightarrow> ('i option \<times> ('q, 't) server) run" where
  "read_message Q s = and_run (lock_read_buff s) (\<lambda>ok s1.
     if \<not> ok then Done (None, s1)
     else case read_buff s1 of
       None \<Rightarrow> Done (None, unlock_read_buff s1)
     | Some q \<Rightarrow> let (ret, q') = g_queue_pop_head Q q
                 in Done (ret, unlock_read_buff (s1\<lparr>read_buff := Some q'\<rparr>)))"

text \<open>\<open>get_connected_list\<close> prepends, so the list is in the reverse order of the visits. The lock
  and the allocation of each element are inside \<open>assert\<close>.\<close>

fun list_ip_addrs :: "ptr list \<Rightarrow> 32 word list \<Rightarrow> ('q, 't) server \<Rightarrow> (32 word list \<times> ('q, 't) server) run" where
  "list_ip_addrs [] acc s = Done (acc, s)"
| "list_ip_addrs (p # ps) acc s = (case condatas s p of None \<Rightarrow> Undef | Some c \<Rightarrow>
     let (ok, s1) = smalloc s in if \<not> ok then Exited else list_ip_addrs ps (addr c # acc) s1)"

definition get_connected_list :: "'t ghash \<Rightarrow> ('q, 't) server \<Rightarrow> (32 word list \<times> ('q, 't) server) run" where
  "get_connected_list H s = and_run (lock_connections s) (\<lambda>ok s1.
     if \<not> ok then Exited
     else and_run (list_ip_addrs (case connections_table s1 of None \<Rightarrow> [] | Some t \<Rightarrow> ht_values H t) [] s1)
       (\<lambda>acc s2. Done (acc, unlock_connections s2)))"

text \<open>The kernel's answers to \<open>start_server\<close>. GLib's constructors never answer NULL.\<close>

record syscalls =
  socket_result :: fd
  bind_result :: int
  listen_rt :: rt_answers
  timer_created :: int
  timer_set :: int
  listen_result :: int

definition start_server :: "('q, 'i) gqueue \<Rightarrow> 't ghash \<Rightarrow> bool \<Rightarrow> syscalls \<Rightarrow> ('q, 't) server
    \<Rightarrow> bool \<times> ('q, 't) server" where
  "start_server Q H addr_given k s =
     (if \<not> addr_given then (False, s)
      else let s1 = s\<lparr>listen_socket := socket_result k\<rparr> in
        if socket_result k = - 1 then (False, s1)
        else if bind_result k = - 1 then (False, (close_fd (socket_result k) s1)\<lparr>listen_socket := - 1\<rparr>)
        else let s2 = s1\<lparr>read_buff := Some (g_queue_new Q), connections_table := Some (g_hash_table_new H)\<rparr>;
                 (rt_ok, installed) = setup_rt_signal_io (listen_rt k);
                 s3 = s2\<lparr>connect_sig_on := (connect_sig_on s2 \<or> installed),
                        signalling := signalling s2 @ (if rt_ok then [socket_result k] else [])\<rparr>;
                 undone = (close_fd (socket_result k) s3)\<lparr>listen_socket := - 1, read_buff := None\<rparr>
             in if \<not> rt_ok then (False, undone\<lparr>connections_table := None\<rparr>)
                else if \<not> fst (create_timer (timer_created k) (timer_set k)
                          (KEEP_ALIVE_INTERVAL * KEEP_ALIVE_CHECK_PERIOD))
                then (False, undone\<lparr>connections_table := None\<rparr>)
                else if listen_result k = - 1 then (False, undone\<lparr>timer_armed := True\<rparr>)
                else (True, s3\<lparr>timer_armed := True\<rparr>))"

fun free_items :: "'g BufferItem list \<Rightarrow> bool" where
  "free_items [] = True"
| "free_items (i # is) = (free_bufferitem i \<noteq> None \<and> free_items is)"

text \<open>The results of \<open>pthread_mutex_lock\<close> are not looked at by \<open>stop_server\<close>, nor that of \<open>stop_timer\<close>.\<close>

definition force_lock_connections :: "('q, 't) server \<Rightarrow> ('q, 't) server run" where
  "force_lock_connections s = (case lock_connections s of Done (ok, s1) \<Rightarrow> Done s1
     | Blocked \<Rightarrow> Blocked | Exited \<Rightarrow> Exited | Undef \<Rightarrow> Undef)"

definition force_lock_read_buff :: "('q, 't) server \<Rightarrow> ('q, 't) server run" where
  "force_lock_read_buff s = (case lock_read_buff s of Done (ok, s1) \<Rightarrow> Done s1
     | Blocked \<Rightarrow> Blocked | Exited \<Rightarrow> Exited | Undef \<Rightarrow> Undef)"

definition run_bind :: "'s run \<Rightarrow> ('s \<Rightarrow> 'b run) \<Rightarrow> 'b run" where
  "run_bind r k = (case r of Done s \<Rightarrow> k s | Blocked \<Rightarrow> Blocked | Exited \<Rightarrow> Exited | Undef \<Rightarrow> Undef)"

text \<open>\<open>DISABLE_SIGNAL\<close>, by the answer of \<open>sigaction\<close>: is the handler still installed?\<close>

definition DISABLE_SIGNAL :: "int \<Rightarrow> bool \<Rightarrow> bool" where
  "DISABLE_SIGNAL result on = (result = - 1 \<and> on)"

definition stop_server :: "('q, 'g BufferItem) gqueue \<Rightarrow> 't ghash \<Rightarrow> int \<Rightarrow> int \<Rightarrow> int \<Rightarrow> ('q, 't) server
    \<Rightarrow> ('q, 't) server run" where
  "stop_server Q H read_result connect_result settime s =
     (let s1 = s\<lparr>read_sig_on := DISABLE_SIGNAL read_result (read_sig_on s),
                 connect_sig_on := DISABLE_SIGNAL connect_result (connect_sig_on s),
                 timer_armed := (timer_armed s \<and> snd (stop_timer settime) = None)\<rparr>;
          s2 = (if listen_socket s1 \<noteq> - 1 then (close_fd (listen_socket s1) s1)\<lparr>listen_socket := - 1\<rparr> else s1)
      in run_bind (case connections_table s2 of None \<Rightarrow> Done s2 | Some t \<Rightarrow>
           run_bind (force_lock_connections s2) (\<lambda>s3.
           run_bind (foreach_con free_connectiondata (ht_values H t) s3) (\<lambda>s4.
           Done (unlock_connections (s4\<lparr>connections_table := None\<rparr>))))) (\<lambda>s5.
         case read_buff s5 of None \<Rightarrow> Done s5 | Some q \<Rightarrow>
           run_bind (force_lock_read_buff s5) (\<lambda>s6.
             if free_items (g_queue_items Q q)
             then Done (unlock_read_buff (s6\<lparr>read_buff := None\<rparr>)) else Undef)))"

end
