(* ===== verification/Sending.thy ===== *)
theory Sending
  imports Server
begin

text \<open>
  \<open>src/sending.c\<close>: the client. The kernel is in the state as what it will answer: \<open>writes\<close> are
  the results to come of \<open>write\<close> (a whole write once used up; a negative one is an error) and
  \<open>fd_locks\<close> those of \<open>pthread_mutex_lock\<close> (0 once used up); \<open>sent\<close> is what each descriptor has
  taken.
\<close>

section \<open>The state\<close>

record sender =
  sending_fd :: fd
  fd_mux :: bool
  fd_mux_destroyed :: bool
  send_timer :: "itimerspec option"
  sent :: "fd \<Rightarrow> bytes"
  closed_fds :: "fd list"
  writes :: "int list"
  fd_locks :: "int list"
  json_heap :: heap

text \<open>A mutex that has been destroyed must not be used; a mutex that is held makes its own thread
  wait for ever.\<close>

definition lock_fd :: "sender \<Rightarrow> (int \<times> sender) run" where
  "lock_fd s = (if fd_mux_destroyed s then Undef
     else case fd_locks s of
       r # rs \<Rightarrow> if r \<noteq> 0 then Done (r, s\<lparr>fd_locks := rs\<rparr>)
                 else if fd_mux s then Blocked else Done (0, s\<lparr>fd_locks := rs, fd_mux := True\<rparr>)
     | [] \<Rightarrow> if fd_mux s then Blocked else Done (0, s\<lparr>fd_mux := True\<rparr>))"

text \<open>\<open>write(fd, bytes, length bytes)\<close>: the count and the state.\<close>

definition write_fd :: "fd \<Rightarrow> bytes \<Rightarrow> sender \<Rightarrow> int \<times> sender" where
  "write_fd fd bytes s =
     (let (r, rs) = (case writes s of [] \<Rightarrow> (int (length bytes), []) | r # rs \<Rightarrow> (r, rs));
          n = min (nat r) (length bytes)
      in if fd = - 1 then (- 1, s)
         else if r < 0 then (- 1, s\<lparr>writes := rs\<rparr>)
         else (int n, s\<lparr>writes := rs, sent := (sent s)(fd := sent s fd @ take n bytes)\<rparr>))"

section \<open>Sending\<close>

text \<open>To unlock a mutex that is not held is undefined.\<close>

definition send_encoded_message :: "bytes \<Rightarrow> sender \<Rightarrow> (bool \<times> sender) run" where
  "send_encoded_message encoded s = and_run (lock_fd s) (\<lambda>r s1.
     if r = - 1 then Done (False, s1)
     else let expected_count = strnlen encoded MAX_ENCODED_LEN;
              (count, s2) = write_fd (sending_fd s1) (take expected_count encoded) s1
          in if \<not> fd_mux s2 then Undef
             else Done (count = int expected_count, s2\<lparr>fd_mux := False\<rparr>))"

definition keep_alive_msg :: bytes where
  \<open>keep_alive_msg = ''{"version":2,"data":{},"type":"KEEP_ALIVE"}''\<close>

definition send_keep_alive :: "sender \<Rightarrow> sender run" where
  "send_keep_alive s = and_run (send_encoded_message keep_alive_msg s) (\<lambda>ok s1. Done s1)"

definition send_message :: "'g glib \<Rightarrow> 'g Message option \<Rightarrow> sender \<Rightarrow> (bool \<times> sender) run" where
  "send_message G message s = (case encode_message G message (Some None) (json_heap s) of
     None \<Rightarrow> Undef
   | Some (len, encoded, h) \<Rightarrow>
       (case encoded of
          Some (Some text) \<Rightarrow> send_encoded_message text (s\<lparr>json_heap := h\<rparr>)
        | _ \<Rightarrow> Done (False, s\<lparr>json_heap := h\<rparr>)))"

section \<open>Starting and stopping\<close>

definition start_sending :: "fd \<Rightarrow> int \<Rightarrow> int \<Rightarrow> int \<Rightarrow> sender \<Rightarrow> bool \<times> sender" where
  "start_sending socket_answer connect_answer timer_create_answer timer_set_answer s =
     (let s1 = s\<lparr>sending_fd := socket_answer\<rparr> in
      if socket_answer = - 1 then (False, s1)
      else if connect_answer = - 1 then (False, s1)
      else let (ok, spec) = create_timer timer_create_answer timer_set_answer KEEP_ALIVE_INTERVAL
           in (ok, if spec = None then s1 else s1\<lparr>send_timer := spec\<rparr>))"

text \<open>The lock, the unlock and the destruction of the mutex are arguments of \<open>assert\<close>.\<close>

definition stop_sending :: "int \<Rightarrow> sender \<Rightarrow> sender run" where
  "stop_sending settime s =
     (let s0 = (case snd (stop_timer settime) of None \<Rightarrow> s | Some spec \<Rightarrow> s\<lparr>send_timer := Some spec\<rparr>)
      in and_run (lock_fd s0) (\<lambda>r s1.
        if r \<noteq> 0 then Exited
        else let s2 = (if sending_fd s1 \<noteq> - 1
                       then s1\<lparr>closed_fds := closed_fds s1 @ [sending_fd s1], sending_fd := - 1\<rparr> else s1)
             in Done (s2\<lparr>fd_mux := False, fd_mux_destroyed := True\<rparr>)))"

end
