(* ===== verification/ServerSpec.thy ===== *)
theory ServerSpec
  imports CodecLaws Server
begin

text \<open>
  What the server of \<open>src/server.c\<close> promises: an abstract server (waiting reports, connected
  clients, byte streams), the invariant of its idle states, and the proof that \<open>io_handler\<close>
  implements the abstract reception of a message on every branch.
\<close>

section \<open>The abstract server\<close>

text \<open>
  What a server is to its user: the notices waiting to be read, each with its sender and time;
  the connected clients, each with its address and the time of its last sign of life; and
  what has arrived on each descriptor. \<open>None\<close> as the content of a waiting item is a message
  that says nothing.
\<close>

type_synonym report = "notice option \<times> 32 word \<times> int"

record abstract =
  waiting :: "report list"
  clients :: "fd \<Rightarrow> (32 word \<times> int) option"
  stream :: "fd \<Rightarrow> bytes"

definition report_of :: "'g glib \<Rightarrow> 'g BufferItem \<Rightarrow> report" where
  "report_of G i = (view G (msg i), address i, recv_time i)"

definition table_lookup :: "'t ghash \<Rightarrow> ('q, 't) server \<Rightarrow> fd \<Rightarrow> ptr option" where
  "table_lookup H s k = (case connections_table s of None \<Rightarrow> None | Some t \<Rightarrow> g_hash_table_lookup H t k)"

definition queued :: "('q, 'i) gqueue \<Rightarrow> ('q, 't) server \<Rightarrow> 'i list" where
  "queued Q s = (case read_buff s of None \<Rightarrow> [] | Some q \<Rightarrow> g_queue_items Q q)"

definition abstraction :: "'g glib \<Rightarrow> ('q, 'g BufferItem) gqueue \<Rightarrow> 't ghash \<Rightarrow> ('q, 't) server \<Rightarrow> abstract" where
  "abstraction G Q H s = \<lparr>waiting = map (report_of G) (queued Q s),
     clients = (\<lambda>k. case table_lookup H s k of None \<Rightarrow> None
        | Some p \<Rightarrow> map_option (\<lambda>c. (addr c, last_keep_alive c)) (condatas s p)),
     stream = inbox s\<rparr>"

text \<open>What a framed object says: the decoded notice, or a report that it could not be decoded.\<close>

definition heard :: "'g glib \<Rightarrow> mem \<Rightarrow> bytes \<Rightarrow> notice" where
  "heard G mm obj = (case decode_message G mm (Some (c_str obj)) (Some fresh_message) of
     Some (True, Some m) \<Rightarrow> (case view G m of Some n \<Rightarrow> n | None \<Rightarrow> Alive)
   | _ \<Rightarrow> SoftwareError ''Could not decode message'')"

text \<open>The effect of one signal that descriptor \<open>k\<close> is readable.\<close>

definition receive :: "'g glib \<Rightarrow> mem \<Rightarrow> int \<Rightarrow> read_end \<Rightarrow> fd \<Rightarrow> abstract \<Rightarrow> abstract" where
  "receive G mm now e k a = (case clients a k of None \<Rightarrow> a | Some (ad, seen) \<Rightarrow>
     if stream a k = [] then
       a\<lparr>waiting := waiting a @ [(Some (SoftwareError ''Connection closed''), ad, now)],
         clients := (clients a)(k := None)\<rparr>
     else case read_json_object e (stream a k) of (status, obj, rest) \<Rightarrow>
       let a1 = a\<lparr>stream := (stream a)(k := rest)\<rparr> in
       if status = SUCCESS then
         (if heard G mm obj = Alive then a1\<lparr>clients := (clients a)(k \<mapsto> (ad, now))\<rparr>
          else a1\<lparr>waiting := waiting a @ [(Some (heard G mm obj), ad, now)]\<rparr>)
       else if status = ERROR then a1\<lparr>clients := (clients a)(k := None)\<rparr>
       else a1)"

section \<open>Idle servers\<close>

text \<open>
  The state between two calls of the library: no mutex is held, the queue and the table exist,
  the table and the \<open>ConnectionData\<close> blocks refer to each other.
\<close>

definition server_ok :: "'t ghash \<Rightarrow> ('q, 't) server \<Rightarrow> bool" where
  "server_ok H s \<longleftrightarrow> \<not> read_buff_mux s \<and> \<not> connections_mux s \<and> read_buff s \<noteq> None \<and> connections_table s \<noteq> None
     \<and> (\<forall>k p. table_lookup H s k = Some p \<longrightarrow>
          (\<exists>c. condatas s p = Some c \<and> cfd c = k \<and> \<not> mutex c \<and> \<not> destroyed c))
     \<and> (\<forall>p c. condatas s p = Some c \<longrightarrow> table_lookup H s (cfd c) = Some p)
     \<and> (\<forall>p. condatas s p \<noteq> None \<longrightarrow> p < next_ptr s)"

text \<open>Calls of \<open>malloc\<close> and \<open>pthread_mutex_lock\<close> succeed.\<close>

definition calm :: "('q, 't) server \<Rightarrow> bool" where
  "calm s \<longleftrightarrow> mallocs s = [] \<and> locks s = []"

lemma report_error_item:
  assumes "glib_ok G" and "nul_free t"
  shows "report_of G (error_item G t ad now) = (Some (SoftwareError t), ad, now)"
  using assms by (simp add: report_of_def error_item_def software_error_def view_def glib_ok_def)

lemma ghash_facts:
  assumes "ghash_ok H"
  shows "g_hash_table_lookup H (g_hash_table_new H) k = None"
    and "fst (g_hash_table_insert H t k p) = (g_hash_table_lookup H t k = None)"
    and "g_hash_table_lookup H (snd (g_hash_table_insert H t k p)) = (g_hash_table_lookup H t)(k \<mapsto> p)"
    and "g_hash_table_lookup H (snd (g_hash_table_remove H t k)) = (g_hash_table_lookup H t)(k := None)"
    and "set (ht_values H t) = ran (g_hash_table_lookup H t)"
    and "inj_on (g_hash_table_lookup H t) (dom (g_hash_table_lookup H t)) \<Longrightarrow> distinct (ht_values H t)"
  using assms by (simp_all add: ghash_ok_def)

lemma gqueue_facts:
  assumes "gqueue_ok Q"
  shows "g_queue_items Q (g_queue_new Q) = []"
    and "g_queue_items Q (g_queue_push_tail Q q x) = g_queue_items Q q @ [x]"
    and "g_queue_items Q q = [] \<Longrightarrow> fst (g_queue_pop_head Q q) = None \<and> g_queue_items Q (snd (g_queue_pop_head Q q)) = []"
    and "g_queue_items Q q = x # xs \<Longrightarrow> fst (g_queue_pop_head Q q) = Some x \<and> g_queue_items Q (snd (g_queue_pop_head Q q)) = xs"
proof -
  have "case g_queue_items Q q of
      [] \<Rightarrow> fst (g_queue_pop_head Q q) = None \<and> g_queue_items Q (snd (g_queue_pop_head Q q)) = []
    | x # xs \<Rightarrow> fst (g_queue_pop_head Q q) = Some x \<and> g_queue_items Q (snd (g_queue_pop_head Q q)) = xs"
    using assms unfolding gqueue_ok_def by blast
  then show "g_queue_items Q q = [] \<Longrightarrow> fst (g_queue_pop_head Q q) = None \<and> g_queue_items Q (snd (g_queue_pop_head Q q)) = []"
    and "g_queue_items Q q = x # xs \<Longrightarrow> fst (g_queue_pop_head Q q) = Some x \<and> g_queue_items Q (snd (g_queue_pop_head Q q)) = xs"
    by simp_all
qed (use assms in \<open>simp_all add: gqueue_ok_def\<close>)

lemma fresh_message_item: "mtype (fresh_message :: 'g Message) = INVALID"
  by (simp add: fresh_message_def)

text \<open>What a decoded object turns into.\<close>

lemma heard_cases:
  assumes "glib_ok G"
  obtains m :: "'g Message" where "decode_message G mm (Some (c_str obj)) (Some fresh_message) = Some (True, Some m)"
      "view G m = Some (heard G mm obj)"
  | "decode_message G mm (Some (c_str obj)) (Some fresh_message) = Some (False, Some fresh_message)"
      "heard G mm obj = SoftwareError ''Could not decode message''"
proof -
  obtain ok m where d: "decode_message G mm (Some (c_str obj)) (Some fresh_message) = Some (ok, Some m)"
    "decodes_well G fresh_message (ok, m)"
    using decode_total[OF nul_free_c_str assms] by blast
  show thesis
  proof (cases ok)
    case True
    with d(2) obtain n where "view G m = Some n" by (auto simp: decodes_well_def split: option.splits)
    then show thesis using d(1) True that(1)[of m] by (simp add: heard_def)
  next
    case False
    then have "m = fresh_message" using d(2) by (simp add: decodes_well_def)
    then show thesis using d(1) False that(2) by (simp add: heard_def)
  qed
qed

lemma view_alive: "view G m = Some n \<Longrightarrow> mtype m = KEEP_ALIVE \<longleftrightarrow> n = Alive"
  by (auto simp: view_def split: MessageType.splits MessageData.splits option.splits)


section \<open>The lock and queue operations\<close>

lemma locks_calm:
  assumes "calm s"
  shows "lock_read_buff s = (if read_buff_mux s then Blocked else Done (True, s\<lparr>read_buff_mux := True\<rparr>))"
    and "lock_connections s = (if connections_mux s then Blocked else Done (True, s\<lparr>connections_mux := True\<rparr>))"
    and "condatas s p = Some c \<Longrightarrow> lock_con p s = (if mutex c then Blocked
      else Done (True, s\<lparr>condatas := (condatas s)(p \<mapsto> c\<lparr>mutex := True\<rparr>)\<rparr>))"
    and "smalloc s = (True, s)"
  using assms by (simp_all add: calm_def lock_read_buff_def lock_connections_def lock_con_def smalloc_def update_con_def)

lemma and_run_Done [simp]: "and_run (Done (x, s)) k = k x s"
  by (simp add: and_run_def)

text \<open>
  Between the start of a handler and its end one connection is being served: its mutex is held,
  and perhaps that of the queue. \<open>serving\<close> describes that state by the idle state it came from.
\<close>

definition serving :: "ptr \<Rightarrow> ConnectionData \<Rightarrow> ('q, 't) server \<Rightarrow> ('q, 't) server" where
  "serving p c s = s\<lparr>condatas := (condatas s)(p \<mapsto> c\<lparr>mutex := True\<rparr>)\<rparr>"

lemma destroy_serving:
  assumes "ghash_ok H" and "calm s" and "\<not> connections_mux s" and "connections_table s = Some t"
    and "g_hash_table_lookup H t (cfd c) = Some p" and "condatas s p = Some c" and "mutex c"
  shows "destroy_connection H p s = Done (s\<lparr>connections_table := Some (snd (g_hash_table_remove H t (cfd c))),
      condatas := (condatas s)(p := None), closed := closed s @ [cfd c]\<rparr>)"
  using assms by (simp add: destroy_connection_def locks_calm(2) free_connectiondata_def unlock_connections_def)


section \<open>The handler of readable descriptors\<close>

lemma server_okD:
  assumes "server_ok H s"
  shows "\<not> read_buff_mux s" and "\<not> connections_mux s" and "\<exists>q. read_buff s = Some q" and "\<exists>t. connections_table s = Some t"
    and "table_lookup H s k = Some p \<Longrightarrow> \<exists>c. condatas s p = Some c \<and> cfd c = k \<and> \<not> mutex c \<and> \<not> destroyed c"
    and "condatas s p = Some c \<Longrightarrow> table_lookup H s (cfd c) = Some p"
    and "condatas s p = Some c \<Longrightarrow> p < next_ptr s"
  using assms by (auto simp: server_ok_def)

lemma io_handler_found:
  assumes "server_ok H s" and "calm s" and "table_lookup H s k = Some p" and "condatas s p = Some c"
  shows "io_handler G Q H k s = (if inbox s k = [] then report_close G Q H p (serving p c s)
    else object_reader G Q H p (serving p c s))"
proof -
  note ok = server_okD[OF assms(1)]
  have c: "cfd c = k" "\<not> mutex c" "\<not> destroyed c" using ok(5)[OF assms(3)] assms(4) by auto
  have u: "unlock_connections (s\<lparr>connections_mux := True\<rparr>) = s"
    using ok(2) by (simp add: unlock_connections_def)
  have t: "(case connections_table s of None \<Rightarrow> None | Some t \<Rightarrow> g_hash_table_lookup H t k) = Some p"
    using assms(3) by (simp add: table_lookup_def)
  show ?thesis using ok(2) c u t assms(2,4) by (simp add: io_handler_def locks_calm serving_def)
qed

lemma io_handler_absent:
  assumes "server_ok H s" and "calm s" and "table_lookup H s k = None"
  shows "io_handler G Q H k s = Done s"
proof -
  have "unlock_connections (s\<lparr>connections_mux := True\<rparr>) = s"
    using server_okD(2)[OF assms(1)] by (simp add: unlock_connections_def)
  moreover have "(case connections_table s of None \<Rightarrow> None | Some t \<Rightarrow> g_hash_table_lookup H t k) = None"
    using assms(3) by (simp add: table_lookup_def)
  ultimately show ?thesis using server_okD(2)[OF assms(1)] assms(2) by (simp add: io_handler_def locks_calm)
qed

text \<open>The state after the connection at \<open>p\<close> has been closed.\<close>

definition dropped :: "'t ghash \<Rightarrow> 't \<Rightarrow> ptr \<Rightarrow> fd \<Rightarrow> ('q, 't) server \<Rightarrow> ('q, 't) server" where
  "dropped H t p k s = s\<lparr>connections_table := Some (snd (g_hash_table_remove H t k)),
     condatas := (condatas s)(p := None), closed := closed s @ [k]\<rparr>"

lemma calm_update [simp]:
  "calm (s\<lparr>condatas := f\<rparr>) = calm s" "calm (s\<lparr>read_buff := b\<rparr>) = calm s" "calm (s\<lparr>inbox := i\<rparr>) = calm s"
  "calm (s\<lparr>read_buff_mux := l\<rparr>) = calm s" "calm (s\<lparr>connections_mux := l\<rparr>) = calm s"
  "calm (s\<lparr>connections_table := t\<rparr>) = calm s" "calm (s\<lparr>closed := cl\<rparr>) = calm s" "calm (s\<lparr>next_ptr := n\<rparr>) = calm s"
  by (simp_all add: calm_def)

lemma report_close_serving:
  assumes "server_ok H s" and "calm s" and "ghash_ok H" and "connections_table s = Some t"
    and "g_hash_table_lookup H t (cfd c) = Some p" and "condatas s p = Some c"
  shows "report_close G Q H p (serving p c s)
    = Done (dropped H t p (cfd c) (push_item Q (error_item G ''Connection closed'' (addr c) (clock s)) s))"
proof -
  note ok = server_okD[OF assms(1)]
  have sm: "smalloc (serving p c s) = (True, serving p c s)"
    using assms(2) by (simp add: serving_def locks_calm)
  let ?i = "error_item G ''Connection closed'' (addr c) (clock s)"
  have lock: "lock_read_buff (serving p c s) = Done (True, (serving p c s)\<lparr>read_buff_mux := True\<rparr>)"
    using ok(1) assms(2) by (simp add: serving_def locks_calm)
  have unlock: "unlock_read_buff (push_item Q ?i ((serving p c s)\<lparr>read_buff_mux := True\<rparr>)) = serving p c (push_item Q ?i s)"
    using ok(1) by (simp add: unlock_read_buff_def push_item_def serving_def)
  have "destroy_connection H p (serving p c (push_item Q ?i s)) = Done (dropped H t p (cfd c) (push_item Q ?i s))"
    by (subst destroy_serving[where c = "c\<lparr>mutex := True\<rparr>" and t = t])
      (use assms ok(2) in \<open>simp_all add: serving_def push_item_def dropped_def\<close>)
  then show ?thesis using sm lock unlock
    by (simp add: report_close_def Let_def) (simp add: serving_def)
qed

lemma unlock_both:
  assumes "condatas s p = Some c" and "\<not> mutex c" and "\<not> read_buff_mux s"
  shows "unlock_con p (unlock_read_buff ((serving p c s)\<lparr>read_buff_mux := True\<rparr>)) = Done s"
  using assms by (simp add: unlock_con_def unlock_read_buff_def serving_def update_con_def fun_upd_idem)


text \<open>\<open>fetch_item\<close> in that state: \<open>s\<close> is the idle state, \<open>reading p c s\<close> the one with both mutexes.\<close>

abbreviation reading :: "ptr \<Rightarrow> ConnectionData \<Rightarrow> ('q, 't) server \<Rightarrow> ('q, 't) server" where
  "reading p c s \<equiv> (serving p c s)\<lparr>read_buff_mux := True\<rparr>"

definition consumed :: "fd \<Rightarrow> bytes \<Rightarrow> ('q, 't) server \<Rightarrow> ('q, 't) server" where
  "consumed k rest s = s\<lparr>inbox := (inbox s)(k := rest)\<rparr>"

lemma serving_fields [simp]:
  "inbox (serving p c s) = inbox s" "ending (serving p c s) = ending s" "clock (serving p c s) = clock s"
  "json_mem (serving p c s) = json_mem s" "condatas (serving p c s) p = Some (c\<lparr>mutex := True\<rparr>)"
  "calm (serving p c s) = calm s"
  by (simp_all add: serving_def)

lemma consumed_fields [simp]:
  "json_mem (consumed k rest s) = json_mem s" "ending (consumed k rest s) = ending s" "clock (consumed k rest s) = clock s" "condatas (consumed k rest s) = condatas s"
  "connections_table (consumed k rest s) = connections_table s" "read_buff (consumed k rest s) = read_buff s"
  "calm (consumed k rest s) = calm s" "read_buff_mux (consumed k rest s) = read_buff_mux s"
  "connections_mux (consumed k rest s) = connections_mux s" "server_ok H (consumed k rest s) = server_ok H s"
  by (simp_all add: consumed_def server_ok_def table_lookup_def)

lemma reading_consumed:
  "(reading p c s)\<lparr>inbox := (inbox s)(k := rest)\<rparr> = reading p c (consumed k rest s)"
  by (intro server.equality) (simp_all add: serving_def consumed_def)

lemma mutex_updates:
  "c\<lparr>mutex := b, last_keep_alive := now\<rparr> = c\<lparr>last_keep_alive := now, mutex := b\<rparr>"
  "\<not> mutex c \<Longrightarrow> c\<lparr>mutex := False\<rparr> = c"
  "\<not> mutex c \<Longrightarrow> c\<lparr>last_keep_alive := now, mutex := False\<rparr> = c\<lparr>last_keep_alive := now\<rparr>"
  by (cases c; simp)+

lemma update_con_reading:
  "update_con p (\<lambda>c. c\<lparr>last_keep_alive := now\<rparr>) (reading p c s) = reading p (c\<lparr>last_keep_alive := now\<rparr>) s"
  by (intro server.equality) (simp_all add: serving_def update_con_def mutex_updates)

lemma fetch_item_none:
  assumes "calm s" and "read_json_object (ending s (cfd c)) (inbox s (cfd c)) = (status, obj, rest)" and "status \<noteq> SUCCESS"
  shows "fetch_item G Q p (reading p c s) = Done (status, reading p c (consumed (cfd c) rest s))"
proof -
  have "smalloc (reading p c s) = (True, reading p c s)" using assms(1) by (simp add: locks_calm)
  then show ?thesis using assms(2,3) by (simp add: fetch_item_def Let_def reading_consumed)
qed

lemma fetch_item_alive:
  assumes "calm s" and "read_json_object (ending s (cfd c)) (inbox s (cfd c)) = (SUCCESS, obj, rest)"
    and "glib_ok G" and "heard G (json_mem s) obj = Alive"
  shows "fetch_item G Q p (reading p c s)
    = Done (SUCCESS, reading p (c\<lparr>last_keep_alive := clock s\<rparr>) (consumed (cfd c) rest s))"
proof -
  have sm: "smalloc (reading p c s) = (True, reading p c s)" using assms(1) by (simp add: locks_calm)
  obtain m where m: "decode_message G (json_mem s) (Some (c_str obj)) (Some fresh_message) = Some (True, Some m)" "mtype m = KEEP_ALIVE"
    by (rule heard_cases[OF assms(3), of "json_mem s" obj]) (use assms(4) view_alive in auto)
  have f: "free_bufferitem \<lparr>msg = m, address = 0, recv_time = 0\<rparr> \<noteq> None"
    using m(2) by (simp add: free_bufferitem_def free_message_def split: MessageData.splits)
  show ?thesis using sm m f assms(2)
    by (auto simp: fetch_item_def Let_def reading_consumed update_con_reading)
qed

lemma fetch_item_message:
  assumes "calm s" and "read_json_object (ending s (cfd c)) (inbox s (cfd c)) = (SUCCESS, obj, rest)"
    and "glib_ok G" and "heard G (json_mem s) obj \<noteq> Alive"
  shows "\<exists>i. report_of G i = (Some (heard G (json_mem s) obj), addr c, clock s)
    \<and> fetch_item G Q p (reading p c s) = Done (SUCCESS, push_item Q i (reading p c (consumed (cfd c) rest s)))"
proof -
  have sm: "smalloc (reading p c s) = (True, reading p c s)" using assms(1) by (simp add: locks_calm)
  obtain d m m' where m: "decode_message G (json_mem s) (Some (c_str obj)) (Some fresh_message) = Some (d, Some m)"
    "m' = (if \<not> d then the (software_error G (Some m) (Some ''Could not decode message'')) else m)"
    "view G m' = Some (heard G (json_mem s) obj)"
  proof (rule heard_cases[OF assms(3), of "json_mem s" obj])
    fix m assume "decode_message G (json_mem s) (Some (c_str obj)) (Some fresh_message) = Some (True, Some m)"
      "view G m = Some (heard G (json_mem s) obj)"
    then show thesis by (intro that[of True m m]) simp_all
  next
    assume "decode_message G (json_mem s) (Some (c_str obj)) (Some fresh_message) = Some (False, Some fresh_message)"
      "heard G (json_mem s) obj = SoftwareError ''Could not decode message''"
    then show thesis using assms(3)
      using constructors_view(1)[of G fresh_message "Some ''Could not decode message''"]
      by (intro that[of False fresh_message "the (software_error G (Some fresh_message) (Some ''Could not decode message''))"])
        (simp_all add: glib_ok_def)
  qed
  then have n: "mtype m' \<noteq> KEEP_ALIVE" using assms(4) view_alive by blast
  let ?i = "\<lparr>msg = m', address = addr c, recv_time = clock s\<rparr>"
  have "fetch_item G Q p (reading p c s) = Done (SUCCESS, push_item Q ?i (reading p c (consumed (cfd c) rest s)))"
    using sm m(1,2) n assms(2) by (simp add: fetch_item_def Let_def reading_consumed)
  moreover have "report_of G ?i = (Some (heard G (json_mem s) obj), addr c, clock s)"
    using m(3) by (simp add: report_of_def)
  ultimately show ?thesis by blast
qed


text \<open>The whole handler, on the idle state \<open>s\<close>, by what comes out of the stream.\<close>

lemma push_commute:
  "unlock_read_buff (push_item Q i (s\<lparr>read_buff_mux := True\<rparr>)) = push_item Q i (s\<lparr>read_buff_mux := False\<rparr>)"
  "push_item Q i ((serving p c s)\<lparr>read_buff_mux := l\<rparr>) = (serving p c (push_item Q i s))\<lparr>read_buff_mux := l\<rparr>"
  by (simp_all add: unlock_read_buff_def push_item_def serving_def)

lemma push_fields [simp]:
  "condatas (push_item Q i s) = condatas s" "connections_table (push_item Q i s) = connections_table s"
  "read_buff_mux (push_item Q i s) = read_buff_mux s" "connections_mux (push_item Q i s) = connections_mux s"
  "json_mem (push_item Q i s) = json_mem s" "ending (push_item Q i s) = ending s"
  "inbox (push_item Q i s) = inbox s" "calm (push_item Q i s) = calm s" "clock (push_item Q i s) = clock s"
  "server_ok H (push_item Q i s) = server_ok H s" "closed (push_item Q i s) = closed s"
  by (simp_all add: push_item_def server_ok_def table_lookup_def)

lemma serve_end:
  assumes "server_ok H s" and "calm s"
  shows "unlock_con p (unlock_read_buff (reading p c s)) = Done (s\<lparr>condatas := (condatas s)(p \<mapsto> c\<lparr>mutex := False\<rparr>)\<rparr>)"
  using server_okD(1)[OF assms(1)] by (simp add: unlock_con_def unlock_read_buff_def serving_def update_con_def)

lemma object_reader_start:
  assumes "server_ok H s" and "calm s"
  shows "object_reader G Q H p (serving p c s) = and_run (fetch_item G Q p (reading p c s)) (\<lambda>status s2.
       if status = ERROR then
         (case destroy_connection H p s2 of Done s3 \<Rightarrow> Done (unlock_read_buff s3) | r \<Rightarrow> r)
       else unlock_con p (unlock_read_buff s2))"
proof -
  have "lock_read_buff (serving p c s) = Done (True, reading p c s)"
    using server_okD(1)[OF assms(1)] assms(2) by (simp add: locks_calm) (simp add: serving_def)
  then show ?thesis by (simp add: object_reader_def)
qed

lemma object_reader_success:
  assumes "server_ok H s" and "calm s" and "condatas s p = Some c" and "\<not> mutex c" and "glib_ok G"
    and "read_json_object (ending s (cfd c)) (inbox s (cfd c)) = (SUCCESS, obj, rest)"
  shows "if heard G (json_mem s) obj = Alive
    then object_reader G Q H p (serving p c s)
      = Done ((consumed (cfd c) rest s)\<lparr>condatas := (condatas s)(p \<mapsto> c\<lparr>last_keep_alive := clock s\<rparr>)\<rparr>)
    else \<exists>i. report_of G i = (Some (heard G (json_mem s) obj), addr c, clock s)
      \<and> object_reader G Q H p (serving p c s) = Done (push_item Q i (consumed (cfd c) rest s))"
proof (cases "heard G (json_mem s) obj = Alive")
  case True
  then show ?thesis using fetch_item_alive[OF assms(2,6,5)] assms(1,2,4) serve_end[of H "consumed (cfd c) rest s"]
    by (simp add: object_reader_start mutex_updates)
next
  case False
  obtain i where i: "report_of G i = (Some (heard G (json_mem s) obj), addr c, clock s)"
    "fetch_item G Q p (reading p c s) = Done (SUCCESS, push_item Q i (reading p c (consumed (cfd c) rest s)))"
    using fetch_item_message[OF assms(2,6,5) False] by blast
  have "c\<lparr>mutex := False\<rparr> = c" using assms(4) by (rule mutex_updates)
  then have "unlock_con p (unlock_read_buff (reading p c (push_item Q i (consumed (cfd c) rest s)))) = Done (push_item Q i (consumed (cfd c) rest s))"
    using assms(1-3) serve_end[of H "push_item Q i (consumed (cfd c) rest s)" p c] by (simp add: fun_upd_idem)
  then show ?thesis using False i assms(1,2) by (auto simp: object_reader_start push_commute(2))
qed

lemma object_reader_failed:
  assumes "server_ok H s" and "calm s" and "condatas s p = Some c" and "\<not> mutex c" and "ghash_ok H"
    and "connections_table s = Some t" and "g_hash_table_lookup H t (cfd c) = Some p"
    and "read_json_object (ending s (cfd c)) (inbox s (cfd c)) = (status, obj, rest)" and "status \<noteq> SUCCESS"
  shows "object_reader G Q H p (serving p c s) = Done (if status = ERROR
    then dropped H t p (cfd c) (consumed (cfd c) rest s) else consumed (cfd c) rest s)"
proof -
  have "c\<lparr>mutex := False\<rparr> = c" using assms(4) by (rule mutex_updates)
  then have e: "unlock_con p (unlock_read_buff (reading p c (consumed (cfd c) rest s))) = Done (consumed (cfd c) rest s)"
    using assms(1-3) serve_end[of H "consumed (cfd c) rest s" p c] by (simp add: fun_upd_idem)
  have "destroy_connection H p (reading p c (consumed (cfd c) rest s))
      = Done ((dropped H t p (cfd c) (consumed (cfd c) rest s))\<lparr>read_buff_mux := True\<rparr>)"
    by (subst destroy_serving[where c = "c\<lparr>mutex := True\<rparr>" and t = t])
      (use assms server_okD(2)[OF assms(1)] in \<open>simp_all add: serving_def dropped_def\<close>)
  moreover have "unlock_read_buff ((dropped H t p (cfd c) (consumed (cfd c) rest s))\<lparr>read_buff_mux := True\<rparr>)
      = dropped H t p (cfd c) (consumed (cfd c) rest s)"
    using server_okD(1)[OF assms(1)] by (simp add: unlock_read_buff_def dropped_def)
  ultimately show ?thesis using e fetch_item_none[OF assms(2,8,9), where G = G and Q = Q and p = p] assms(1,2)
    by (simp add: object_reader_start)
qed


section \<open>Refinement\<close>

lemma abstraction_fields:
  "waiting (abstraction G Q H s) = map (report_of G) (queued Q s)" "stream (abstraction G Q H s) = inbox s"
  by (simp_all add: abstraction_def)

lemma abstraction_client:
  "condatas s p = Some c \<Longrightarrow> table_lookup H s k = Some p
    \<Longrightarrow> clients (abstraction G Q H s) k = Some (addr c, last_keep_alive c)"
  "table_lookup H s k = None \<Longrightarrow> clients (abstraction G Q H s) k = None"
  by (simp_all add: abstraction_def)

lemma abstraction_push:
  assumes "gqueue_ok Q" and "read_buff s \<noteq> None"
  shows "abstraction G Q H (push_item Q i s)
    = (abstraction G Q H s)\<lparr>waiting := waiting (abstraction G Q H s) @ [report_of G i]\<rparr>"
  using assms gqueue_facts(2)[OF assms(1)]
  by (auto simp: abstraction_def push_item_def queued_def table_lookup_def cong: option.case_cong)

lemma abstraction_consumed:
  "abstraction G Q H (consumed k rest s) = (abstraction G Q H s)\<lparr>stream := (inbox s)(k := rest)\<rparr>"
  by (simp add: abstraction_def consumed_def queued_def table_lookup_def cong: option.case_cong)

lemma dropped_fields [simp]:
  "clock (dropped H t p k s) = clock s" "json_mem (dropped H t p k s) = json_mem s" "ending (dropped H t p k s) = ending s"
  "calm (dropped H t p k s) = calm s"
  by (simp_all add: dropped_def)

lemma dropped_lookup:
  assumes "ghash_ok H" and "connections_table s = Some t"
  shows "table_lookup H (dropped H t p k s) = (table_lookup H s)(k := None)"
  using ghash_facts(4)[OF assms(1)] assms(2) by (simp add: table_lookup_def dropped_def fun_eq_iff)

lemma abstraction_dropped:
  assumes "ghash_ok H" and "server_ok H s" and "connections_table s = Some t" and "table_lookup H s k = Some p"
  shows "abstraction G Q H (dropped H t p k s)
    = (abstraction G Q H s)\<lparr>clients := (clients (abstraction G Q H s))(k := None)\<rparr>"
proof -
  have "q \<noteq> p" if "j \<noteq> k" "table_lookup H s j = Some q" for j q
    using server_okD(5)[OF assms(2) that(2)] server_okD(5)[OF assms(2,4)] that(1) by auto
  then have "clients (abstraction G Q H (dropped H t p k s)) = (clients (abstraction G Q H s))(k := None)"
    using dropped_lookup[OF assms(1,3)]
    by (auto simp: abstraction_def dropped_def fun_eq_iff split: option.splits)
  then show ?thesis by (simp add: abstraction_def dropped_def queued_def)
qed

lemma server_ok_dropped:
  assumes "ghash_ok H" and "server_ok H s" and "connections_table s = Some t" and "table_lookup H s k = Some p"
  shows "server_ok H (dropped H t p k s)"
proof -
  note ok = server_okD[OF assms(2)]
  have l: "table_lookup H (dropped H t p k s) j = (if j = k then None else table_lookup H s j)" for j
    using dropped_lookup[OF assms(1,3)] by simp
  have c: "condatas (dropped H t p k s) q = (if q = p then None else condatas s q)" for q
    by (simp add: dropped_def)
  have pk: "q \<noteq> p" if "j \<noteq> k" "table_lookup H s j = Some q" for j q
    using ok(5)[OF that(2)] ok(5)[OF assms(4)] that(1) by auto
  have qp: "q = p" if "condatas s q = Some d" "cfd d = k" for q d
    using ok(6)[OF that(1)] that(2) assms(4) by simp
  have o: "\<not> read_buff_mux (dropped H t p k s)" "\<not> connections_mux (dropped H t p k s)"
    "read_buff (dropped H t p k s) \<noteq> None" "connections_table (dropped H t p k s) \<noteq> None"
    "next_ptr (dropped H t p k s) = next_ptr s"
    using ok(1-3) by (auto simp: dropped_def)
  show ?thesis unfolding server_ok_def l c
    using o ok(5-7) pk qp by (auto split: if_splits)
qed

lemma server_ok_alive:
  assumes "server_ok H s" and "condatas s p = Some c"
  shows "server_ok H (s\<lparr>condatas := (condatas s)(p \<mapsto> c\<lparr>last_keep_alive := now\<rparr>)\<rparr>)"
proof -
  note ok = server_okD[OF assms(1)]
  have t: "table_lookup H (s\<lparr>condatas := f\<rparr>) = table_lookup H s" for f
    by (rule ext) (simp add: table_lookup_def)
  have r: "read_buff s \<noteq> None" "connections_table s \<noteq> None" using ok(3,4) by auto
  have l: "\<exists>d. condatas (s\<lparr>condatas := (condatas s)(p \<mapsto> c\<lparr>last_keep_alive := now\<rparr>)\<rparr>) q = Some d \<and> cfd d = k \<and> \<not> mutex d \<and> \<not> destroyed d"
    if "table_lookup H s k = Some q" for k q
    using ok(5)[OF that] assms(2) by auto
  show ?thesis unfolding server_ok_def t using ok(1,2,6,7) r l assms(2) by auto
qed

lemma abstraction_alive:
  assumes "server_ok H s" and "condatas s p = Some c" and "table_lookup H s k = Some p"
  shows "abstraction G Q H (s\<lparr>condatas := (condatas s)(p \<mapsto> c\<lparr>last_keep_alive := now\<rparr>)\<rparr>)
    = (abstraction G Q H s)\<lparr>clients := (clients (abstraction G Q H s))(k \<mapsto> (addr c, now))\<rparr>"
proof -
  have "q \<noteq> p" if "j \<noteq> k" "table_lookup H s j = Some q" for j q
    using server_okD(5)[OF assms(1) that(2)] server_okD(5)[OF assms(1,3)] that(1) by auto
  then show ?thesis using assms(3)
    by (auto simp: abstraction_def table_lookup_def queued_def fun_eq_iff split: option.splits)
qed

text \<open>
  The handler implements \<open>receive\<close>: it never blocks, exits or touches a freed block, ends in an
  idle state, and its effect on the abstract state is that of the specification.
\<close>

lemma io_handler_refines:
  assumes "server_ok H s" and "calm s" and "gqueue_ok Q" and "ghash_ok H" and "glib_ok G"
  shows "\<exists>s'. io_handler G Q H k s = Done s' \<and> server_ok H s' \<and> calm s'
    \<and> abstraction G Q H s' = receive G (json_mem s) (clock s) (ending s k) k (abstraction G Q H s)
    \<and> clock s' = clock s \<and> json_mem s' = json_mem s \<and> ending s' = ending s"
proof (cases "table_lookup H s k")
  case None
  then show ?thesis using io_handler_absent[OF assms(1,2) None, where G = G and Q = Q] assms(1,2)
    by (simp add: receive_def abstraction_client(2))
next
  case (Some p)
  note ok = server_okD[OF assms(1)]
  obtain c where c: "condatas s p = Some c" "cfd c = k" "\<not> mutex c" using ok(5)[OF Some] by blast
  obtain t where t: "connections_table s = Some t" using ok(4) by blast
  have l: "g_hash_table_lookup H t (cfd c) = Some p" using Some t c(2) by (simp add: table_lookup_def)
  have rb: "read_buff s \<noteq> None" using ok(3) by auto
  note io = io_handler_found[OF assms(1,2) Some c(1), of G Q]
  note cl = abstraction_client(1)[OF c(1) Some, of G Q]
  show ?thesis
  proof (cases "inbox s k = []")
    case True
    let ?i = "error_item G ''Connection closed'' (addr c) (clock s)"
    have a: "abstraction G Q H (dropped H t p k (push_item Q ?i s))
        = receive G (json_mem s) (clock s) (ending s k) k (abstraction G Q H s)"
      using abstraction_dropped[OF assms(4), of "push_item Q ?i s" t k p G Q] assms t Some True cl rb
        abstraction_push[OF assms(3) rb, of G H ?i] report_error_item[OF assms(5)]
      by (simp add: receive_def abstraction_fields table_lookup_def)
    show ?thesis using io True report_close_serving[OF assms(1,2,4) t l c(1), of G Q] c(2) a
        server_ok_dropped[OF assms(4), of "push_item Q ?i s" t k p] assms(1,2) t Some
      by (simp add: table_lookup_def)
  next
    case False
    obtain status obj rest where r: "read_json_object (ending s k) (inbox s k) = (status, obj, rest)"
      by (cases "read_json_object (ending s k) (inbox s k)") auto
    note r' = r[folded c(2)]
    show ?thesis
    proof (cases "status = SUCCESS")
      case True
      note rs = r'[unfolded True]
      note or = object_reader_success[OF assms(1,2) c(1,3) assms(5) rs, of Q]
      note pre = assms(1,2) io False cl r True c
      show ?thesis
      proof (cases "heard G (json_mem s) obj = Alive")
        case True
        let ?s = "(consumed k rest s)\<lparr>condatas := (condatas s)(p \<mapsto> c\<lparr>last_keep_alive := clock s\<rparr>)\<rparr>"
        have "server_ok H ?s" "calm ?s" using server_ok_alive[of H "consumed k rest s" p c "clock s"] assms(1,2) c(1) by simp_all
        moreover have "abstraction G Q H ?s
            = (abstraction G Q H s)\<lparr>clients := (clients (abstraction G Q H s))(k \<mapsto> (addr c, clock s)), stream := (inbox s)(k := rest)\<rparr>"
          using abstraction_alive[of H "consumed k rest s" p c k G Q "clock s"] assms(1) c(1) Some
          by (simp add: abstraction_consumed table_lookup_def)
        ultimately show ?thesis using pre or True by (simp add: receive_def abstraction_fields)
      next
        case False
        then obtain i where i: "report_of G i = (Some (heard G (json_mem s) obj), addr c, clock s)"
          "object_reader G Q H p (serving p c s) = Done (push_item Q i (consumed k rest s))"
          using or c(2) by auto
        have "abstraction G Q H (push_item Q i (consumed k rest s)) = (abstraction G Q H s)\<lparr>stream := (inbox s)(k := rest),
            waiting := waiting (abstraction G Q H s) @ [(Some (heard G (json_mem s) obj), addr c, clock s)]\<rparr>"
          using abstraction_push[OF assms(3), of "consumed k rest s" G H i] rb i(1)
          by (simp add: abstraction_consumed)
        then show ?thesis using pre i(2) False by (simp add: receive_def abstraction_fields)
      qed
    next
      case nosuccess: False
      have a: "abstraction G Q H (dropped H t p k (consumed k rest s))
          = (abstraction G Q H s)\<lparr>clients := (clients (abstraction G Q H s))(k := None), stream := (inbox s)(k := rest)\<rparr>"
        using abstraction_dropped[OF assms(4), of "consumed k rest s" t k p G Q] assms(1) t Some
        by (simp add: abstraction_consumed table_lookup_def)
      note of = object_reader_failed[OF assms(1,2) c(1,3) assms(4) t l r' nosuccess, of G Q]
      have "server_ok H (dropped H t p k (consumed k rest s))" "calm (dropped H t p k (consumed k rest s))"
        using server_ok_dropped[OF assms(4), of "consumed k rest s" t k p] assms(1,2) t Some
        by (simp_all add: table_lookup_def dropped_def)
      then show ?thesis using of a io False cl r nosuccess c assms(1,2)
        by (auto simp: receive_def abstraction_fields abstraction_consumed)
    qed
  qed
qed

end
