(* ===== verification/ServerRefine.thy ===== *)
theory ServerRefine
  imports ServerSpec
begin

text \<open>
  The other entry points of \<open>src/server.c\<close> against the abstract server: reading a message,
  accepting a connection, the periodic check of the keep-alive times.
\<close>

section \<open>Reading messages\<close>

text \<open>\<open>read_message\<close> takes the first waiting report, and answers NULL when there is none.\<close>

lemma read_message_refines:
  assumes "server_ok H s" and "calm s" and "gqueue_ok Q"
  shows "\<exists>r s'. read_message Q s = Done (r, s') \<and> server_ok H s' \<and> calm s'
    \<and> (case queued Q s of [] \<Rightarrow> r = None \<and> queued Q s' = [] | i # is \<Rightarrow> r = Some i \<and> queued Q s' = is)
    \<and> abstraction G Q H s' = (abstraction G Q H s)\<lparr>waiting := tl (waiting (abstraction G Q H s))\<rparr> \<and> clock s' = clock s"
proof -
  note ok = server_okD[OF assms(1)]
  obtain q where q: "read_buff s = Some q" using ok(3) by blast
  let ?s' = "s\<lparr>read_buff := Some (snd (g_queue_pop_head Q q))\<rparr>"
  have e: "read_message Q s = Done (fst (g_queue_pop_head Q q), ?s')"
    using q ok(1) assms(2) by (simp add: read_message_def locks_calm unlock_read_buff_def split: prod.splits)
  have p: "case queued Q s of [] \<Rightarrow> fst (g_queue_pop_head Q q) = None \<and> queued Q ?s' = []
      | i # is \<Rightarrow> fst (g_queue_pop_head Q q) = Some i \<and> queued Q ?s' = is"
    using gqueue_facts(3,4)[OF assms(3), of q] q by (auto simp: queued_def split: list.splits)
  have "table_lookup H ?s' = table_lookup H s" by (rule ext) (simp add: table_lookup_def)
  then have "server_ok H ?s'" using assms(1) by (simp add: server_ok_def)
  moreover have "abstraction G Q H ?s' = (abstraction G Q H s)\<lparr>waiting := tl (waiting (abstraction G Q H s))\<rparr>"
    using p by (auto simp: abstraction_def table_lookup_def map_tl cong: option.case_cong split: list.splits)
  ultimately show ?thesis using e p assms(2)
    by (intro exI[of _ "fst (g_queue_pop_head Q q)"] exI[of _ ?s']) simp
qed

section \<open>New connections\<close>

lemma unlock_locked: "\<not> connections_mux s \<Longrightarrow> unlock_connections (s\<lparr>connections_mux := True, connections_table := t\<rparr>) = s\<lparr>connections_table := t\<rparr>"
  by (simp add: unlock_connections_def)

text \<open>The kernel gives a fresh descriptor, and knows the address of the peer.\<close>

definition accepts :: "answers \<Rightarrow> fd \<Rightarrow> 32 word \<Rightarrow> bool" where
  "accepts a k ad \<longleftrightarrow> accepted a = k \<and> k \<noteq> - 1 \<and> peer1 a \<noteq> None \<and> peer2 a = Some ad \<and> mutex_init a \<noteq> - 1"

lemma connect_handler_refines:
  assumes "server_ok H s" and "calm s" and "ghash_ok H" and "accepts a k ad" and "clock s \<noteq> - 1"
    and "table_lookup H s k = None"
  shows "\<exists>s'. connect_handler H a s = Done s' \<and> server_ok H s' \<and> calm s'
    \<and> abstraction G Q H s' = (abstraction G Q H s)\<lparr>clients := (clients (abstraction G Q H s))(k \<mapsto> (ad, clock s))\<rparr>
    \<and> signalling s' = signalling s @ (if fst (setup_rt_signal_io (read_rt a)) then [k] else []) \<and> clock s' = clock s"
proof -
  note ok = server_okD[OF assms(1)]
  obtain t where t: "connections_table s = Some t" using ok(4) by blast
  let ?p = "next_ptr s"
  let ?c = "\<lparr>cfd = k, mutex = False, addr = ad, last_keep_alive = clock s, destroyed = False\<rparr>"
  have tl: "g_hash_table_lookup H t k = None" using assms(6) t by (simp add: table_lookup_def)
  then obtain t' where ins: "g_hash_table_insert H t k ?p = (True, t')"
    using ghash_facts(2)[OF assms(3), of t k ?p] by (cases "g_hash_table_insert H t k ?p") simp
  have lk: "g_hash_table_lookup H t' = (g_hash_table_lookup H t)(k \<mapsto> ?p)"
    using ghash_facts(3)[OF assms(3), of t k ?p] ins by simp
  let ?s1 = "s\<lparr>condatas := (condatas s)(?p \<mapsto> ?c), next_ptr := ?p + 1, connections_table := Some t'\<rparr>"
  let ?s' = "?s1\<lparr>read_sig_on := read_sig_on s \<or> snd (setup_rt_signal_io (read_rt a)),
      signalling := signalling s @ (if fst (setup_rt_signal_io (read_rt a)) then [k] else [])\<rparr>"
  have "connect_handler H a s = Done ?s'"
    using assms(2,4,5) t ins ok(2)
    by (cases "setup_rt_signal_io (read_rt a)")
      (auto simp: connect_handler_def accepts_def locks_calm Let_def update_con_def unlock_connections_def
        intro!: server.equality)
  moreover have l: "table_lookup H ?s' = (table_lookup H s)(k \<mapsto> ?p)"
    using t lk by (auto simp: table_lookup_def fun_eq_iff)
  moreover have fresh: "condatas s ?p = None" using ok(7) by (cases "condatas s ?p") auto
  moreover have keep: "q \<noteq> ?p" if "table_lookup H s j = Some q" for j q using ok(5)[OF that] fresh by auto
  moreover have "server_ok H ?s'"
  proof -
    have "\<exists>c. condatas ?s' q = Some c \<and> cfd c = j \<and> \<not> mutex c \<and> \<not> destroyed c" if "table_lookup H ?s' j = Some q" for j q
      using that ok(5)[of j q] keep[of j q] unfolding l by (cases "j = k") auto
    moreover have "table_lookup H ?s' (cfd c) = Some q" if "condatas ?s' q = Some c" for q c
      using that ok(6)[of q c] assms(6) unfolding l by (cases "q = ?p") auto
    moreover have "q < next_ptr ?s'" if "condatas ?s' q \<noteq> None" for q
      using that ok(7)[of q] by (cases "q = ?p") auto
    ultimately show ?thesis using ok(1-3) unfolding server_ok_def by auto
  qed
  moreover have "abstraction G Q H ?s' = (abstraction G Q H s)\<lparr>clients := (clients (abstraction G Q H s))(k \<mapsto> (ad, clock s))\<rparr>"
  proof -
    have "clients (abstraction G Q H ?s') j = ((clients (abstraction G Q H s))(k \<mapsto> (ad, clock s))) j" for j
      using keep[of j] unfolding abstraction_def abstract.select_convs l by (auto split: option.splits)
    then show ?thesis by (intro abstract.equality ext) (simp_all add: abstraction_def queued_def)
  qed
  ultimately show ?thesis using assms(2) by (intro exI[of _ ?s']) (simp add: calm_def)
qed


section \<open>The keep-alive check\<close>

definition stale :: "abstract \<Rightarrow> int \<Rightarrow> fd set" where
  "stale a now = {k. \<exists>ad seen. clients a k = Some (ad, seen) \<and> 30 < now - seen}"

definition timeout :: "abstract \<Rightarrow> int \<Rightarrow> fd \<Rightarrow> report" where
  "timeout a now k = (Some (SoftwareError ''Connection timeout''), fst (the (clients a k)), now)"

lemma check_keep_alive_step:
  assumes "calm s" and "\<not> read_buff_mux s" and "condatas s p = Some c" and "clock s \<noteq> - 1"
  shows "check_keep_alive G Q p s = Done (if 30 < clock s - last_keep_alive c
    then push_item Q (error_item G ''Connection timeout'' (addr c) (clock s)) s else s)"
proof -
  have p: "KEEP_ALIVE_PROD = 30"
    by (simp add: KEEP_ALIVE_PROD_def KEEP_ALIVE_CHECK_PERIOD_def KEEP_ALIVE_GRACE_def KEEP_ALIVE_INTERVAL_def)
  have "unlock_read_buff (push_item Q i (s\<lparr>read_buff_mux := True\<rparr>)) = push_item Q i s" for i
  proof -
    have "s\<lparr>read_buff_mux := False\<rparr> = s" using assms(2) by (cases s) simp
    then show ?thesis by (simp add: push_commute)
  qed
  then show ?thesis using assms p by (simp add: check_keep_alive_def locks_calm)
qed

definition is_stale :: "('q, 't) server \<Rightarrow> ptr \<Rightarrow> bool" where
  "is_stale s p \<longleftrightarrow> (\<exists>c. condatas s p = Some c \<and> 30 < clock s - last_keep_alive c)"

definition timeout_item :: "'g glib \<Rightarrow> ('q, 't) server \<Rightarrow> ptr \<Rightarrow> 'g BufferItem" where
  "timeout_item G s p = error_item G ''Connection timeout'' (addr (the (condatas s p))) (clock s)"

lemma foreach_check:
  assumes "calm s" and "\<not> read_buff_mux s" and "clock s \<noteq> - 1" and "\<forall>p \<in> set ps. condatas s p \<noteq> None"
  shows "foreach_con (check_keep_alive G Q) ps s
    = Done (fold (push_item Q) (map (timeout_item G s) (filter (is_stale s) ps)) s)"
  using assms
proof (induction ps arbitrary: s)
  case (Cons p ps)
  obtain c where c: "condatas s p = Some c" using Cons.prems(4) by auto
  let ?s = "if is_stale s p then push_item Q (timeout_item G s p) s else s"
  have same: "timeout_item G ?s = timeout_item G s" "is_stale ?s = is_stale s"
    by (auto simp: timeout_item_def is_stale_def fun_eq_iff)
  have "check_keep_alive G Q p s = Done ?s"
    using check_keep_alive_step[OF Cons.prems(1,2) c Cons.prems(3), of G Q] c by (simp add: is_stale_def timeout_item_def)
  moreover have "foreach_con (check_keep_alive G Q) ps ?s
      = Done (fold (push_item Q) (map (timeout_item G s) (filter (is_stale s) ps)) ?s)"
    using Cons.IH[of ?s] Cons.prems unfolding same by (auto split: if_splits)
  ultimately show ?case by simp
qed simp

lemma fold_push_waiting:
  assumes "gqueue_ok Q"
  shows "read_buff s \<noteq> None \<Longrightarrow> abstraction G Q H (fold (push_item Q) is s)
      = (abstraction G Q H s)\<lparr>waiting := waiting (abstraction G Q H s) @ map (report_of G) is\<rparr>"
proof (induction "is" arbitrary: s)
  case (Cons i "is")
  have "read_buff (push_item Q i s) \<noteq> None" using Cons.prems by (simp add: push_item_def)
  from Cons.IH[OF this] show ?case using abstraction_push[OF assms Cons.prems] by simp
qed simp

lemma fold_push_fields [simp]:
  "server_ok H (fold (push_item Q) is s) = server_ok H s" "calm (fold (push_item Q) is s) = calm s"
  "connections_mux (fold (push_item Q) is s) = connections_mux s" "clock (fold (push_item Q) is s) = clock s"
  by (induction "is" arbitrary: s) simp_all

lemma fold_push_mux:
  "(fold (push_item Q) is s)\<lparr>connections_mux := l\<rparr> = fold (push_item Q) is (s\<lparr>connections_mux := l\<rparr>)"
proof (induction "is" arbitrary: s)
  case (Cons i "is")
  have "(push_item Q i s)\<lparr>connections_mux := l\<rparr> = push_item Q i (s\<lparr>connections_mux := l\<rparr>)"
    by (cases s) (simp add: push_item_def)
  then show ?case using Cons.IH[of "push_item Q i s"] by simp
qed simp

text \<open>The values of the table are the blocks of the connections, each once.\<close>

lemma table_values:
  assumes "server_ok H s" and "ghash_ok H" and "connections_table s = Some t"
  shows "p \<in> set (ht_values H t) \<longleftrightarrow> (\<exists>c. condatas s p = Some c \<and> table_lookup H s (cfd c) = Some p)"
    and "distinct (ht_values H t)"
    and "inj_on (\<lambda>p. cfd (the (condatas s p))) (set (ht_values H t))"
proof -
  note ok = server_okD[OF assms(1)]
  have lt: "table_lookup H s = g_hash_table_lookup H t" using assms(3) by (simp add: table_lookup_def fun_eq_iff)
  show mem: "p \<in> set (ht_values H t) \<longleftrightarrow> (\<exists>c. condatas s p = Some c \<and> table_lookup H s (cfd c) = Some p)" for p
    using ok(5)[of _ p] ghash_facts(5)[OF assms(2), of t] unfolding lt ran_def by blast
  have "inj_on (g_hash_table_lookup H t) (dom (g_hash_table_lookup H t))"
  proof (rule inj_onI)
    fix x y assume "x \<in> dom (g_hash_table_lookup H t)" "g_hash_table_lookup H t x = g_hash_table_lookup H t y"
    then obtain p where "table_lookup H s x = Some p" "table_lookup H s y = Some p" using lt by (metis domD)
    then show "x = y" using ok(5)[of x p] ok(5)[of y p] by auto
  qed
  then show "distinct (ht_values H t)" by (rule ghash_facts(6)[OF assms(2)])
  show "inj_on (\<lambda>p. cfd (the (condatas s p))) (set (ht_values H t))"
  proof (rule inj_onI)
    fix p q assume "p \<in> set (ht_values H t)" "q \<in> set (ht_values H t)" "cfd (the (condatas s p)) = cfd (the (condatas s q))"
    then show "p = q" using mem[of p] mem[of q] by force
  qed
qed

definition stale_fds :: "'t ghash \<Rightarrow> 't \<Rightarrow> ('q, 't) server \<Rightarrow> fd list" where
  "stale_fds H t s = map (\<lambda>p. cfd (the (condatas s p))) (filter (is_stale s) (ht_values H t))"

lemma stale_fds:
  assumes "server_ok H s" and "ghash_ok H" and "connections_table s = Some t"
  shows "set (stale_fds H t s) = stale (abstraction G Q H s) (clock s)" and "distinct (stale_fds H t s)"
proof -
  note ok = server_okD[OF assms(1)] and mem = table_values[OF assms]
  show "distinct (stale_fds H t s)"
    using mem(2,3) by (auto simp: stale_fds_def distinct_map intro: inj_on_subset)
  show "set (stale_fds H t s) = stale (abstraction G Q H s) (clock s)"
  proof (intro set_eqI iffI)
    fix k assume "k \<in> set (stale_fds H t s)"
    then obtain p where p: "k = cfd (the (condatas s p))" "is_stale s p" "p \<in> set (ht_values H t)" by (auto simp: stale_fds_def)
    then obtain c where "condatas s p = Some c" "table_lookup H s (cfd c) = Some p" using mem(1) by blast
    then show "k \<in> stale (abstraction G Q H s) (clock s)" using p by (auto simp: stale_def abstraction_def is_stale_def)
  next
    fix k assume "k \<in> stale (abstraction G Q H s) (clock s)"
    then obtain p c where p: "condatas s p = Some c" "table_lookup H s k = Some p" "30 < clock s - last_keep_alive c"
      by (auto simp: stale_def abstraction_def split: option.splits)
    then have "cfd c = k" using ok(5)[OF p(2)] by auto
    then show "k \<in> set (stale_fds H t s)" using mem(1)[of p] p by (force simp: stale_fds_def is_stale_def)
  qed
qed

lemma iter_keep_alives_reports:
  assumes "server_ok H s" and "calm s" and "gqueue_ok Q" and "ghash_ok H" and "glib_ok G" and "clock s \<noteq> - 1"
  shows "\<exists>s' ks. iter_keep_alives G Q H s = Done s' \<and> server_ok H s' \<and> calm s'
    \<and> distinct ks \<and> set ks = stale (abstraction G Q H s) (clock s)
    \<and> abstraction G Q H s' = (abstraction G Q H s)\<lparr>waiting := waiting (abstraction G Q H s)
        @ map (timeout (abstraction G Q H s) (clock s)) ks\<rparr> \<and> clock s' = clock s"
proof -
  note ok = server_okD[OF assms(1)]
  obtain t where t: "connections_table s = Some t" using ok(4) by blast
  let ?ps = "ht_values H t"
  note mem = table_values(1)[OF assms(1,4) t]
  let ?l = "s\<lparr>connections_mux := True\<rparr>"
  have same: "timeout_item G ?l = timeout_item G s" "is_stale ?l = is_stale s"
    by (auto simp: timeout_item_def is_stale_def fun_eq_iff)
  let ?is = "map (timeout_item G s) (filter (is_stale s) ?ps)"
  let ?s' = "fold (push_item Q) ?is s"
  have "s\<lparr>connections_mux := False\<rparr> = s" using ok(2) by (cases s) simp
  then have "unlock_connections (fold (push_item Q) ?is ?l) = ?s'"
    by (simp add: unlock_connections_def fold_push_mux)
  moreover have "\<forall>p \<in> set ?ps. condatas s p \<noteq> None" using mem by auto
  ultimately have i: "iter_keep_alives G Q H s = Done ?s'"
    using foreach_check[of ?l ?ps G Q] assms(2,6) ok(1,2) t unfolding same by (simp add: iter_keep_alives_def)
  have "report_of G (timeout_item G s p) = timeout (abstraction G Q H s) (clock s) (cfd (the (condatas s p)))"
    if "p \<in> set ?ps" for p
    using mem[of p] that report_error_item[OF assms(5)] by (auto simp: timeout_item_def timeout_def abstraction_def)
  then have "map (report_of G) ?is = map (timeout (abstraction G Q H s) (clock s)) (stale_fds H t s)"
    by (simp add: stale_fds_def)
  then show ?thesis using i fold_push_waiting[OF assms(3), of s G H ?is] ok(3) assms(1,2) stale_fds[OF assms(1,4) t]
    by (intro exI[of _ ?s'] exI[of _ "stale_fds H t s"]) auto
qed

end
