(* ===== verification/ServerLifecycle.thy ===== *)
theory ServerLifecycle
  imports ServerRefine
begin

text \<open>
  \<open>start_server\<close> and \<open>stop_server\<close> of \<open>src/server.c\<close>: which state they leave on every path.
\<close>

section \<open>Stopping\<close>

text \<open>Every waiting report has a content: the messages in the queue are complete.\<close>

definition legal :: "abstract \<Rightarrow> bool" where
  "legal a \<longleftrightarrow> (\<forall>r \<in> set (waiting a). fst r \<noteq> None)"

lemma free_viewed: "view G (msg i) = Some n \<Longrightarrow> free_bufferitem i \<noteq> None"
  by (auto simp: view_def free_bufferitem_def free_message_def
      split: MessageType.splits MessageData.splits option.splits)

lemma free_items_legal:
  assumes "legal (abstraction G Q H s)"
  shows "free_items (queued Q s)"
proof -
  have "free_items is" if "\<forall>i \<in> set is. view G (msg i) \<noteq> None" for "is"
    using that by (induction "is") (auto dest: free_viewed)
  then show ?thesis using assms by (auto simp: legal_def abstraction_def report_of_def)
qed

lemma foreach_free:
  assumes "\<forall>p \<in> set ps. \<exists>c. condatas s p = Some c \<and> \<not> mutex c" and "distinct ps"
  shows "foreach_con free_connectiondata ps s = Done (s\<lparr>condatas := (condatas s) |` (- set ps),
    closed := closed s @ map (\<lambda>p. cfd (the (condatas s p))) ps, misuses := misuses s + length ps\<rparr>)"
  using assms
proof (induction ps arbitrary: s)
  case Nil
  then show ?case by simp
next
  case (Cons p ps)
  obtain c where c: "condatas s p = Some c" "\<not> mutex c" using Cons.prems(1) by auto
  let ?s = "s\<lparr>misuses := misuses s + 1, condatas := (condatas s)(p := None), closed := closed s @ [cfd c]\<rparr>"
  have "\<forall>q \<in> set ps. \<exists>c. condatas ?s q = Some c \<and> \<not> mutex c" using Cons.prems by auto
  note ih = Cons.IH[OF this]
  have "free_connectiondata p s = Done ?s" using c by (simp add: free_connectiondata_def)
  then have "foreach_con free_connectiondata (p # ps) s = foreach_con free_connectiondata ps ?s" by simp
  also have "\<dots> = Done (?s\<lparr>condatas := (condatas ?s) |` (- set ps),
    closed := closed ?s @ map (\<lambda>p. cfd (the (condatas ?s p))) ps, misuses := misuses ?s + length ps\<rparr>)"
    by (rule ih) (use Cons.prems(2) in simp)
  also have "?s\<lparr>condatas := (condatas ?s) |` (- set ps),
    closed := closed ?s @ map (\<lambda>p. cfd (the (condatas ?s p))) ps, misuses := misuses ?s + length ps\<rparr>
    = s\<lparr>condatas := (condatas s) |` (- set (p # ps)),
        closed := closed s @ map (\<lambda>p. cfd (the (condatas s p))) (p # ps), misuses := misuses s + length (p # ps)\<rparr>"
    using Cons.prems(2) c by (intro server.equality) (auto simp: restrict_map_def fun_eq_iff)
  finally show ?case .
qed

text \<open>
  A server that has been stopped: nothing is allocated, no handler is installed, the timer is
  off, the socket and every connection are closed.
\<close>

definition stopped :: "('q, 't) server \<Rightarrow> bool" where
  "stopped s \<longleftrightarrow> read_buff s = None \<and> connections_table s = None \<and> condatas s = Map.empty \<and> listen_socket s = - 1
     \<and> \<not> timer_armed s \<and> \<not> connect_sig_on s \<and> \<not> read_sig_on s \<and> \<not> read_buff_mux s \<and> \<not> connections_mux s"

text \<open>The blocks behind the table, which \<open>g_hash_table_destroy\<close> frees.\<close>

lemma table_blocks:
  assumes "server_ok H s" and "ghash_ok H" and "connections_table s = Some t"
  shows "\<forall>p \<in> set (ht_values H t). \<exists>c. condatas s p = Some c \<and> \<not> mutex c"
    and "(condatas s) |` (- set (ht_values H t)) = Map.empty"
    and "set (map (\<lambda>p. cfd (the (condatas s p))) (ht_values H t)) = dom (clients (abstraction G Q H s))"
    and "distinct (map (\<lambda>p. cfd (the (condatas s p))) (ht_values H t))"
proof -
  note ok = server_okD[OF assms(1)] and mem = table_values[OF assms]
  show "\<forall>p \<in> set (ht_values H t). \<exists>c. condatas s p = Some c \<and> \<not> mutex c"
  proof
    fix p assume "p \<in> set (ht_values H t)"
    then obtain c where c: "condatas s p = Some c" "table_lookup H s (cfd c) = Some p" using mem(1)[of p] by blast
    then show "\<exists>c. condatas s p = Some c \<and> \<not> mutex c" using ok(5)[OF c(2)] by auto
  qed
  have "condatas s p = None" if "p \<notin> set (ht_values H t)" for p
    using mem(1)[of p] ok(6)[of p] that by (cases "condatas s p") auto
  then show "(condatas s) |` (- set (ht_values H t)) = Map.empty" by (auto simp: restrict_map_def fun_eq_iff)
  have "k \<in> set (map (\<lambda>p. cfd (the (condatas s p))) (ht_values H t))
      \<longleftrightarrow> (\<exists>c p. condatas s p = Some c \<and> table_lookup H s k = Some p \<and> cfd c = k)" for k
    using mem(1) by force
  moreover have "k \<in> dom (clients (abstraction G Q H s))
      \<longleftrightarrow> (\<exists>c p. condatas s p = Some c \<and> table_lookup H s k = Some p \<and> cfd c = k)" for k
    using ok(5)[of k] unfolding abstraction_def dom_def by (auto split: option.splits)
  ultimately show "set (map (\<lambda>p. cfd (the (condatas s p))) (ht_values H t)) = dom (clients (abstraction G Q H s))"
    by blast
  show "distinct (map (\<lambda>p. cfd (the (condatas s p))) (ht_values H t))" using mem(2,3) by (simp add: distinct_map)
qed

lemma stop_server_stops:
  assumes "server_ok H s" and "calm s" and "ghash_ok H" and "legal (abstraction G Q H s)"
  shows "\<exists>s' ks. stop_server Q H 0 0 0 s = Done s' \<and> stopped s' \<and> calm s'
    \<and> distinct ks \<and> set ks = dom (clients (abstraction G Q H s))
    \<and> closed s' = closed s @ (if listen_socket s \<noteq> - 1 then [listen_socket s] else []) @ ks
    \<and> misuses s' = misuses s + length ks"
proof -
  note ok = server_okD[OF assms(1)]
  obtain t where t: "connections_table s = Some t" using ok(4) by blast
  obtain q where q: "read_buff s = Some q" using ok(3) by blast
  let ?ps = "ht_values H t" and ?ks = "map (\<lambda>p. cfd (the (condatas s p))) (ht_values H t)"
  note blocks = table_blocks[OF assms(1,3) t]
  have fi: "free_items (g_queue_items Q q)" using free_items_legal[OF assms(4)] q by (simp add: queued_def)
  define s1 where "s1 = s\<lparr>read_sig_on := False, connect_sig_on := False, timer_armed := False, listen_socket := - 1,
    closed := closed s @ (if listen_socket s \<noteq> - 1 then [listen_socket s] else [])\<rparr>"
  define s2 where "s2 = s1\<lparr>connections_table := None, condatas := Map.empty, closed := closed s1 @ ?ks, misuses := misuses s + length ?ps\<rparr>"
  have c1: "calm s1" "connections_table s1 = Some t" "read_buff s1 = Some q" "\<not> connections_mux s1" "condatas s1 = condatas s"
    using assms(2) t q ok(2) by (simp_all add: s1_def calm_def)
  have free: "foreach_con free_connectiondata ?ps (s1\<lparr>connections_mux := True\<rparr>)
      = Done (s2\<lparr>connections_table := Some t, connections_mux := True\<rparr>)"
    using foreach_free[of ?ps "s1\<lparr>connections_mux := True\<rparr>"] blocks(1,2) table_values(2)[OF assms(1,3) t] c1
    by (auto simp: s2_def s1_def intro!: server.equality)
  have t1: "run_bind (force_lock_connections s1) (\<lambda>s3. run_bind (foreach_con free_connectiondata ?ps s3) (\<lambda>s4.
      Done (unlock_connections (s4\<lparr>connections_table := None\<rparr>)))) = Done s2"
    using c1(1,4) free
    by (simp add: force_lock_connections_def locks_calm run_bind_def unlock_connections_def) (simp add: s2_def)
  let ?s' = "s2\<lparr>read_buff := None\<rparr>"
  have c2: "calm s2" "\<not> read_buff_mux s2" "read_buff s2 = Some q"
    using c1(1,3) ok(1) by (simp_all add: s2_def calm_def) (simp add: s1_def)
  have "s2\<lparr>read_buff_mux := False\<rparr> = s2" using c2(2) by (cases s2) simp
  then have u: "unlock_read_buff (s2\<lparr>read_buff_mux := True, read_buff := None\<rparr>) = ?s'"
    by (cases s2) (simp add: unlock_read_buff_def)
  define s0 where "s0 = s\<lparr>read_sig_on := DISABLE_SIGNAL 0 (read_sig_on s), connect_sig_on := DISABLE_SIGNAL 0 (connect_sig_on s),
    timer_armed := timer_armed s \<and> snd (stop_timer 0) = None\<rparr>"
  have s0: "(if listen_socket s0 \<noteq> - 1 then (close_fd (listen_socket s0) s0)\<lparr>listen_socket := - 1\<rparr> else s0) = s1"
    by (intro server.equality) (auto simp: s0_def s1_def close_fd_def DISABLE_SIGNAL_def stop_timer_def)
  have "run_bind (force_lock_read_buff s2) (\<lambda>s6. if free_items (g_queue_items Q q)
      then Done (unlock_read_buff (s6\<lparr>read_buff := None\<rparr>)) else Undef) = Done ?s'"
    using c2(1,2) fi u by (simp add: force_lock_read_buff_def locks_calm run_bind_def)
  then have "stop_server Q H 0 0 0 s = Done ?s'"
    using t1 c1(2) c2(3) unfolding stop_server_def s0_def[symmetric] Let_def s0
    by (simp add: run_bind_def)
  then show ?thesis using blocks(3,4) assms(2) ok(1,2)
    by (intro exI[of _ ?s'] exI[of _ ?ks]) (simp add: stopped_def s2_def s1_def calm_def)
qed


section \<open>Starting\<close>

text \<open>Every call that \<open>start_server\<close> makes before \<open>listen\<close> succeeds.\<close>

definition prepared :: "syscalls \<Rightarrow> bool" where
  "prepared k \<longleftrightarrow> socket_result k \<noteq> - 1 \<and> bind_result k \<noteq> - 1 \<and> fst (setup_rt_signal_io (listen_rt k))
     \<and> timer_created k = 0 \<and> timer_set k = 0"

definition fresh_abstract :: "(fd \<Rightarrow> bytes) \<Rightarrow> abstract" where
  "fresh_abstract i = \<lparr>waiting = [], clients = Map.empty, stream = i\<rparr>"

lemma start_server_outcome:
  assumes "stopped s" and "calm s" and "gqueue_ok Q" and "ghash_ok H" and "start_server Q H True k s = (ok, s')"
  shows "ok \<longleftrightarrow> prepared k \<and> listen_result k \<noteq> - 1"
    and "ok \<Longrightarrow> server_ok H s' \<and> calm s' \<and> abstraction G Q H s' = fresh_abstract (inbox s)
      \<and> listen_socket s' = socket_result k \<and> timer_armed s' \<and> connect_sig_on s'"
    and "\<not> ok \<Longrightarrow> read_buff s' = None \<and> listen_socket s' = - 1
      \<and> closed s' = closed s @ (if socket_result k = - 1 then [] else [socket_result k])
      \<and> connections_table s' = (if prepared k then Some (g_hash_table_new H) else None) \<and> timer_armed s' = prepared k"
proof -
  note defs = start_server_def prepared_def create_timer_def close_fd_def setup_rt_signal_io_def Let_def
  note st = assms(1)[unfolded stopped_def]
  show "ok \<longleftrightarrow> prepared k \<and> listen_result k \<noteq> - 1"
    using assms(5) by (auto simp: defs split: if_splits)
  show "\<not> ok \<Longrightarrow> read_buff s' = None \<and> listen_socket s' = - 1
      \<and> closed s' = closed s @ (if socket_result k = - 1 then [] else [socket_result k])
      \<and> connections_table s' = (if prepared k then Some (g_hash_table_new H) else None) \<and> timer_armed s' = prepared k"
    using assms(5) st by (auto simp: defs split: if_splits)
  show "ok \<Longrightarrow> server_ok H s' \<and> calm s' \<and> abstraction G Q H s' = fresh_abstract (inbox s)
      \<and> listen_socket s' = socket_result k \<and> timer_armed s' \<and> connect_sig_on s'"
    using assms(2,5) st ghash_facts(1)[OF assms(4)] gqueue_facts(1)[OF assms(3)]
    by (auto simp: defs server_ok_def table_lookup_def abstraction_def queued_def fresh_abstract_def calm_def
        split: if_splits)
qed

end
