(* ===== verification/Delivery.thy ===== *)
theory Delivery
  imports ServerLifecycle
begin

text \<open>
  From the stream of a connection to the user: the interfaces of a queue and of a framed code
  of messages, their instances in the library, and the reception of a stream of messages.
\<close>

section \<open>Queues in order\<close>

text \<open>
  A buffer between a producer and a consumer: what is put is appended to the contents, what is
  taken is their head. The states a client may use the buffer in are the \<open>good\<close> ones.
\<close>

locale fifo =
  fixes put :: "'s \<Rightarrow> 'x \<Rightarrow> 's" and get :: "'s \<Rightarrow> 'x option \<times> 's" and contents :: "'s \<Rightarrow> 'x list"
    and good :: "'s \<Rightarrow> bool"
  assumes put_good: "good s \<Longrightarrow> good (put s x)"
    and put_contents: "good s \<Longrightarrow> contents (put s x) = contents s @ [x]"
    and get_good: "good s \<Longrightarrow> good (snd (get s))"
    and get_head: "good s \<Longrightarrow> contents s = x # xs \<Longrightarrow> fst (get s) = Some x \<and> contents (snd (get s)) = xs"
    and get_empty: "good s \<Longrightarrow> contents s = [] \<Longrightarrow> fst (get s) = None \<and> contents (snd (get s)) = []"
begin

fun take_out :: "nat \<Rightarrow> 's \<Rightarrow> 'x list \<times> 's" where
  "take_out 0 s = ([], s)"
| "take_out (Suc n) s = (case get s of (None, s1) \<Rightarrow> ([], s1)
     | (Some x, s1) \<Rightarrow> let (xs, s2) = take_out n s1 in (x # xs, s2))"

lemma put_all: "good s \<Longrightarrow> good (fold (\<lambda>x s. put s x) xs s) \<and> contents (fold (\<lambda>x s. put s x) xs s) = contents s @ xs"
  by (induction xs arbitrary: s) (simp_all add: put_good put_contents)

lemma take_out_contents:
  "good s \<Longrightarrow> fst (take_out n s) = take n (contents s) \<and> contents (snd (take_out n s)) = drop n (contents s)
    \<and> good (snd (take_out n s))"
proof (induction n arbitrary: s)
  case (Suc n)
  obtain r s1 where g: "get s = (r, s1)" by (cases "get s")
  have g1: "good s1" using get_good[OF Suc.prems] g by simp
  show ?case
  proof (cases "contents s")
    case Nil
    then show ?thesis using get_empty[OF Suc.prems Nil] g g1 by simp
  next
    case (Cons x xs)
    then show ?thesis using get_head[OF Suc.prems Cons] g Suc.IH[OF g1] by (cases "take_out n s1") simp
  qed
qed simp

text \<open>First in, first out: what is put into an empty buffer comes out in the same order.\<close>

lemma in_order:
  assumes "good s" and "contents s = []"
  shows "fst (take_out (length xs) (fold (\<lambda>x s. put s x) xs s)) = xs"
  using take_out_contents[of "fold (\<lambda>x s. put s x) xs s" "length xs"] put_all[OF assms(1), of xs] assms(2) by simp

end

text \<open>The queue of the server is one: items are pushed under the lock and taken by \<open>read_message\<close>.\<close>

definition idle_queue :: "('q, 'i) gqueue \<Rightarrow> ('q, 't) server \<Rightarrow> bool" where
  "idle_queue Q s \<longleftrightarrow> gqueue_ok Q \<and> \<not> read_buff_mux s \<and> read_buff s \<noteq> None \<and> calm s"

definition message_taken :: "('q, 'i) gqueue \<Rightarrow> ('q, 't) server \<Rightarrow> 'i option \<times> ('q, 't) server" where
  "message_taken Q s = (case read_message Q s of Done r \<Rightarrow> r | _ \<Rightarrow> (None, s))"

lemma message_taken_idle:
  assumes "idle_queue Q s" and "read_buff s = Some q"
  shows "read_message Q s = Done (fst (g_queue_pop_head Q q), s\<lparr>read_buff := Some (snd (g_queue_pop_head Q q))\<rparr>)"
proof -
  have "s\<lparr>read_buff_mux := False\<rparr> = s" using assms(1) by (cases s) (simp add: idle_queue_def)
  then have "unlock_read_buff (s\<lparr>read_buff_mux := True, read_buff := b\<rparr>) = s\<lparr>read_buff := b\<rparr>" for b
    by (cases s) (simp add: unlock_read_buff_def)
  then show ?thesis using assms
    by (simp add: read_message_def idle_queue_def locks_calm split: prod.splits)
qed

lemma queue_laws:
  assumes g: "idle_queue Q s"
  shows "idle_queue Q (push_item Q x s)" and "queued Q (push_item Q x s) = queued Q s @ [x]"
    and "idle_queue Q (snd (message_taken Q s))"
    and "queued Q s = x # xs \<Longrightarrow> fst (message_taken Q s) = Some x \<and> queued Q (snd (message_taken Q s)) = xs"
    and "queued Q s = [] \<Longrightarrow> fst (message_taken Q s) = None \<and> queued Q (snd (message_taken Q s)) = []"
proof -
  obtain q where q: "read_buff s = Some q" and Q: "gqueue_ok Q" using g by (auto simp: idle_queue_def)
  have t: "message_taken Q s = (fst (g_queue_pop_head Q q), s\<lparr>read_buff := Some (snd (g_queue_pop_head Q q))\<rparr>)"
    by (simp add: message_taken_def message_taken_idle[OF g q])
  show "idle_queue Q (push_item Q x s)" using g q by (simp add: idle_queue_def push_item_def)
  show "queued Q (push_item Q x s) = queued Q s @ [x]" using gqueue_facts(2)[OF Q] q by (simp add: queued_def push_item_def)
  show "idle_queue Q (snd (message_taken Q s))" using g by (simp add: t idle_queue_def)
  show "queued Q s = x # xs \<Longrightarrow> fst (message_taken Q s) = Some x \<and> queued Q (snd (message_taken Q s)) = xs"
    and "queued Q s = [] \<Longrightarrow> fst (message_taken Q s) = None \<and> queued Q (snd (message_taken Q s)) = []"
    using gqueue_facts(3,4)[OF Q, of q] q by (auto simp: t queued_def)
qed

interpretation bq: fifo "\<lambda>s x. push_item Q x s" "message_taken Q" "queued Q" "idle_queue Q"
  by unfold_locales (auto simp: queue_laws)

section \<open>Streams of messages\<close>

text \<open>A code of messages as texts, and a reader that cuts one text off the front of a stream.\<close>

locale message_code =
  fixes encode :: "'m \<Rightarrow> bytes" and decode :: "bytes \<Rightarrow> 'm" and legal_message :: "'m \<Rightarrow> bool"
  assumes decode_encode: "legal_message m \<Longrightarrow> decode (encode m) = m"

locale framed_code = message_code +
  fixes cut :: "bytes \<Rightarrow> bytes \<times> bytes"
  assumes cut_encode: "legal_message m \<Longrightarrow> cut (encode m @ rest) = (encode m, rest)"
begin

fun read_all :: "nat \<Rightarrow> bytes \<Rightarrow> 'a list \<times> bytes" where
  "read_all 0 s = ([], s)"
| "read_all (Suc n) s = (let (t, rest) = cut s; (ms, rest') = read_all n rest in (decode t # ms, rest'))"

lemma read_stream:
  "\<forall>m \<in> set ms. legal_message m \<Longrightarrow> read_all (length ms) (concat (map encode ms) @ rest) = (ms, rest)"
  by (induction ms) (simp_all add: cut_encode decode_encode)

end

text \<open>The messages that the framing understands: legal ones with balanced braces.\<close>

definition sendable :: "notice \<Rightarrow> bool" where
  "sendable n \<longleftrightarrow> notice_ok n \<and> nesting_ok (message_string n)"

lemma sendable_frame: "sendable n \<Longrightarrow> frame (wire_text n)"
  by (simp add: sendable_def wire_text_frame)

lemma wire_text_nul_free:
  assumes "notice_ok n"
  shows "nul_free (wire_text n)"
proof (cases n)
  case (ValveError v s)
  then have v: "\<bar>v\<bar> < 10 ^ 15" using assms by (auto simp: INT_MAX_def INT_MIN_def)
  show ?thesis using assms ValveError show_int_nul_free[of v] nul_free_escape[of s] nul_free_escape[of "''HARD_ERROR_VALVE''"]
    unfolding wire_text_def ValveError wire_tree.simps wire_object_text message_member_text valve_member_text[OF v] by simp
next
  case (OtherError s)
  show ?thesis using assms nul_free_escape[of s] nul_free_escape[of "''HARD_ERROR_OTHER''"]
    unfolding wire_text_def OtherError wire_tree.simps wire_object_text message_member_text by simp
next
  case (SoftwareError s)
  show ?thesis using assms nul_free_escape[of s] nul_free_escape[of "''SOFT_ERROR''"]
    unfolding wire_text_def SoftwareError wire_tree.simps wire_object_text message_member_text by simp
next
  case Alive
  show ?thesis using nul_free_escape[of "''KEEP_ALIVE''"] unfolding wire_text_def Alive wire_tree.simps wire_object_text by simp
qed

lemma heard_wire_text:
  assumes "glib_ok G" and "notice_ok n"
  shows "heard G [] (wire_text n) = n"
proof -
  obtain m where "decode_root G (wire_tree n) fresh_message = Some (True, m)" "view G m = Some n"
    using decode_wire_tree[OF assms(2,1)] by blast
  then show ?thesis using wire_tree_parses[OF assms(2)] wire_text_nul_free[OF assms(2)]
    by (simp add: heard_def decode_message_def)
qed


definition cut_object :: "read_end \<Rightarrow> bytes \<Rightarrow> bytes \<times> bytes" where
  "cut_object e s = snd (read_json_object e s)"

definition glib_sendable :: "'g glib \<Rightarrow> notice \<Rightarrow> bool" where
  "glib_sendable G n \<longleftrightarrow> glib_ok G \<and> sendable n"

interpretation wire: framed_code wire_text "heard G []" "glib_sendable G" "cut_object e"
  by unfold_locales
    (auto simp: glib_sendable_def heard_wire_text sendable_def cut_object_def read_frame wire_text_frame)

text \<open>One signal, when the stream begins with the text of a message.\<close>

lemma receive_message:
  assumes "glib_ok G" and "sendable n" and "clients a k = Some (ad, seen)" and "stream a k = wire_text n @ rest"
  shows "receive G [] now e k a = (if n = Alive then a\<lparr>clients := (clients a)(k \<mapsto> (ad, now)), stream := (stream a)(k := rest)\<rparr>
    else a\<lparr>waiting := waiting a @ [(Some n, ad, now)], stream := (stream a)(k := rest)\<rparr>)"
proof -
  have c: "cut_object e (wire_text n @ rest) = (wire_text n, rest)" and h: "heard G [] (wire_text n) = n"
    using wire.cut_encode[of G n e rest] wire.decode_encode[of G n] assms(1,2) by (simp_all add: glib_sendable_def)
  have "wire_text n \<noteq> []" using sendable_frame[OF assms(2)] by (auto simp: frame_def)
  moreover have "read_json_object e (wire_text n @ rest) = (SUCCESS, wire_text n, rest)"
    by (rule read_frame[OF sendable_frame[OF assms(2)]])
  ultimately show ?thesis using assms(3,4) h by (simp add: receive_def)
qed

definition reports :: "32 word \<Rightarrow> int \<Rightarrow> notice list \<Rightarrow> report list" where
  "reports ad now ns = map (\<lambda>n. (Some n, ad, now)) (filter (\<lambda>n. n \<noteq> Alive) ns)"

lemma receive_stream:
  assumes "glib_ok G" and "\<forall>n \<in> set ns. sendable n" and "clients a k = Some (ad, seen)"
    and "stream a k = concat (map wire_text ns) @ rest"
  shows "waiting ((receive G [] now e k ^^ length ns) a) = waiting a @ reports ad now ns
    \<and> stream ((receive G [] now e k ^^ length ns) a) k = rest
    \<and> clients ((receive G [] now e k ^^ length ns) a) k = Some (ad, if Alive \<in> set ns then now else seen)
    \<and> (\<forall>j. j \<noteq> k \<longrightarrow> clients ((receive G [] now e k ^^ length ns) a) j = clients a j)"
  using assms(2-4)
proof (induction ns arbitrary: a seen)
  case (Cons n ns)
  have s: "stream a k = wire_text n @ concat (map wire_text ns) @ rest" using Cons.prems(3) by simp
  note r = receive_message[OF assms(1) _ Cons.prems(2) s, of now e]
  let ?b = "receive G [] now e k a"
  have b: "stream ?b k = concat (map wire_text ns) @ rest"
    "clients ?b k = Some (ad, if n = Alive then now else seen)" "waiting ?b = waiting a @ reports ad now [n]"
    "\<forall>j. j \<noteq> k \<longrightarrow> clients ?b j = clients a j"
    using Cons.prems(1,2) r by (auto simp: reports_def)
  show ?case using Cons.IH[OF _ b(2,1)] Cons.prems(1) b(3,4)
    by (simp add: funpow_Suc_right reports_def del: funpow.simps)
qed (simp add: reports_def)

end
