(* ===== verification/ServerRuns.thy ===== *)
theory ServerRuns
  imports Delivery
begin

text \<open>
  Sequences of signals on one connection, and runs of the whole server as a step relation with
  its invariant.
\<close>

section \<open>A sequence of signals\<close>

fun signals :: "'g glib \<Rightarrow> ('q, 'g BufferItem) gqueue \<Rightarrow> 't ghash \<Rightarrow> fd \<Rightarrow> nat \<Rightarrow> ('q, 't) server \<Rightarrow> ('q, 't) server run" where
  "signals G Q H k 0 s = Done s"
| "signals G Q H k (Suc n) s = run_bind (io_handler G Q H k s) (signals G Q H k n)"

lemma signals_refine:
  assumes "gqueue_ok Q" and "ghash_ok H" and "glib_ok G" and "server_ok H s" and "calm s"
  shows "\<exists>s'. signals G Q H k n s = Done s' \<and> server_ok H s' \<and> calm s'
    \<and> abstraction G Q H s' = (receive G (json_mem s) (clock s) (ending s k) k ^^ n) (abstraction G Q H s)"
  using assms(4,5)
proof (induction n arbitrary: s)
  case (Suc n)
  from io_handler_refines[OF Suc.prems assms(1-3), of k] obtain s1 where s1: "io_handler G Q H k s = Done s1"
    "server_ok H s1" "calm s1" "abstraction G Q H s1 = receive G (json_mem s) (clock s) (ending s k) k (abstraction G Q H s)"
    "clock s1 = clock s" "json_mem s1 = json_mem s" "ending s1 = ending s" by blast
  then show ?case using Suc.IH[OF s1(2,3)]
    by (simp add: run_bind_def funpow_Suc_right del: funpow.simps)
qed simp

text \<open>What GLib promises, and a stream of messages received.\<close>

definition libraries_ok :: "'g glib \<Rightarrow> ('q, 'g BufferItem) gqueue \<Rightarrow> 't ghash \<Rightarrow> bool" where
  "libraries_ok G Q H \<longleftrightarrow> glib_ok G \<and> gqueue_ok Q \<and> ghash_ok H"

lemma stream_received:
  assumes "libraries_ok G Q H" and "server_ok H s" and "calm s" and "json_mem s = []"
    and "\<forall>n \<in> set ns. sendable n" and "clients (abstraction G Q H s) k = Some (ad, seen)"
    and "inbox s k = concat (map wire_text ns) @ rest"
  shows "\<exists>s'. signals G Q H k (length ns) s = Done s' \<and> server_ok H s'
    \<and> waiting (abstraction G Q H s') = waiting (abstraction G Q H s) @ reports ad (clock s) ns
    \<and> inbox s' k = rest"
proof -
  note l = assms(1)[unfolded libraries_ok_def]
  obtain s' where s': "signals G Q H k (length ns) s = Done s'" "server_ok H s'"
    "abstraction G Q H s' = (receive G [] (clock s) (ending s k) k ^^ length ns) (abstraction G Q H s)"
    using signals_refine[of Q H G s k "length ns"] l assms(2-4) by auto
  have "stream (abstraction G Q H s) k = concat (map wire_text ns) @ rest" using assms(7) by (simp add: abstraction_def)
  from receive_stream[OF _ assms(5,6) this, where G = G and now = "clock s" and e = "ending s k"] l s'
  have "waiting (abstraction G Q H s') = waiting (abstraction G Q H s) @ reports ad (clock s) ns"
    "stream (abstraction G Q H s') k = rest" by simp_all
  then show ?thesis using s'(1,2) by (auto simp: abstraction_def)
qed

text \<open>A part of a message at the front of the stream is no object.\<close>

lemma stays_take: "stays n s \<Longrightarrow> stays n (take j s)"
  using stays_append[of n "take j s" "drop j s"] by simp

lemma read_part_of_frame:
  assumes "frame s" and "0 < j" and "j < length s"
  shows "read_json_object e (take j s) = (ERROR, [], [])"
proof -
  obtain body where b: "s = CHR ''{'' # body @ ''}''" "stays 1 body" using assms(1) by (auto simp: frame_def)
  obtain i where i: "j = Suc i" "i \<le> length body" using assms(2,3) b(1) by (cases j) auto
  have "take j s = CHR ''{'' # take i body" using b(1) i by simp
  moreover have "read_rest 1 ''{'' (take i body) = (ERROR, [], [])"
    using read_rest_stays[OF stays_take[OF b(2)], of "''{''" i "[]"] by simp
  ultimately show ?thesis by simp
qed

lemma part_of_message_drops:
  assumes "libraries_ok G Q H" and "server_ok H s" and "calm s" and "sendable n" and "0 < j" and "j < length (wire_text n)"
    and "inbox s k = take j (wire_text n)" and "clients (abstraction G Q H s) k \<noteq> None"
  shows "\<exists>s'. io_handler G Q H k s = Done s' \<and> inbox s' k = []
    \<and> clients (abstraction G Q H s') = (clients (abstraction G Q H s))(k := None)
    \<and> waiting (abstraction G Q H s') = waiting (abstraction G Q H s)"
proof -
  obtain s' where s': "io_handler G Q H k s = Done s'"
    "abstraction G Q H s' = receive G (json_mem s) (clock s) (ending s k) k (abstraction G Q H s)"
    using io_handler_refines[OF assms(2,3), of Q G k] assms(1) unfolding libraries_ok_def by blast
  have "take j (wire_text n) \<noteq> []" using assms(5,6) by auto
  then have "abstraction G Q H s' = (abstraction G Q H s)\<lparr>clients := (clients (abstraction G Q H s))(k := None), stream := (inbox s)(k := [])\<rparr>"
    using s'(2) assms(7,8) read_part_of_frame[OF sendable_frame[OF assms(4)] assms(5,6)]
    by (auto simp: receive_def abstraction_fields)
  then have "clients (abstraction G Q H s') = (clients (abstraction G Q H s))(k := None)"
    "waiting (abstraction G Q H s') = waiting (abstraction G Q H s)" "stream (abstraction G Q H s') k = []" by simp_all
  then show ?thesis using s'(1) by (auto simp: abstraction_fields)
qed

section \<open>Runs of the server\<close>

text \<open>
  What happens to a server between \<open>start_server\<close> and \<open>stop_server\<close>: bytes arrive on a
  descriptor, time passes, a signal tells that a descriptor is readable, a client connects, the
  timer expires, the user reads. Every signal comes with what \<open>malloc\<close> answers within its parse
  and with what \<open>read\<close> answers behind the bytes that have arrived.
\<close>

datatype event = Arrives fd bytes | Passes int | Readable fd mem read_end | Connects fd "32 word" | Expires | Reads

text \<open>
  The steps of the program, on the state of the server and the items that the user has read so
  far: each event is handled to its end. The kernel never gives out a descriptor that is still
  in the table.
\<close>

inductive step :: "'g glib \<Rightarrow> ('q, 'g BufferItem) gqueue \<Rightarrow> 't ghash \<Rightarrow> event
    \<Rightarrow> ('q, 't) server \<times> 'g BufferItem list \<Rightarrow> ('q, 't) server \<times> 'g BufferItem list \<Rightarrow> bool"
  for G Q H where
  arrives: "step G Q H (Arrives k bs) (s, out) (s\<lparr>inbox := (inbox s)(k := inbox s k @ bs)\<rparr>, out)"
| passes: "now \<noteq> - 1 \<Longrightarrow> clock s \<le> now \<Longrightarrow> step G Q H (Passes now) (s, out) (s\<lparr>clock := now\<rparr>, out)"
| readable: "io_handler G Q H k (s\<lparr>json_mem := mm, ending := (ending s)(k := e)\<rparr>) = Done s'
    \<Longrightarrow> step G Q H (Readable k mm e) (s, out) (s', out)"
| connects: "accepts a k ad \<Longrightarrow> table_lookup H s k = None \<Longrightarrow> connect_handler H a s = Done s'
    \<Longrightarrow> step G Q H (Connects k ad) (s, out) (s', out)"
| expires: "iter_keep_alives G Q H s = Done s' \<Longrightarrow> step G Q H Expires (s, out) (s', out)"
| reads: "read_message Q s = Done (r, s') \<Longrightarrow> step G Q H Reads (s, out) (s', out @ (case r of None \<Rightarrow> [] | Some i \<Rightarrow> [i]))"

inductive run_of :: "'g glib \<Rightarrow> ('q, 'g BufferItem) gqueue \<Rightarrow> 't ghash \<Rightarrow> event list
    \<Rightarrow> ('q, 't) server \<times> 'g BufferItem list \<Rightarrow> ('q, 't) server \<times> 'g BufferItem list \<Rightarrow> bool"
  for G Q H where
  stop: "run_of G Q H [] c c"
| event: "step G Q H ev c d \<Longrightarrow> run_of G Q H evs d c' \<Longrightarrow> run_of G Q H (ev # evs) c c'"

section \<open>What a run has to do\<close>

text \<open>What the user sees: the abstract server, the time, and the reports read so far.\<close>

record user_view =
  serving_state :: abstract
  time_now :: int
  taken :: "report list"

text \<open>The reports that one signal gives rise to: at most one, and which.\<close>

definition new_reports :: "'g glib \<Rightarrow> mem \<Rightarrow> int \<Rightarrow> read_end \<Rightarrow> fd \<Rightarrow> abstract \<Rightarrow> report list" where
  "new_reports G mm now e k a = (case clients a k of None \<Rightarrow> [] | Some (ad, seen) \<Rightarrow>
     if stream a k = [] then [(Some (SoftwareError ''Connection closed''), ad, now)]
     else case read_json_object e (stream a k) of (status, obj, rest) \<Rightarrow>
       if status = SUCCESS \<and> heard G mm obj \<noteq> Alive then [(Some (heard G mm obj), ad, now)] else [])"

lemma receive_waiting: "waiting (receive G mm now e k a) = waiting a @ new_reports G mm now e k a"
  by (auto simp: receive_def new_reports_def Let_def split: option.splits prod.splits)

text \<open>
  \<open>expected G ev u ms u'\<close>: the event \<open>ev\<close> takes what the user sees from \<open>u\<close> to \<open>u'\<close> and gives rise
  to exactly the reports \<open>ms\<close>. Only a signal and the timer give rise to reports; the timer
  reports each silent client once, in any order; a read moves the first report that waits.
\<close>

inductive expected :: "'g glib \<Rightarrow> event \<Rightarrow> user_view \<Rightarrow> report list \<Rightarrow> user_view \<Rightarrow> bool"
  for G where
  "expected G (Arrives k bs) \<lparr>serving_state = a, time_now = now, taken = out\<rparr> []
     \<lparr>serving_state = a\<lparr>stream := (stream a)(k := stream a k @ bs)\<rparr>, time_now = now, taken = out\<rparr>"
| "now \<le> later \<Longrightarrow> expected G (Passes later) \<lparr>serving_state = a, time_now = now, taken = out\<rparr> []
     \<lparr>serving_state = a, time_now = later, taken = out\<rparr>"
| "expected G (Readable k mm e) \<lparr>serving_state = a, time_now = now, taken = out\<rparr> (new_reports G mm now e k a)
     \<lparr>serving_state = receive G mm now e k a, time_now = now, taken = out\<rparr>"
| "clients a k = None \<Longrightarrow> expected G (Connects k ad) \<lparr>serving_state = a, time_now = now, taken = out\<rparr> []
     \<lparr>serving_state = a\<lparr>clients := (clients a)(k \<mapsto> (ad, now))\<rparr>, time_now = now, taken = out\<rparr>"
| "distinct ks \<Longrightarrow> set ks = stale a now
     \<Longrightarrow> expected G Expires \<lparr>serving_state = a, time_now = now, taken = out\<rparr> (map (timeout a now) ks)
     \<lparr>serving_state = a\<lparr>waiting := waiting a @ map (timeout a now) ks\<rparr>, time_now = now, taken = out\<rparr>"
| "expected G Reads \<lparr>serving_state = a, time_now = now, taken = out\<rparr> []
     \<lparr>serving_state = a\<lparr>waiting := drop 1 (waiting a)\<rparr>, time_now = now, taken = out @ take 1 (waiting a)\<rparr>"

inductive_simps expected_simps:
  "expected G (Arrives k bs) u ms u'" "expected G (Passes now) u ms u'" "expected G (Readable k mm e) u ms u'"
  "expected G (Connects k ad) u ms u'" "expected G Expires u ms u'" "expected G Reads u ms u'"

inductive expected_run :: "'g glib \<Rightarrow> event list \<Rightarrow> user_view \<Rightarrow> report list \<Rightarrow> user_view \<Rightarrow> bool"
  for G where
  expected_stop: "expected_run G [] u [] u"
| expected_event: "expected G ev u ms v \<Longrightarrow> expected_run G evs v ns u' \<Longrightarrow> expected_run G (ev # evs) u (ms @ ns) u'"

inductive_simps expected_run_simps: "expected_run G [] u ms u'" "expected_run G (ev # evs) u ms u'"

section \<open>The invariant of a run\<close>

definition sound :: "'g glib \<Rightarrow> ('q, 'g BufferItem) gqueue \<Rightarrow> 't ghash \<Rightarrow> ('q, 't) server \<Rightarrow> bool" where
  "sound G Q H s \<longleftrightarrow> server_ok H s \<and> calm s \<and> clock s \<noteq> - 1 \<and> legal (abstraction G Q H s)"

text \<open>What the user sees of a state, and everything that has ever been reported: what the user has
  read, and what is waiting.\<close>

definition seen_by_user :: "'g glib \<Rightarrow> ('q, 'g BufferItem) gqueue \<Rightarrow> 't ghash
    \<Rightarrow> ('q, 't) server \<times> 'g BufferItem list \<Rightarrow> user_view" where
  "seen_by_user G Q H c = \<lparr>serving_state = abstraction G Q H (fst c), time_now = clock (fst c),
     taken = map (report_of G) (snd c)\<rparr>"

definition history :: "'g glib \<Rightarrow> ('q, 'g BufferItem) gqueue \<Rightarrow> ('q, 't) server \<times> 'g BufferItem list \<Rightarrow> report list" where
  "history G Q c = map (report_of G) (snd c @ queued Q (fst c))"

lemma waiting_queued: "waiting (abstraction G Q H s) = map (report_of G) (queued Q s)"
  by (simp add: abstraction_def)

lemma history_seen: "history G Q c = taken (seen_by_user G Q H c) @ waiting (serving_state (seen_by_user G Q H c))"
  by (simp add: history_def seen_by_user_def waiting_queued)

text \<open>In what is expected the reports of an event are what it adds to the history, at its end.\<close>

lemma expected_history:
  "expected G ev u ms u' \<Longrightarrow> taken u' @ waiting (serving_state u') = (taken u @ waiting (serving_state u)) @ ms"
  by (induction rule: expected.induct) (simp_all add: receive_waiting)

lemma expected_run_history:
  "expected_run G evs u ms u' \<Longrightarrow> taken u' @ waiting (serving_state u') = (taken u @ waiting (serving_state u)) @ ms"
  by (induction rule: expected_run.induct) (auto dest: expected_history)

text \<open>Every report is complete.\<close>

lemma expected_legal: "expected G ev u ms u' \<Longrightarrow> \<forall>r \<in> set ms. fst r \<noteq> None"
  by (induction rule: expected.induct)
    (auto simp: new_reports_def timeout_def split: option.splits prod.splits if_splits)

section \<open>Every step does what it has to do\<close>

lemma environment_fields [simp]:
  "server_ok H (s\<lparr>inbox := i\<rparr>) = server_ok H s" "abstraction G Q H (s\<lparr>inbox := i\<rparr>) = (abstraction G Q H s)\<lparr>stream := i\<rparr>"
  "server_ok H (s\<lparr>clock := now\<rparr>) = server_ok H s" "abstraction G Q H (s\<lparr>clock := now\<rparr>) = abstraction G Q H s"
  "server_ok H (s\<lparr>json_mem := mm, ending := en\<rparr>) = server_ok H s"
  "abstraction G Q H (s\<lparr>json_mem := mm, ending := en\<rparr>) = abstraction G Q H s"
  "calm (s\<lparr>clock := now\<rparr>) = calm s" "calm (s\<lparr>json_mem := mm, ending := en\<rparr>) = calm s"
  by (simp_all add: server_ok_def abstraction_def table_lookup_def queued_def calm_def cong: option.case_cong)

lemma step_expected:
  assumes "libraries_ok G Q H" and "step G Q H ev c c'" and "sound G Q H (fst c)"
  shows "server_ok H (fst c') \<and> calm (fst c') \<and> clock (fst c') \<noteq> - 1
    \<and> (\<exists>ms. expected G ev (seen_by_user G Q H c) ms (seen_by_user G Q H c'))"
  using assms(2,3)
proof (cases rule: step.cases)
  case (arrives k bs s out)
  then show ?thesis using assms(3)
    by (simp add: sound_def seen_by_user_def expected_simps abstraction_fields)
next
  case (passes now s out)
  then show ?thesis using assms(3) by (auto simp: sound_def seen_by_user_def expected_simps)
next
  case (readable k s e mm s' out)
  note l = assms(1)[unfolded libraries_ok_def] and s = assms(3)[unfolded readable sound_def, simplified]
  have "server_ok H s'" "calm s'" "clock s' = clock s" "abstraction G Q H s' = receive G mm (clock s) e k (abstraction G Q H s)"
    using io_handler_refines[of H "s\<lparr>json_mem := mm, ending := (ending s)(k := e)\<rparr>" Q G k] l s readable by auto
  then show ?thesis using readable s by (simp add: seen_by_user_def expected_simps)
next
  case (connects a k ad s s' out)
  note l = assms(1)[unfolded libraries_ok_def] and s = assms(3)[unfolded connects sound_def, simplified]
  have "server_ok H s'" "calm s'" "clock s' = clock s"
    "abstraction G Q H s' = (abstraction G Q H s)\<lparr>clients := (clients (abstraction G Q H s))(k \<mapsto> (ad, clock s))\<rparr>"
    using connect_handler_refines[of H s a k ad G Q] l s connects by auto
  then show ?thesis using connects s by (simp add: seen_by_user_def expected_simps abstraction_client(2))
next
  case (expires s s' out)
  note l = assms(1)[unfolded libraries_ok_def] and s = assms(3)[unfolded expires sound_def, simplified]
  obtain ks where "distinct ks" "set ks = stale (abstraction G Q H s) (clock s)"
    "abstraction G Q H s' = (abstraction G Q H s)\<lparr>waiting := waiting (abstraction G Q H s)
        @ map (timeout (abstraction G Q H s) (clock s)) ks\<rparr>" "server_ok H s'" "calm s'" "clock s' = clock s"
    using iter_keep_alives_reports[of H s Q G] l s expires by auto
  then show ?thesis using expires s by (auto simp: seen_by_user_def expected_simps)
next
  case (reads s r s' out)
  note l = assms(1)[unfolded libraries_ok_def] and s = assms(3)[unfolded reads sound_def, simplified]
  have r: "server_ok H s'" "calm s'" "clock s' = clock s" "case queued Q s of [] \<Rightarrow> r = None \<and> queued Q s' = [] | i # is \<Rightarrow> r = Some i \<and> queued Q s' = is"
    "abstraction G Q H s' = (abstraction G Q H s)\<lparr>waiting := tl (waiting (abstraction G Q H s))\<rparr>"
    using read_message_refines[of H s Q G] l s reads by auto
  have "map (report_of G) (case r of None \<Rightarrow> [] | Some i \<Rightarrow> [i]) = take 1 (waiting (abstraction G Q H s))"
    using r(4) by (auto simp: waiting_queued split: list.splits)
  then show ?thesis using r reads s by (simp add: seen_by_user_def expected_simps drop_Suc)
qed

lemma step_sound:
  assumes "libraries_ok G Q H" and "step G Q H ev c c'" and "sound G Q H (fst c)"
  shows "sound G Q H (fst c') \<and> (\<exists>ms. expected G ev (seen_by_user G Q H c) ms (seen_by_user G Q H c'))"
proof -
  obtain ms where ms: "expected G ev (seen_by_user G Q H c) ms (seen_by_user G Q H c')"
    and ok: "server_ok H (fst c')" "calm (fst c')" "clock (fst c') \<noteq> - 1"
    using step_expected[OF assms] by blast
  have "set (waiting (serving_state (seen_by_user G Q H c'))) \<subseteq> set (waiting (serving_state (seen_by_user G Q H c))) \<union> set ms"
    using ms by (cases rule: expected.cases) (auto simp: receive_waiting dest: in_set_dropD)
  then have "legal (abstraction G Q H (fst c'))"
    using expected_legal[OF ms] assms(3) by (auto simp: legal_def sound_def seen_by_user_def)
  then show ?thesis using ok ms by (auto simp: sound_def)
qed

lemma run_expected:
  assumes "libraries_ok G Q H"
  shows "run_of G Q H evs c c' \<Longrightarrow> sound G Q H (fst c) \<Longrightarrow>
    sound G Q H (fst c') \<and> (\<exists>ms. expected_run G evs (seen_by_user G Q H c) ms (seen_by_user G Q H c'))"
proof (induction rule: run_of.induct)
  case (stop c)
  then show ?case by (auto intro: expected_stop)
next
  case (event ev c d evs c')
  then show ?case using step_sound[OF assms event.hyps(1)] by (blast intro: expected_event)
qed

text \<open>Every event can happen in a sound state, bytes, signals, expirations and reads at any time.\<close>

fun possible :: "event \<Rightarrow> user_view \<Rightarrow> bool" where
  "possible (Passes now) u = (now \<noteq> - 1 \<and> time_now u \<le> now)"
| "possible (Connects k ad) u = (k \<noteq> - 1 \<and> clients (serving_state u) k = None)"
| "possible _ u = True"

lemma step_possible:
  fixes c :: "('q, 't) server \<times> 'g BufferItem list"
  assumes "libraries_ok G Q H" and "sound G Q H (fst c)" and "possible ev (seen_by_user G Q H c)"
  shows "\<exists>c'. step G Q H ev c c'"
proof -
  obtain s out where c: "c = (s, out)" by (cases c)
  note l = assms(1)[unfolded libraries_ok_def] and s = assms(2)[unfolded c sound_def, simplified]
  show ?thesis
  proof (cases ev)
    case (Arrives k bs)
    then show ?thesis unfolding c by (blast intro: step.arrives)
  next
    case (Passes now)
    then show ?thesis using assms(3) unfolding c by (auto simp: seen_by_user_def intro: step.passes)
  next
    case (Readable k mm e)
    then show ?thesis using io_handler_refines[of H "s\<lparr>json_mem := mm, ending := (ending s)(k := e)\<rparr>" Q G k] l s
      unfolding c by (auto intro: step.readable)
  next
    case (Connects k ad)
    let ?r = "\<lparr>sigaction_result = 0, setown_result = 0, setsig_result = 0, setfl_result = 0\<rparr>"
    have a: "accepts \<lparr>accepted = k, peer1 = Some ad, peer2 = Some ad, mutex_init = 0, garbage = 0, read_rt = ?r\<rparr> k ad"
      using assms(3) Connects by (simp add: accepts_def)
    have t: "table_lookup H s k = None"
    proof (rule ccontr)
      assume "table_lookup H s k \<noteq> None"
      then obtain p where p: "table_lookup H s k = Some p" by blast
      then obtain d where "condatas s p = Some d" using server_okD(5)[of H s k p] s by blast
      then show False using abstraction_client(1)[of s p d H k G Q] p assms(3) Connects by (simp add: seen_by_user_def c)
    qed
    show ?thesis using connect_handler_refines[OF _ _ _ a _ t, of G Q] l s step.connects[OF a t]
      unfolding c Connects by blast
  next
    case Expires
    then show ?thesis using iter_keep_alives_reports[of H s Q G] l s unfolding c by (blast intro: step.expires)
  next
    case Reads
    then show ?thesis using read_message_refines[of H s Q G] l s unfolding c by (blast intro: step.reads)
  qed
qed

fun at_any_time :: "event \<Rightarrow> bool" where
  "at_any_time (Passes now) = False"
| "at_any_time (Connects k ad) = False"
| "at_any_time _ = True"

lemma at_any_time: "at_any_time ev \<Longrightarrow> possible ev u"
  by (cases ev) auto

lemma run_possible:
  fixes c :: "('q, 't) server \<times> 'g BufferItem list"
  assumes "libraries_ok G Q H"
  shows "sound G Q H (fst c) \<Longrightarrow> \<forall>ev \<in> set evs. at_any_time ev \<Longrightarrow> \<exists>c'. run_of G Q H evs c c'"
proof (induction evs arbitrary: c)
  case Nil
  then show ?case by (blast intro: run_of.stop)
next
  case (Cons ev evs)
  obtain d where d: "step G Q H ev c d"
    using step_possible[OF assms Cons.prems(1) at_any_time] Cons.prems(2) by (meson list.set_intros(1))
  then have "sound G Q H (fst d)" using step_sound[OF assms _ Cons.prems(1)] by blast
  then show ?case using Cons.IH[of d] Cons.prems(2) d by (meson list.set_intros(2) run_of.event)
qed

end
