(* ===== verification/ServerLaws.thy ===== *)
theory ServerLaws
  imports ServerRuns "HOL-Library.AList"
begin

text \<open>
  The properties of the server (\<open>src/server.c\<close>), with concrete libraries and a concrete server
  to apply them to.
\<close>

section \<open>Concrete libraries and servers\<close>

text \<open>A queue as a list, a table as an association list, and a server with one connection.\<close>

definition list_queue :: "('i list, 'i) gqueue" where
  "list_queue = \<lparr>g_queue_new = [], g_queue_push_tail = (\<lambda>q x. q @ [x]),
     g_queue_pop_head = (\<lambda>q. case q of [] \<Rightarrow> (None, []) | x # xs \<Rightarrow> (Some x, xs)), g_queue_items = (\<lambda>q. q)\<rparr>"

definition alist_table :: "(fd \<times> ptr) list ghash" where
  "alist_table = \<lparr>g_hash_table_new = [],
     g_hash_table_insert = (\<lambda>t k p. (map_of t k = None, AList.update k p t)),
     g_hash_table_lookup = map_of,
     g_hash_table_remove = (\<lambda>t k. (map_of t k \<noteq> None, AList.delete k t)),
     ht_values = (\<lambda>t. map snd (AList.clearjunk t))\<rparr>"

lemma list_queue_ok: "gqueue_ok list_queue"
  by (auto simp: gqueue_ok_def list_queue_def split: list.splits)

lemma alist_values:
  "set (map snd (AList.clearjunk t)) = ran (map_of t)"
  "inj_on (map_of t) (dom (map_of t)) \<Longrightarrow> distinct (map snd (AList.clearjunk t))"
proof -
  have d: "distinct (map fst (AList.clearjunk t))" by (rule distinct_clearjunk)
  show "set (map snd (AList.clearjunk t)) = ran (map_of t)"
    using ran_distinct[OF d] by (simp add: map_of_clearjunk)
  assume i: "inj_on (map_of t) (dom (map_of t))"
  have "inj_on snd (set (AList.clearjunk t))"
  proof (rule inj_onI)
    fix x y assume x: "x \<in> set (AList.clearjunk t)" and y: "y \<in> set (AList.clearjunk t)" and e: "snd x = snd y"
    have "map_of t (fst x) = Some (snd x)" "map_of t (fst y) = Some (snd y)"
      using map_of_is_SomeI[OF d, of "fst x" "snd x"] map_of_is_SomeI[OF d, of "fst y" "snd y"] x y
      by (simp_all add: map_of_clearjunk)
    then have "fst x = fst y" using i e by (auto simp: inj_on_def dom_def)
    then show "x = y" using e by (simp add: prod_eq_iff)
  qed
  then show "distinct (map snd (AList.clearjunk t))" using d by (simp add: distinct_map)
qed

lemma alist_table_ok: "ghash_ok alist_table"
  by (simp add: ghash_ok_def alist_table_def update_conv' delete_conv' alist_values flip: set_map)

lemma test_libraries: "libraries_ok test_glib list_queue alist_table"
  by (simp add: libraries_ok_def test_glib_ok list_queue_ok alist_table_ok)

definition test_connection :: ConnectionData where
  "test_connection = \<lparr>cfd = 4, mutex = False, addr = 1, last_keep_alive = 0, destroyed = False\<rparr>"

definition test_server :: "bytes \<Rightarrow> (bytes BufferItem list, (fd \<times> ptr) list) server" where
  "test_server i = \<lparr>read_buff = Some [], read_buff_mux = False, connections_mux = False,
     connections_table = Some [(4, 0)], listen_socket = 3, timer_armed = True, connect_sig_on = True,
     read_sig_on = True, signalling = [3, 4], condatas = [0 \<mapsto> test_connection], next_ptr = 1, closed = [],
     misuses = 0, inbox = (\<lambda>k. if k = 4 then i else []), ending = (\<lambda>_. Failed EAGAIN), clock = 50,
     mallocs = [], locks = [], json_mem = []\<rparr>"

lemma test_server_ok: "server_ok alist_table (test_server i)" "calm (test_server i)"
  by (auto simp: server_ok_def test_server_def table_lookup_def alist_table_def test_connection_def calm_def)

lemma test_abstraction:
  "abstraction test_glib list_queue alist_table (test_server i)
    = \<lparr>waiting = [], clients = [4 \<mapsto> (1, 0)], stream = (\<lambda>k. if k = 4 then i else [])\<rparr>"
  by (auto simp: abstraction_def test_server_def table_lookup_def alist_table_def queued_def list_queue_def
      test_connection_def fun_eq_iff)

lemma test_sound: "sound test_glib list_queue alist_table (test_server i)"
  using test_server_ok[of i] by (simp add: sound_def test_abstraction legal_def) (simp add: test_server_def)


section \<open>Properties of the handlers\<close>

text \<open>C2: The handler of readable descriptors implements its specification on every branch (unknown
  descriptor, closed connection, message, keep-alive, undecodable text, broken frame): in an
  idle state it returns, without blocking on a mutex and without touching freed memory, ends
  in an idle state, and changes the waiting reports, the clients and the streams as
  \<open>receive\<close> says.\<close>

theorem io_handler_correct:
  assumes "libraries_ok G Q H" and "server_ok H s" and "calm s"
  shows "\<exists>s'. io_handler G Q H k s = Done s' \<and> server_ok H s' \<and> calm s'
    \<and> abstraction G Q H s' = receive G (json_mem s) (clock s) (ending s k) k (abstraction G Q H s)"
  using io_handler_refines[OF assms(2,3), of Q G k] assms(1) by (auto simp: libraries_ok_def)

theorem io_handler_correct_witness:
  "\<exists>s'. io_handler test_glib list_queue alist_table 4 (test_server []) = Done s' \<and> server_ok alist_table s' \<and> calm s'
    \<and> abstraction test_glib list_queue alist_table s'
      = \<lparr>waiting = [(Some (SoftwareError ''Connection closed''), 1, 50)], clients = Map.empty, stream = (\<lambda>k. [])\<rparr>"
  using io_handler_correct[OF test_libraries test_server_ok, of 4 "[]"]
  by (simp add: test_abstraction receive_def) (simp add: test_server_def fun_upd_def)

text \<open>C3: A stream of messages reaches the user whole and in order: after one signal per message
  every message but the keep-alives waits to be read, with its sender and the time, in the
  order in which the messages were sent, and only the bytes behind them are left.\<close>

theorem stream_delivered:
  assumes "libraries_ok G Q H" and "server_ok H s" and "calm s" and "json_mem s = []"
    and "\<forall>n \<in> set ns. sendable n" and "clients (abstraction G Q H s) k = Some (ad, seen)"
    and "inbox s k = concat (map wire_text ns) @ rest"
  shows "\<exists>s'. signals G Q H k (length ns) s = Done s' \<and> server_ok H s'
    \<and> waiting (abstraction G Q H s') = waiting (abstraction G Q H s) @ reports ad (clock s) ns
    \<and> inbox s' k = rest"
  by (rule stream_received[OF assms])

theorem stream_delivered_witness:
  "\<exists>s'. signals test_glib list_queue alist_table 4 (length [OtherError ''{b}'', Alive, ValveError 7 ''hot''])
      (test_server (concat (map wire_text [OtherError ''{b}'', Alive, ValveError 7 ''hot'']) @ ''{'')) = Done s'
    \<and> server_ok alist_table s'
    \<and> waiting (abstraction test_glib list_queue alist_table s')
      = [] @ [(Some (OtherError ''{b}''), 1, 50), (Some (ValveError 7 ''hot''), 1, 50)]
    \<and> inbox s' 4 = ''{''"
proof -
  let ?ns = "[OtherError ''{b}'', Alive, ValveError 7 ''hot'']"
  let ?s = "test_server (concat (map wire_text ?ns) @ ''{'')"
  have n: "\<forall>n \<in> set ?ns. sendable n" by (simp add: sendable_def nesting_ok_def brace_def INT_MIN_def INT_MAX_def)
  have s: "json_mem ?s = []" "inbox ?s 4 = concat (map wire_text ?ns) @ ''{''" "clock ?s = 50" by (simp_all add: test_server_def)
  have c: "clients (abstraction test_glib list_queue alist_table ?s) 4 = Some (1, 0)" by (simp add: test_abstraction)
  show ?thesis using stream_delivered[OF test_libraries test_server_ok s(1) n c s(2)] s(3)
    unfolding test_abstraction by (simp add: reports_def)
qed

text \<open>C4: No report is lost, repeated, reordered or made up: in every run of the server (bytes
  arriving, time passing, signals, new connections, timer expirations, reads, in any order and
  whatever the allocator answers to the parser) each event changes what the user sees as it has
  to and gives rise to exactly the reports it has to: a signal to the decoded message or the
  notice that its stream calls for, the timer to one time-out for each silent client, nothing
  else to any. These reports in the order of the events, and no others, are what the history
  (the reports that were read, then those that wait) grows by. And the state stays sound: no
  mutex is left held, the table and the connection blocks match, every waiting message is complete.\<close>

theorem runs_keep_reports:
  assumes "libraries_ok G Q H" and "run_of G Q H evs c c'" and "sound G Q H (fst c)"
  shows "sound G Q H (fst c')
    \<and> (\<exists>ms. expected_run G evs (seen_by_user G Q H c) ms (seen_by_user G Q H c')
        \<and> history G Q c' = history G Q c @ ms)"
  using run_expected[OF assms] expected_run_history by (metis history_seen)

text \<open>A client that has been silent for 50 seconds is reported, then sends a message, the user
  reads twice, and the connection ends.\<close>

definition test_events :: "event list" where
  "test_events = [Expires, Arrives 4 (wire_text (OtherError ''{b}'')), Readable 4 [] (Failed EAGAIN), Reads, Reads,
     Readable 4 [] End_of_file]"

theorem runs_keep_reports_witness:
  "\<exists>c'. run_of test_glib list_queue alist_table test_events (test_server [], []) c'
    \<and> sound test_glib list_queue alist_table (fst c')
    \<and> map (report_of test_glib) (snd c') = [(Some (SoftwareError ''Connection timeout''), 1, 50), (Some (OtherError ''{b}''), 1, 50)]
    \<and> history test_glib list_queue c' = [(Some (SoftwareError ''Connection timeout''), 1, 50),
         (Some (OtherError ''{b}''), 1, 50), (Some (SoftwareError ''Connection closed''), 1, 50)]"
proof -
  let ?t = "test_server []" and ?n = "OtherError ''{b}''"
  have t: "sound test_glib list_queue alist_table (fst (?t, []))" by (simp add: test_sound)
  obtain c' where c': "run_of test_glib list_queue alist_table test_events (?t, []) c'"
    using run_possible[OF test_libraries t, of test_events] unfolding test_events_def by force
  obtain ms where ms: "sound test_glib list_queue alist_table (fst c')"
    "expected_run test_glib test_events (seen_by_user test_glib list_queue alist_table (?t, [])) ms (seen_by_user test_glib list_queue alist_table c')"
    "history test_glib list_queue c' = history test_glib list_queue (?t, []) @ ms"
    using runs_keep_reports[OF test_libraries c' t] by blast
  have n: "sendable ?n" by (simp add: sendable_def nesting_ok_def brace_def)
  have r: "read_json_object e (wire_text ?n) = (SUCCESS, wire_text ?n, [])" for e
    using read_frame[OF sendable_frame[OF n], of e "[]"] by simp
  have w: "wire_text ?n \<noteq> []" using sendable_frame[OF n] by (auto simp: frame_def)
  have h: "heard test_glib [] (wire_text ?n) = ?n" by (rule heard_wire_text[OF test_glib_ok]) simp
  have k: "distinct ks \<and> set ks = {4 :: int} \<longleftrightarrow> ks = [4]" for ks
  proof
    assume "distinct ks \<and> set ks = {4}"
    moreover from this have "length ks = 1" using distinct_card[of ks] by simp
    ultimately show "ks = [4]" by (cases ks) auto
  qed simp
  have st: "stale \<lparr>waiting = [], clients = [4 \<mapsto> (1, 0)], stream = \<lambda>k. []\<rparr> 50 = {4}" by (auto simp: stale_def split: if_splits)
  have s: "seen_by_user test_glib list_queue alist_table (?t, [])
      = \<lparr>serving_state = \<lparr>waiting = [], clients = [4 \<mapsto> (1, 0)], stream = \<lambda>k. []\<rparr>, time_now = 50, taken = []\<rparr>"
    "history test_glib list_queue (?t, []) = []"
    by (simp_all add: seen_by_user_def test_abstraction history_def) (simp_all add: test_server_def queued_def list_queue_def)
  have "taken (seen_by_user test_glib list_queue alist_table c')
      = [(Some (SoftwareError ''Connection timeout''), 1, 50), (Some ?n, 1, 50)]
    \<and> ms = [(Some (SoftwareError ''Connection timeout''), 1, 50), (Some ?n, 1, 50), (Some (SoftwareError ''Connection closed''), 1, 50)]"
    using ms(2) r w h unfolding s test_events_def
    by (auto simp: expected_run_simps expected_simps receive_def new_reports_def timeout_def Let_def st k)
  then show ?thesis using c' ms(1,3) unfolding s by (intro exI[of _ c']) (simp add: seen_by_user_def)
qed

definition test_answers :: "fd \<Rightarrow> answers" where
  "test_answers k = \<lparr>accepted = k, peer1 = Some 2, peer2 = Some 2, mutex_init = 0, garbage = 0,
     read_rt = \<lparr>sigaction_result = 0, setown_result = 0, setsig_result = 0, setfl_result = 0\<rparr>\<rparr>"

text \<open>C8: A sound server never gets stuck: every signal on every descriptor, every expiration of the
  timer, every read, and every accepted connection on a new descriptor is handled to its end.\<close>

theorem handlers_return:
  assumes "libraries_ok G Q H" and "sound G Q H s"
  shows "(\<exists>s'. io_handler G Q H k s = Done s') \<and> (\<exists>s'. iter_keep_alives G Q H s = Done s')
    \<and> (\<exists>r. read_message Q s = Done r)
    \<and> (accepts a j ad \<and> table_lookup H s j = None \<longrightarrow> (\<exists>s'. connect_handler H a s = Done s'))"
  using io_handler_refines[of H s Q G k] iter_keep_alives_reports[of H s Q G] read_message_refines[of H s Q G]
    connect_handler_refines[of H s a j ad G Q] assms unfolding sound_def libraries_ok_def by blast

theorem handlers_return_witness:
  "(\<exists>s'. io_handler test_glib list_queue alist_table 4 (test_server ''{'') = Done s')
    \<and> (\<exists>s'. iter_keep_alives test_glib list_queue alist_table (test_server ''{'') = Done s')
    \<and> (\<exists>r. read_message list_queue (test_server ''{'') = Done r)
    \<and> (\<exists>s'. connect_handler alist_table (test_answers 5) (test_server ''{'') = Done s')"
  using handlers_return[OF test_libraries test_sound[of "''{''"], of 4 "test_answers 5" 5 2]
  by (simp add: accepts_def test_answers_def) (simp add: test_server_def table_lookup_def alist_table_def)

fun read_times :: "('q, 'i) gqueue \<Rightarrow> nat \<Rightarrow> ('q, 't) server \<Rightarrow> 'i list" where
  "read_times Q 0 s = []"
| "read_times Q (Suc n) s = (case message_taken Q s of (None, s1) \<Rightarrow> [] | (Some x, s1) \<Rightarrow> x # read_times Q n s1)"

lemma read_times_take_out:
  fixes Q :: "('q, 'g BufferItem) gqueue"
  shows "read_times Q n s = fst (fifo.take_out (message_taken Q) n s)"
proof (induction n arbitrary: s)
  case (Suc n)
  then show ?case by (auto simp: bq.take_out.simps split: prod.splits option.splits)
qed (simp add: bq.take_out.simps)

text \<open>Reading is in order: what is pushed onto an empty queue by the handlers comes out of
  \<open>read_message\<close> in the order of the pushes.\<close>

theorem messages_read_in_order:
  assumes "idle_queue Q s" and "queued Q s = []"
  shows "read_times Q (length items) (fold (\<lambda>i s. push_item Q i s) items s) = items"
  using bq.in_order[OF assms] by (simp add: read_times_take_out)

theorem messages_read_in_order_witness:
  "read_times list_queue (length [error_item test_glib ''a'' 1 2, error_item test_glib ''b'' 3 4])
      (fold (\<lambda>i s. push_item list_queue i s) [error_item test_glib ''a'' 1 2, error_item test_glib ''b'' 3 4] (test_server []))
    = [error_item test_glib ''a'' 1 2, error_item test_glib ''b'' 3 4]"
  by (rule messages_read_in_order)
    (simp_all add: idle_queue_def list_queue_ok test_server_ok(2), simp_all add: test_server_def queued_def list_queue_def)

section \<open>Time-outs, connections, start and stop\<close>

text \<open>C24: The periodic check reports exactly the silent clients: each client whose last sign of life
  is more than 30 seconds old gets one report of a time-out, no other client gets one, and no
  client is disconnected.\<close>

theorem timeouts_reported:
  assumes "libraries_ok G Q H" and "server_ok H s" and "calm s" and "clock s \<noteq> - 1"
  shows "\<exists>s' ks. iter_keep_alives G Q H s = Done s' \<and> server_ok H s' \<and> distinct ks
    \<and> set ks = {k. \<exists>ad seen. clients (abstraction G Q H s) k = Some (ad, seen) \<and> 30 < clock s - seen}
    \<and> abstraction G Q H s' = (abstraction G Q H s)\<lparr>waiting := waiting (abstraction G Q H s)
        @ map (\<lambda>k. (Some (SoftwareError ''Connection timeout''), fst (the (clients (abstraction G Q H s) k)), clock s)) ks\<rparr>"
  using iter_keep_alives_reports[OF assms(2,3), of Q G] assms(1,4)
  unfolding libraries_ok_def stale_def timeout_def by blast

theorem timeouts_reported_witness:
  "\<exists>s' ks. iter_keep_alives test_glib list_queue alist_table (test_server []) = Done s' \<and> server_ok alist_table s'
    \<and> distinct ks \<and> set ks = {4::fd} \<and> waiting (abstraction test_glib list_queue alist_table s')
        = map (\<lambda>k::fd. (Some (SoftwareError ''Connection timeout''), fst (the ([4 \<mapsto> (1::32 word, 0::int)] k)), 50)) ks"
proof -
  have c: "clock (test_server []) = 50" by (simp add: test_server_def)
  have e: "{k. \<exists>ad seen. [4 \<mapsto> (1::32 word, 0::int)] k = Some (ad, seen) \<and> 30 < 50 - seen} = {4::int}" by auto
  show ?thesis using timeouts_reported[OF test_libraries test_server_ok, of "[]"]
    unfolding test_abstraction c abstract.select_convs e by auto
qed

lemma check_skips:
  assumes "calm s" and "read_buff_mux s" and "\<forall>p \<in> set ps. condatas s p \<noteq> None"
  shows "foreach_con (check_keep_alive G Q) ps s = Done s"
  using assms(3)
proof (induction ps)
  case (Cons p ps)
  then have "check_keep_alive G Q p s = Done s" using assms(1,2) by (auto simp: check_keep_alive_def locks_calm)
  then show ?case using Cons by simp
qed simp

text \<open>While another thread holds the table or the queue the periodic check does not wait for it:
  it returns at once, without any change, and the time-outs of that turn go unreported.\<close>

theorem check_skips_when_locked:
  assumes "connections_mux s \<or> read_buff_mux s" and "calm s"
    and "\<forall>t. connections_table s = Some t \<longrightarrow> (\<forall>p \<in> set (ht_values H t). condatas s p \<noteq> None)"
  shows "iter_keep_alives G Q H s = Done s"
proof (cases "connections_mux s")
  case False
  let ?ps = "case connections_table s of None \<Rightarrow> [] | Some t \<Rightarrow> ht_values H t"
  have "foreach_con (check_keep_alive G Q) ?ps (s\<lparr>connections_mux := True\<rparr>) = Done (s\<lparr>connections_mux := True\<rparr>)"
    by (cases "connections_table s"; rule check_skips) (use assms False in auto)
  moreover have "s\<lparr>connections_mux := False\<rparr> = s" using False by (cases s) simp
  ultimately show ?thesis using False by (simp add: iter_keep_alives_def unlock_connections_def)
qed (simp add: iter_keep_alives_def)

theorem check_skips_when_locked_witness:
  "iter_keep_alives test_glib list_queue alist_table ((test_server [])\<lparr>read_buff_mux := True\<rparr>) = Done ((test_server [])\<lparr>read_buff_mux := True\<rparr>)"
  by (rule check_skips_when_locked) (simp_all add: test_server_ok, simp add: test_server_def alist_table_def)

text \<open>An accepted connection becomes a client with the peer's address, alive since now, and
  nothing else changes for the user; its descriptor raises signals exactly if the kernel
  allowed it, which \<open>connect_handler\<close> does not look at.\<close>

theorem connection_accepted:
  assumes "libraries_ok G Q H" and "server_ok H s" and "calm s" and "accepts a k ad" and "clock s \<noteq> - 1"
    and "table_lookup H s k = None"
  shows "\<exists>s'. connect_handler H a s = Done s' \<and> server_ok H s'
    \<and> abstraction G Q H s' = (abstraction G Q H s)\<lparr>clients := (clients (abstraction G Q H s))(k \<mapsto> (ad, clock s))\<rparr>
    \<and> signalling s' = signalling s @ (if fst (setup_rt_signal_io (read_rt a)) then [k] else [])"
  using connect_handler_refines[OF assms(2,3) _ assms(4-6), of G Q] assms(1) unfolding libraries_ok_def by blast

theorem connection_accepted_witness:
  "\<exists>s'. connect_handler alist_table (test_answers 5) (test_server []) = Done s' \<and> server_ok alist_table s'
    \<and> clients (abstraction test_glib list_queue alist_table s') = [4 \<mapsto> (1, 0), 5 \<mapsto> (2, 50)]
    \<and> signalling s' = [3, 4, 5]"
proof -
  have a: "accepts (test_answers 5) 5 2" by (simp add: accepts_def test_answers_def)
  have s: "clock (test_server []) = 50" "table_lookup alist_table (test_server []) 5 = None" "signalling (test_server []) = [3, 4]"
    by (simp_all add: test_server_def table_lookup_def alist_table_def)
  obtain s' where s': "connect_handler alist_table (test_answers 5) (test_server []) = Done s'" "server_ok alist_table s'"
    "abstraction test_glib list_queue alist_table s' = (abstraction test_glib list_queue alist_table (test_server []))\<lparr>clients :=
       (clients (abstraction test_glib list_queue alist_table (test_server [])))(5 \<mapsto> (2, 50))\<rparr>"
    "signalling s' = [3, 4] @ (if fst (setup_rt_signal_io (read_rt (test_answers 5))) then [5] else [])"
    using connection_accepted[OF test_libraries test_server_ok a _ s(2)] s(1,3) by auto
  then show ?thesis by (intro exI[of _ s']) (simp add: test_abstraction test_answers_def setup_rt_signal_io_def fun_upd_twist)
qed

text \<open>C25: When there is no memory for the key, \<open>connect_handler\<close> returns with the mutex of the table
  locked and the descriptor closed twice, and from then on every signal blocks for ever.\<close>

theorem no_memory_for_key_deadlocks:
  assumes "server_ok H s" and "locks s = []" and "mallocs s = [True, False]" and "accepts a k ad" and "clock s \<noteq> - 1"
  shows "\<exists>s'. connect_handler H a s = Done s' \<and> connections_mux s' \<and> closed s' = closed s @ [k, k]
    \<and> (\<forall>j. io_handler G Q H j s' = Blocked)"
proof -
  note ok = server_okD(2)[OF assms(1)]
  obtain s' where s': "connect_handler H a s = Done s'" "connections_mux s'" "locks s' = []" "closed s' = closed s @ [k, k]"
    using assms(2-5) ok
    by (auto simp: connect_handler_def accepts_def smalloc_def lock_connections_def update_con_def Let_def
        free_connectiondata_def close_fd_def)
  then have "io_handler G Q H j s' = Blocked" for j
    by (simp add: io_handler_def lock_connections_def and_run_def)
  then show ?thesis using s' by blast
qed

theorem no_memory_for_key_deadlocks_witness:
  "\<exists>s'. connect_handler alist_table (test_answers 5) ((test_server [])\<lparr>mallocs := [True, False]\<rparr>) = Done s'
    \<and> connections_mux s' \<and> closed s' = [5, 5] \<and> (\<forall>j. io_handler test_glib list_queue alist_table j s' = Blocked)"
proof -
  have "server_ok alist_table ((test_server [])\<lparr>mallocs := [True, False]\<rparr>)"
    using test_server_ok(1)[of "[]"] by (simp add: server_ok_def table_lookup_def)
  from no_memory_for_key_deadlocks[OF this, of "test_answers 5" 5 2] show ?thesis
    by (simp add: accepts_def test_answers_def) (simp add: test_server_def)
qed

definition test_syscalls :: syscalls where
  "test_syscalls = \<lparr>socket_result = 3, bind_result = 0,
     listen_rt = \<lparr>sigaction_result = 0, setown_result = 0, setsig_result = 0, setfl_result = 0\<rparr>,
     timer_created = 0, timer_set = 0, listen_result = 0\<rparr>"

definition test_stopped :: "(bytes BufferItem list, (fd \<times> ptr) list) server" where
  "test_stopped = \<lparr>read_buff = None, read_buff_mux = False, connections_mux = False,
     connections_table = None, listen_socket = - 1, timer_armed = False, connect_sig_on = False,
     read_sig_on = False, signalling = [], condatas = Map.empty, next_ptr = 0, closed = [],
     misuses = 0, inbox = (\<lambda>k. []), ending = (\<lambda>_. Failed EAGAIN), clock = 50,
     mallocs = [], locks = [], json_mem = []\<rparr>"

lemma test_stopped: "stopped test_stopped" "calm test_stopped"
  by (simp_all add: stopped_def test_stopped_def calm_def)

text \<open>C26: \<open>start_server\<close> on a stopped server succeeds exactly if every call to the kernel does; then
  the server is idle and sound, with no client and no report, listening, its timer armed. If it
  fails the socket is closed and the queue is freed; but when only \<open>listen\<close> fails the table
  of connections is neither freed nor forgotten and the timer stays armed.\<close>

theorem start_server_paths:
  assumes "stopped s" and "calm s" and "libraries_ok G Q H" and "start_server Q H True k s = (ok, s')"
  shows "(ok = (prepared k \<and> listen_result k \<noteq> - 1))
    \<and> (if ok then server_ok H s' \<and> calm s' \<and> abstraction G Q H s' = fresh_abstract (inbox s)
         \<and> listen_socket s' = socket_result k \<and> timer_armed s' \<and> connect_sig_on s'
       else read_buff s' = None \<and> listen_socket s' = - 1
         \<and> closed s' = closed s @ (if socket_result k = - 1 then [] else [socket_result k])
         \<and> connections_table s' = (if prepared k then Some (g_hash_table_new H) else None) \<and> timer_armed s' = prepared k)"
proof -
  have l: "gqueue_ok Q" "ghash_ok H" using assms(3) by (simp_all add: libraries_ok_def)
  note o = start_server_outcome[OF assms(1,2) l assms(4)]
  show ?thesis by (intro conjI) (rule o(1), cases ok, use o(2)[of G] o(3) in simp_all)
qed

theorem start_server_paths_witness:
  "\<not> fst (start_server list_queue alist_table True (test_syscalls\<lparr>listen_result := - 1\<rparr>) test_stopped)
    \<and> connections_table (snd (start_server list_queue alist_table True (test_syscalls\<lparr>listen_result := - 1\<rparr>) test_stopped)) = Some []
    \<and> timer_armed (snd (start_server list_queue alist_table True (test_syscalls\<lparr>listen_result := - 1\<rparr>) test_stopped))"
proof -
  obtain ok s' where e: "start_server list_queue alist_table True (test_syscalls\<lparr>listen_result := - 1\<rparr>) test_stopped = (ok, s')"
    by (cases "start_server list_queue alist_table True (test_syscalls\<lparr>listen_result := - 1\<rparr>) test_stopped")
  have p: "prepared (test_syscalls\<lparr>listen_result := - 1\<rparr>)" by (simp add: prepared_def test_syscalls_def setup_rt_signal_io_def)
  from start_server_paths[OF test_stopped test_libraries e] p e show ?thesis by (simp add: alist_table_def)
qed

text \<open>C27: \<open>stop_server\<close> releases everything: the handlers and the timer are off, every item and every
  connection block is freed, the listening socket and the descriptor of every client are closed,
  each once. But for each connection it unlocks a mutex that nobody holds.\<close>

theorem stop_server_releases:
  assumes "libraries_ok G Q H" and "sound G Q H s"
  shows "\<exists>s' ks. stop_server Q H 0 0 0 s = Done s' \<and> stopped s'
    \<and> distinct ks \<and> set ks = dom (clients (abstraction G Q H s))
    \<and> closed s' = closed s @ (if listen_socket s \<noteq> - 1 then [listen_socket s] else []) @ ks
    \<and> misuses s' = misuses s + length ks"
  using stop_server_stops[of H s G Q] assms unfolding libraries_ok_def sound_def by blast

theorem stop_server_releases_witness:
  "\<exists>s'. stop_server list_queue alist_table 0 0 0 (test_server []) = Done s' \<and> stopped s' \<and> closed s' = [3, 4] \<and> misuses s' = 1"
proof -
  have s: "closed (test_server []) = []" "listen_socket (test_server []) = 3" "misuses (test_server []) = 0"
    by (simp_all add: test_server_def)
  obtain s' ks where k: "stop_server list_queue alist_table 0 0 0 (test_server []) = Done s'" "stopped s'"
    "distinct ks" "set ks = {4}" "closed s' = [] @ [3] @ ks" "misuses s' = length ks"
    using stop_server_releases[OF test_libraries test_sound[of "[]"]] s by (auto simp: test_abstraction)
  have "length ks = 1" using distinct_card[OF k(3)] k(4) by simp
  then have "ks = [4]" using k(4) by (cases ks) auto
  then show ?thesis using k by auto
qed

text \<open>Restarting works: a sound server can be stopped and started again, and is then as new.\<close>

theorem restart:
  assumes "libraries_ok G Q H" and "sound G Q H s" and "prepared k" and "listen_result k \<noteq> - 1"
  shows "\<exists>s1 s2. stop_server Q H 0 0 0 s = Done s1 \<and> start_server Q H True k s1 = (True, s2)
    \<and> server_ok H s2 \<and> abstraction G Q H s2 = fresh_abstract (inbox s1)"
proof -
  obtain s1 where s1: "stop_server Q H 0 0 0 s = Done s1" "stopped s1" "calm s1"
    using stop_server_stops[of H s G Q] assms(1,2) unfolding libraries_ok_def sound_def by blast
  obtain ok s2 where s2: "start_server Q H True k s1 = (ok, s2)" by (cases "start_server Q H True k s1")
  have l: "gqueue_ok Q" "ghash_ok H" using assms(1) by (simp_all add: libraries_ok_def)
  note o = start_server_outcome[OF s1(2,3) l s2]
  have k: "ok" using o(1) assms(3,4) by simp
  show ?thesis using o(2)[OF k, of G] s1(1) s2 k by auto
qed

theorem restart_witness:
  "\<exists>s1 s2. stop_server list_queue alist_table 0 0 0 (test_server []) = Done s1
    \<and> start_server list_queue alist_table True test_syscalls s1 = (True, s2)
    \<and> server_ok alist_table s2 \<and> abstraction test_glib list_queue alist_table s2 = fresh_abstract (inbox s1)"
  by (rule restart[OF test_libraries test_sound]) (simp_all add: prepared_def test_syscalls_def setup_rt_signal_io_def)

text \<open>C28: A signal that finds its own thread inside the library, with the table or the queue locked,
  waits for ever: the comment in \<open>io_handler\<close> says that this was not seen to happen.\<close>

theorem signal_inside_library_blocks:
  assumes "locks s = []" and "connections_mux s \<or> (server_ok H (s\<lparr>read_buff_mux := False\<rparr>) \<and> read_buff_mux s
      \<and> clients (abstraction G Q H s) k \<noteq> None \<and> inbox s k \<noteq> [])"
  shows "io_handler G Q H k s = Blocked"
proof (cases "connections_mux s")
  case True
  then show ?thesis using assms(1) by (simp add: io_handler_def lock_connections_def and_run_def)
next
  case False
  let ?i = "s\<lparr>read_buff_mux := False\<rparr>"
  have i: "server_ok H ?i" "read_buff_mux s" "inbox s k \<noteq> []" using assms(2) False by auto
  obtain p c where p: "table_lookup H s k = Some p" "condatas s p = Some c"
    using assms(2) False by (auto simp: abstraction_def split: option.splits)
  have "table_lookup H ?i k = Some p" using p(1) by (simp add: table_lookup_def)
  from server_okD(5)[OF i(1) this] have c: "cfd c = k" "\<not> mutex c" "\<not> destroyed c" using p(2) by auto
  have "s\<lparr>locks := [], connections_mux := False\<rparr> = s" using False assms(1) by (cases s) simp
  then have u: "unlock_connections (s\<lparr>locks := [], connections_mux := True\<rparr>) = s" by (simp add: unlock_connections_def)
  have t: "(case connections_table s of None \<Rightarrow> None | Some t \<Rightarrow> g_hash_table_lookup H t k) = Some p"
    using p(1) by (simp add: table_lookup_def)
  have "object_reader G Q H p (update_con p (\<lambda>c. c\<lparr>mutex := True\<rparr>) (s\<lparr>locks := []\<rparr>)) = Blocked"
    using i(2) by (simp add: object_reader_def lock_read_buff_def update_con_def and_run_def)
  then show ?thesis using False c u t p(2) assms(1) i(3)
    by (simp add: io_handler_def lock_connections_def lock_con_def) (simp add: update_con_def)
qed

theorem signal_inside_library_blocks_witness:
  "io_handler test_glib list_queue alist_table 4 ((test_server ''{'')\<lparr>read_buff_mux := True\<rparr>) = Blocked"
proof (rule signal_inside_library_blocks)
  let ?s = "(test_server ''{'')\<lparr>read_buff_mux := True\<rparr>"
  show "locks ?s = []" by (simp add: test_server_def)
  have "?s\<lparr>read_buff_mux := False\<rparr> = test_server ''{''" by (simp add: test_server_def)
  moreover have "clients (abstraction test_glib list_queue alist_table ?s) = clients (abstraction test_glib list_queue alist_table (test_server ''{''))"
    by (simp add: abstraction_def table_lookup_def cong: option.case_cong)
  ultimately show "connections_mux ?s \<or> (server_ok alist_table (?s\<lparr>read_buff_mux := False\<rparr>) \<and> read_buff_mux ?s
      \<and> clients (abstraction test_glib list_queue alist_table ?s) 4 \<noteq> None \<and> inbox ?s 4 \<noteq> [])"
    using test_server_ok(1)[of "''{''"] by (simp add: test_abstraction) (simp add: test_server_def)
qed

section \<open>Messages in pieces and messages in a row\<close>

text \<open>C31: A message that arrives in two pieces costs the client its connection: when the signal
  comes after the first piece the reader gives up, the client is removed and its descriptor is
  closed, the bytes are lost, and no report tells the user so.\<close>

theorem partial_message_drops_client:
  assumes "libraries_ok G Q H" and "server_ok H s" and "calm s" and "sendable n" and "0 < j" and "j < length (wire_text n)"
    and "inbox s k = take j (wire_text n)" and "clients (abstraction G Q H s) k \<noteq> None"
  shows "\<exists>s'. io_handler G Q H k s = Done s' \<and> inbox s' k = []
    \<and> clients (abstraction G Q H s') = (clients (abstraction G Q H s))(k := None)
    \<and> waiting (abstraction G Q H s') = waiting (abstraction G Q H s)"
  by (rule part_of_message_drops[OF assms])

theorem partial_message_drops_client_witness:
  "\<exists>s'. io_handler test_glib list_queue alist_table 4 (test_server (take 1 (wire_text Alive))) = Done s' \<and> inbox s' 4 = []
    \<and> clients (abstraction test_glib list_queue alist_table s') = [4 \<mapsto> (1, 0)](4 := None)
    \<and> waiting (abstraction test_glib list_queue alist_table s') = []"
proof -
  have l: "1 < length (wire_text Alive)" by (simp add: wire_text_def wire_object_text)
  have n: "sendable Alive" by (simp add: sendable_def nesting_ok_def)
  show ?thesis using partial_message_drops_client[OF test_libraries test_server_ok n _ l, of "take 1 (wire_text Alive)" 4]
    by (simp add: test_abstraction) (simp add: test_server_def)
qed

text \<open>One signal, one message: when two messages have arrived before the signal is handled, only
  the first is reported, and the second waits in the stream until another signal comes.\<close>

theorem one_message_per_signal:
  assumes "libraries_ok G Q H" and "server_ok H s" and "calm s" and "json_mem s = []" and "sendable n" and "n \<noteq> Alive"
    and "inbox s k = wire_text n @ rest" and "clients (abstraction G Q H s) k = Some (ad, seen)"
  shows "\<exists>s'. io_handler G Q H k s = Done s' \<and> inbox s' k = rest
    \<and> waiting (abstraction G Q H s') = waiting (abstraction G Q H s) @ [(Some n, ad, clock s)]"
proof -
  note l = assms(1)[unfolded libraries_ok_def]
  obtain s' where s': "io_handler G Q H k s = Done s'"
    "abstraction G Q H s' = receive G [] (clock s) (ending s k) k (abstraction G Q H s)"
    using io_handler_refines[OF assms(2,3), of Q G k] l assms(4) by auto
  have "stream (abstraction G Q H s) k = wire_text n @ rest" using assms(7) by (simp add: abstraction_fields)
  from receive_message[OF _ assms(5,8) this, where G = G and now = "clock s" and e = "ending s k"] l s'(2) assms(6)
  have "waiting (abstraction G Q H s') = waiting (abstraction G Q H s) @ [(Some n, ad, clock s)]"
    "stream (abstraction G Q H s') k = rest" by simp_all
  then show ?thesis using s'(1) by (auto simp: abstraction_fields)
qed

theorem one_message_per_signal_witness:
  "\<exists>s'. io_handler test_glib list_queue alist_table 4 (test_server (wire_text (OtherError ''a'') @ wire_text (OtherError ''b''))) = Done s'
    \<and> inbox s' 4 = wire_text (OtherError ''b'')
    \<and> waiting (abstraction test_glib list_queue alist_table s') = [(Some (OtherError ''a''), 1, 50)]"
proof -
  let ?s = "test_server (wire_text (OtherError ''a'') @ wire_text (OtherError ''b''))"
  have n: "sendable (OtherError ''a'')" by (simp add: sendable_def nesting_ok_def brace_def)
  have s: "json_mem ?s = []" "inbox ?s 4 = wire_text (OtherError ''a'') @ wire_text (OtherError ''b'')" "clock ?s = 50"
    by (simp_all add: test_server_def)
  have c: "clients (abstraction test_glib list_queue alist_table ?s) 4 = Some (1, 0)" by (simp add: test_abstraction)
  show ?thesis using one_message_per_signal[OF test_libraries test_server_ok s(1) n _ s(2) c] s(3)
    unfolding test_abstraction by simp
qed

end
