(* ===== verification/SendingLaws.thy ===== *)
theory SendingLaws
  imports Sending ServerLaws
begin

text \<open>
  The properties of the client (\<open>src/sending.c\<close>), and of the client together with the server.
\<close>

section \<open>The client between its calls\<close>

text \<open>Connected, with the mutex free and usable, and the allocator answering.\<close>

definition sender_ready :: "ltree list \<Rightarrow> sender \<Rightarrow> bool" where
  "sender_ready F s \<longleftrightarrow> sending_fd s \<noteq> - 1 \<and> \<not> fd_mux s \<and> \<not> fd_mux_destroyed s \<and> fd_locks s = []
     \<and> forest (json_heap s) F \<and> hmem (json_heap s) = []"

definition transmitted :: "bytes \<Rightarrow> sender \<Rightarrow> sender" where
  "transmitted t s = s\<lparr>sent := (sent s)(sending_fd s := sent s (sending_fd s) @ t)\<rparr>"

lemma transmitted_fields [simp]:
  "sending_fd (transmitted t s) = sending_fd s" "writes (transmitted t s) = writes s"
  "json_heap (transmitted t s) = json_heap s" "fd_mux (transmitted t s) = fd_mux s"
  "sent (transmitted t s) (sending_fd s) = sent s (sending_fd s) @ t"
  by (simp_all add: transmitted_def)

lemma transmitted_ready [simp]: "sender_ready F (transmitted t s) \<longleftrightarrow> sender_ready F s"
  by (simp add: sender_ready_def transmitted_def)

lemma mux_twice: "\<not> fd_mux s \<Longrightarrow> s\<lparr>fd_mux := True, fd_mux := False\<rparr> = s"
  by (cases s) simp

text \<open>What \<open>send_encoded_message\<close> does in this state, as the kernel takes all or part of the text.\<close>

lemma send_encoded_ready:
  assumes "sender_ready F s" and "writes s = []"
  shows "send_encoded_message t s = Done (True, transmitted (take MAX_ENCODED_LEN t) s)"
proof -
  have l: "lock_fd s = Done (0, s\<lparr>fd_mux := True\<rparr>)" using assms(1) by (simp add: lock_fd_def sender_ready_def)
  have "write_fd (sending_fd s) (take (strnlen t MAX_ENCODED_LEN) t) (s\<lparr>fd_mux := True\<rparr>)
    = (int (strnlen t MAX_ENCODED_LEN), s\<lparr>fd_mux := True, sent := (sent s)(sending_fd s := sent s (sending_fd s) @ take MAX_ENCODED_LEN t)\<rparr>)"
    using assms by (cases s) (auto simp: write_fd_def sender_ready_def strnlen_def min_def Let_def)
  then show ?thesis using l assms(1)
    by (cases s) (simp add: send_encoded_message_def sender_ready_def transmitted_def)
qed

lemma send_encoded_fails:
  assumes "sender_ready F s" and "writes s = r # rs" and "r < int (min MAX_ENCODED_LEN (length t))"
  shows "\<exists>s'. send_encoded_message t s = Done (False, s') \<and> sender_ready F s' \<and> sending_fd s' = sending_fd s
    \<and> writes s' = rs \<and> sent s' (sending_fd s) = sent s (sending_fd s) @ take (nat r) t"
proof -
  have l: "lock_fd s = Done (0, s\<lparr>fd_mux := True\<rparr>)" using assms(1) by (simp add: lock_fd_def sender_ready_def)
  show ?thesis using l assms
    by (cases s) (auto simp: send_encoded_message_def write_fd_def sender_ready_def strnlen_def Let_def min_def not_le)
qed

lemma send_message_encoded:
  assumes "sender_ready F s" and "view G m = Some n" and "notice_ok n" and "length (wire_text n) + 2 \<le> 2147483647"
  shows "\<exists>h. sender_ready F (s\<lparr>json_heap := h\<rparr>)
    \<and> send_message G (Some m) s = send_encoded_message (wire_text n) (s\<lparr>json_heap := h\<rparr>)"
proof -
  have "forest (json_heap s) F" "hmem (json_heap s) = []" using assms(1) by (simp_all add: sender_ready_def)
  from encode_ok_memory[OF this assms(2-4)] obtain h where
    "encode_message G (Some m) (Some None) (json_heap s)
      = Some (int (strnlen (wire_text n) MAX_ENCODED_LEN), Some (Some (wire_text n)), h)" "forest h F" "hmem h = []"
    by blast
  then show ?thesis using assms(1) by (intro exI[of _ h]) (simp add: send_message_def sender_ready_def)
qed

section \<open>Properties of the client\<close>

definition test_sender :: "int list \<Rightarrow> sender" where
  "test_sender ws = \<lparr>sending_fd = 7, fd_mux = False, fd_mux_destroyed = False, send_timer = None, sent = (\<lambda>_. []),
     closed_fds = [], writes = ws, fd_locks = [], json_heap = empty_heap []\<rparr>"

lemma test_sender_ready: "sender_ready [] (test_sender ws)"
  using empty_heap_forest[of "[]"] by (simp add: sender_ready_def test_sender_def) (simp add: empty_heap_def)

lemma test_sender_fields [simp]: "writes (test_sender ws) = ws" "sending_fd (test_sender ws) = 7" "sent (test_sender ws) fd = []" "closed_fds (test_sender ws) = []"
  by (simp_all add: test_sender_def)

lemma uncut:
  assumes "notice_ok n" and "length (escaped (message_string n)) \<le> MAX_MSG_LEN"
  shows "length (wire_text n) \<le> MAX_ENCODED_LEN" and "length (wire_text n) + 2 \<le> 2147483647"
  using wire_text_length[OF assms(1)] assms(2) by (simp_all add: MAX_ENCODED_LEN_def MAX_MSG_LEN_def)

lemma message_written:
  assumes "sender_ready F s" and "writes s = []" and "view G m = Some n" and "notice_ok n"
    and "length (escaped (message_string n)) \<le> MAX_MSG_LEN"
  shows "\<exists>s'. send_message G (Some m) s = Done (True, s') \<and> sender_ready F s' \<and> writes s' = [] \<and> sending_fd s' = sending_fd s
    \<and> sent s' = (sent s)(sending_fd s := sent s (sending_fd s) @ wire_text n)"
proof -
  note u = uncut[OF assms(4,5)]
  obtain h where h: "sender_ready F (s\<lparr>json_heap := h\<rparr>)"
    "send_message G (Some m) s = send_encoded_message (wire_text n) (s\<lparr>json_heap := h\<rparr>)"
    using send_message_encoded[OF assms(1,3,4) u(2)] by blast
  then show ?thesis using send_encoded_ready[OF h(1), of "wire_text n"] assms(2) u(1)
    by (simp add: transmitted_def) (simp add: sender_ready_def)
qed

text \<open>A message whose escaped text fits into \<open>MAX_MSG_LEN\<close> is written whole, in one call of
  \<open>write\<close>, and \<open>send_message\<close> says so; the client is left ready, with the mutex free and
  nothing of the message in its store.\<close>

theorem message_sent:
  assumes "sender_ready F s" and "writes s = []" and "view G m = Some n" and "notice_ok n"
    and "length (escaped (message_string n)) \<le> MAX_MSG_LEN"
  shows "\<exists>s'. send_message G (Some m) s = Done (True, s') \<and> sender_ready F s' \<and> writes s' = [] \<and> sending_fd s' = sending_fd s
    \<and> sent s' = (sent s)(sending_fd s := sent s (sending_fd s) @ wire_text n)"
  by (rule message_written[OF assms])

theorem message_sent_witness:
  "\<exists>s'. send_message test_glib (Some valve_message) (test_sender []) = Done (True, s') \<and> sender_ready [] s' \<and> writes s' = []
    \<and> sending_fd s' = 7 \<and> sent s' = (\<lambda>_. [])(7 := wire_text (ValveError 42 ''hot''))"
  using message_sent[OF test_sender_ready _ valve_view, of "[]"]
  by (simp add: INT_MIN_def INT_MAX_def MAX_MSG_LEN_def escaped_def escape_char_def) (simp add: test_sender_def)

text \<open>Several messages, one call after the other: the results and the client.\<close>

fun send_all :: "'g glib \<Rightarrow> 'g Message list \<Rightarrow> sender \<Rightarrow> (bool list \<times> sender) run" where
  "send_all G [] s = Done ([], s)"
| "send_all G (m # ms) s = and_run (send_message G (Some m) s) (\<lambda>ok s1.
     and_run (send_all G ms s1) (\<lambda>oks s2. Done (ok # oks, s2)))"

lemma all_sent:
  assumes "list_all2 (\<lambda>m n. view G m = Some n) ms ns" and "sender_ready F s" and "writes s = []"
    and "\<forall>n \<in> set ns. notice_ok n \<and> length (escaped (message_string n)) \<le> MAX_MSG_LEN"
  shows "\<exists>s'. send_all G ms s = Done (replicate (length ms) True, s') \<and> sender_ready F s'
    \<and> sent s' (sending_fd s) = sent s (sending_fd s) @ concat (map wire_text ns)"
  using assms
proof (induction arbitrary: s rule: list_all2_induct)
  case (Cons m ms n ns)
  then obtain s1 where s1: "send_message G (Some m) s = Done (True, s1)" "sender_ready F s1" "writes s1 = []"
    "sending_fd s1 = sending_fd s" "sent s1 = (sent s)(sending_fd s := sent s (sending_fd s) @ wire_text n)"
    using message_written[of F s G m n] by auto
  then obtain s2 where "send_all G ms s1 = Done (replicate (length ms) True, s2)" "sender_ready F s2"
    "sent s2 (sending_fd s) = sent s1 (sending_fd s) @ concat (map wire_text ns)"
    using Cons.IH[of s1] Cons.prems by auto
  then show ?case using s1 by simp
qed simp

text \<open>C32: From end to end: the messages that a client sends, all the bytes of which arrive at the
  server before the signals, reach the user of the server whole and in order, with the address
  of the client and the time, all but the keep-alives, and nothing is left in the stream.\<close>

theorem sent_messages_reported:
  assumes "list_all2 (\<lambda>m n. view G m = Some n) ms ns" and "sender_ready F c" and "writes c = []"
    and "\<forall>n \<in> set ns. sendable n \<and> length (escaped (message_string n)) \<le> MAX_MSG_LEN"
    and "sent c (sending_fd c) = []"
    and "libraries_ok G Q H" and "server_ok H s" and "calm s" and "json_mem s = []"
    and "clients (abstraction G Q H s) k = Some (ad, seen)"
  shows "\<exists>c'. send_all G ms c = Done (replicate (length ms) True, c')
    \<and> (inbox s k = sent c' (sending_fd c) \<longrightarrow>
       (\<exists>s'. signals G Q H k (length ms) s = Done s' \<and> server_ok H s' \<and> inbox s' k = []
         \<and> waiting (abstraction G Q H s') = waiting (abstraction G Q H s) @ reports ad (clock s) ns))"
proof -
  have n: "\<forall>n \<in> set ns. notice_ok n \<and> length (escaped (message_string n)) \<le> MAX_MSG_LEN" "\<forall>n \<in> set ns. sendable n"
    using assms(4) by (auto simp: sendable_def)
  obtain c' where c': "send_all G ms c = Done (replicate (length ms) True, c')"
    "sent c' (sending_fd c) = concat (map wire_text ns) @ []"
    using all_sent[OF assms(1-3) n(1)] assms(5) by auto
  have "length ms = length ns" using assms(1) by (rule list_all2_lengthD)
  then show ?thesis using c' stream_received[OF assms(6-9) n(2) assms(10), of "[]"] by auto
qed

theorem sent_messages_reported_witness:
  "\<exists>c'. send_all test_glib [valve_message] (test_sender []) = Done (replicate (length [valve_message]) True, c')
    \<and> (inbox (test_server (wire_text (ValveError 42 ''hot''))) 4 = sent c' 7 \<longrightarrow>
       (\<exists>s'. signals test_glib list_queue alist_table 4 (length [valve_message]) (test_server (wire_text (ValveError 42 ''hot''))) = Done s'
         \<and> server_ok alist_table s' \<and> inbox s' 4 = []
         \<and> waiting (abstraction test_glib list_queue alist_table s') = [] @ [(Some (ValveError 42 ''hot''), 1, 50)]))"
proof -
  let ?s = "test_server (wire_text (ValveError 42 ''hot''))"
  have v: "list_all2 (\<lambda>m n. view test_glib m = Some n) [valve_message] [ValveError 42 ''hot'']" by (simp add: valve_view)
  have n: "\<forall>n \<in> set [ValveError 42 ''hot'']. sendable n \<and> length (escaped (message_string n)) \<le> MAX_MSG_LEN"
    by (simp add: sendable_def nesting_ok_def brace_def INT_MIN_def INT_MAX_def MAX_MSG_LEN_def escaped_def escape_char_def)
  have s: "json_mem ?s = []" "clock ?s = 50" by (simp_all add: test_server_def)
  have c: "clients (abstraction test_glib list_queue alist_table ?s) 4 = Some (1, 0)" by (simp add: test_abstraction)
  show ?thesis using sent_messages_reported[OF v test_sender_ready _ n _ test_libraries test_server_ok s(1) c, of "[]"] s(2)
    unfolding test_abstraction test_sender_fields by (simp add: reports_def)
qed

text \<open>A failed or short write is noticed: \<open>send_message\<close> returns false, the connection holds
  the part that the kernel took and no more, and the mutex is free for the next message.\<close>

theorem short_write_noticed:
  assumes "sender_ready F s" and "writes s = r # rs" and "view G m = Some n" and "notice_ok n"
    and "length (wire_text n) \<le> MAX_ENCODED_LEN" and "r < int (length (wire_text n))"
  shows "\<exists>s'. send_message G (Some m) s = Done (False, s') \<and> sender_ready F s' \<and> writes s' = rs
    \<and> sent s' (sending_fd s) = sent s (sending_fd s) @ take (nat r) (wire_text n)"
proof -
  have "length (wire_text n) + 2 \<le> 2147483647" using assms(5) by (simp add: MAX_ENCODED_LEN_def MAX_MSG_LEN_def)
  from send_message_encoded[OF assms(1,3,4) this] obtain h where h: "sender_ready F (s\<lparr>json_heap := h\<rparr>)"
    "send_message G (Some m) s = send_encoded_message (wire_text n) (s\<lparr>json_heap := h\<rparr>)" by blast
  then show ?thesis using send_encoded_fails[OF h(1), of r rs "wire_text n"] assms(2,5,6) by auto
qed

theorem short_write_noticed_witness:
  "\<exists>s'. send_message test_glib (Some valve_message) (test_sender [5]) = Done (False, s') \<and> sender_ready [] s' \<and> writes s' = []
    \<and> sent s' 7 = [] @ take (nat 5) (wire_text (ValveError 42 ''hot''))"
proof -
  have n: "notice_ok (ValveError 42 ''hot'')" by (simp add: INT_MIN_def INT_MAX_def)
  have "length (escaped (message_string (ValveError 42 ''hot''))) \<le> MAX_MSG_LEN"
    by (simp add: MAX_MSG_LEN_def escaped_def escape_char_def)
  moreover have "5 < int (length (wire_text (ValveError 42 ''hot'')))"
    unfolding wire_text_def wire_tree.simps wire_object_text by simp
  ultimately show ?thesis
    using short_write_noticed[OF test_sender_ready _ valve_view n uncut(1)[OF n], where r = 5 and rs = "[]"] by simp
qed

text \<open>C33: A message whose text is longer than \<open>MAX_ENCODED_LEN\<close> is lost without a word on either
  side: \<open>send_message\<close> writes the first 300 bytes and returns true, and a server that gets
  these bytes finds no end of the object, removes the client and tells its user nothing.\<close>

theorem long_message_lost:
  assumes "sender_ready F c" and "writes c = []" and "view G m = Some n" and "sendable n"
    and "MAX_ENCODED_LEN < length (wire_text n)" and "length (wire_text n) + 2 \<le> 2147483647"
    and "libraries_ok G Q H" and "server_ok H s" and "calm s" and "clients (abstraction G Q H s) k \<noteq> None"
    and "inbox s k = take MAX_ENCODED_LEN (wire_text n)"
  shows "(\<exists>c'. send_message G (Some m) c = Done (True, c')
      \<and> sent c' (sending_fd c) = sent c (sending_fd c) @ take MAX_ENCODED_LEN (wire_text n))
    \<and> (\<exists>s'. io_handler G Q H k s = Done s' \<and> clients (abstraction G Q H s') = (clients (abstraction G Q H s))(k := None)
      \<and> waiting (abstraction G Q H s') = waiting (abstraction G Q H s))"
proof
  have "notice_ok n" using assms(4) by (simp add: sendable_def)
  from send_message_encoded[OF assms(1,3) this assms(6)] obtain h where h: "sender_ready F (c\<lparr>json_heap := h\<rparr>)"
    "send_message G (Some m) c = send_encoded_message (wire_text n) (c\<lparr>json_heap := h\<rparr>)" by blast
  then show "\<exists>c'. send_message G (Some m) c = Done (True, c')
      \<and> sent c' (sending_fd c) = sent c (sending_fd c) @ take MAX_ENCODED_LEN (wire_text n)"
    using send_encoded_ready[OF h(1), of "wire_text n"] assms(2) by (simp add: transmitted_def)
  show "\<exists>s'. io_handler G Q H k s = Done s' \<and> clients (abstraction G Q H s') = (clients (abstraction G Q H s))(k := None)
      \<and> waiting (abstraction G Q H s') = waiting (abstraction G Q H s)"
    using part_of_message_drops[OF assms(7-9,4) _ assms(5,11,10)] by (auto simp: MAX_ENCODED_LEN_def)
qed

definition long_message :: "bytes Message" where
  "long_message = \<lparr>mtype = SOFT_ERROR, mdata = Software (Some (replicate 300 (CHR ''x'')))\<rparr>"

lemma long_view: "view test_glib long_message = Some (SoftwareError (replicate 300 (CHR ''x'')))"
proof -
  have "c_str (replicate n (CHR ''x'')) = replicate n (CHR ''x'')" for n by (induction n) (simp_all add: c_str_def)
  then show ?thesis by (simp add: view_def long_message_def test_glib_def)
qed

theorem long_message_lost_witness:
  "(\<exists>c'. send_message test_glib (Some long_message) (test_sender []) = Done (True, c')
      \<and> sent c' 7 = [] @ take MAX_ENCODED_LEN (wire_text (SoftwareError (replicate 300 (CHR ''x'')))))
    \<and> (\<exists>s'. io_handler test_glib list_queue alist_table 4
          (test_server (take MAX_ENCODED_LEN (wire_text (SoftwareError (replicate 300 (CHR ''x'')))))) = Done s'
      \<and> clients (abstraction test_glib list_queue alist_table s') = [4 \<mapsto> (1, 0)](4 := None)
      \<and> waiting (abstraction test_glib list_queue alist_table s') = [])"
proof -
  let ?n = "SoftwareError (replicate 300 (CHR ''x''))"
  let ?s = "test_server (take MAX_ENCODED_LEN (wire_text ?n))"
  have "braces (replicate k (CHR ''x'')) = 0 \<and> stays 2 (replicate k (CHR ''x''))" for k
    by (induction k) (simp_all add: brace_def)
  moreover have "nul_free (replicate k (CHR ''x''))" for k by (induction k) simp_all
  ultimately have n: "sendable ?n" by (simp add: sendable_def nesting_ok_def)
  have "length (concat (map escape_char (replicate k (CHR ''x'')))) = k" for k
    by (induction k) (simp_all add: escape_char_def)
  then have l: "length (wire_text ?n) = 355"
    unfolding wire_text_def wire_tree.simps wire_object_text message_member_text by (simp add: escape_char_def)
  have i: "inbox ?s 4 = take MAX_ENCODED_LEN (wire_text ?n)" by (simp add: test_server_def)
  have c: "clients (abstraction test_glib list_queue alist_table ?s) 4 \<noteq> None" by (simp add: test_abstraction)
  show ?thesis using long_message_lost[OF test_sender_ready _ long_view n _ _ test_libraries test_server_ok c i, of "[]"] l
    unfolding test_abstraction by (simp add: MAX_ENCODED_LEN_def MAX_MSG_LEN_def)
qed

section \<open>Keep-alives\<close>

lemma keep_alive_text: "keep_alive_msg = wire_text Alive"
  unfolding wire_text_def wire_tree.simps wire_object_text keep_alive_msg_def by (simp add: escape_char_def)

text \<open>The text that the timer sends by hand is the text that the encoder makes of a keep-alive
  message: for the other side \<open>send_keep_alive\<close> is \<open>send_message\<close> of such a message.\<close>

theorem keep_alive_is_message:
  assumes "sender_ready F s" and "writes s = []" and "view G m = Some Alive"
  shows "\<exists>s1 s2. send_keep_alive s = Done s1 \<and> send_message G (Some m) s = Done (True, s2)
    \<and> sent s1 = sent s2 \<and> sent s1 (sending_fd s) = sent s (sending_fd s) @ wire_text Alive
    \<and> sender_ready F s1 \<and> sender_ready F s2"
proof -
  have l: "length (wire_text Alive) \<le> MAX_ENCODED_LEN"
    unfolding keep_alive_text[symmetric] by (simp add: keep_alive_msg_def MAX_ENCODED_LEN_def MAX_MSG_LEN_def)
  have "send_keep_alive s = Done (transmitted (wire_text Alive) s)"
    using send_encoded_ready[OF assms(1,2), of keep_alive_msg] l
    by (simp add: send_keep_alive_def keep_alive_text)
  moreover obtain s2 where "send_message G (Some m) s = Done (True, s2)" "sender_ready F s2"
    "sent s2 = (sent s)(sending_fd s := sent s (sending_fd s) @ wire_text Alive)"
    using message_written[OF assms] by (auto simp: escaped_def MAX_MSG_LEN_def)
  ultimately show ?thesis using assms(1) by (auto simp: transmitted_def sender_ready_def)
qed

theorem keep_alive_is_message_witness:
  "\<exists>s1 s2. send_keep_alive (test_sender []) = Done s1
    \<and> send_message test_glib (Some \<lparr>mtype = KEEP_ALIVE, mdata = Software None\<rparr>) (test_sender []) = Done (True, s2)
    \<and> sent s1 = sent s2 \<and> sent s1 7 = [] @ wire_text Alive \<and> sender_ready [] s1 \<and> sender_ready [] s2"
  using keep_alive_is_message[OF test_sender_ready, of "[]" test_glib "\<lparr>mtype = KEEP_ALIVE, mdata = Software None\<rparr>"]
  by (simp add: view_def)

section \<open>Errors of the client\<close>

text \<open>Nothing is sent, and false returned, when there is no text to send: for a NULL message, and
  whenever memory runs out while the message is built. The client stays ready as far as its
  mutex goes, and what was in its store before is still there.\<close>

theorem unbuilt_message_not_sent:
  assumes "forest (json_heap s) F" and "message_ok G m" and "build_message G m (json_heap s) = Some (None, h)"
  shows "send_message G (Some m) s = Done (False, s\<lparr>json_heap := h\<rparr>) \<and> (\<exists>L. forest h (L @ F))
    \<and> send_message G None s = Done (False, s)"
proof -
  obtain L where "forest h (L @ F)" using build_message_safe[OF assms(1,2)] assms(3) by auto
  moreover have "encode_message G (Some m) (Some None) (json_heap s) = Some (- 1, Some None, h)"
    using assms(3) by (simp add: encode_message_def)
  ultimately show ?thesis by (auto simp: send_message_def encode_message_def)
qed

theorem unbuilt_message_not_sent_witness:
  "send_message test_glib (Some valve_message) ((test_sender [])\<lparr>json_heap := empty_heap [False]\<rparr>)
      = Done (False, ((test_sender [])\<lparr>json_heap := empty_heap [False]\<rparr>)\<lparr>json_heap := empty_heap []\<rparr>)
    \<and> (\<exists>L. forest (empty_heap []) (L @ []))
    \<and> send_message test_glib None ((test_sender [])\<lparr>json_heap := empty_heap [False]\<rparr>) = Done (False, (test_sender [])\<lparr>json_heap := empty_heap [False]\<rparr>)"
proof (rule unbuilt_message_not_sent)
  show "forest (json_heap ((test_sender [])\<lparr>json_heap := empty_heap [False]\<rparr>)) []" using empty_heap_forest by simp
  show "message_ok test_glib valve_message" by (simp add: message_ok_def valve_view)
  show "build_message test_glib valve_message (json_heap ((test_sender [])\<lparr>json_heap := empty_heap [False]\<rparr>)) = Some (None, empty_heap [])"
    by (simp add: build_message_def cJSON_CreateNumber_def create_def New_Item_def empty_heap_def)
qed

text \<open>An error of \<open>pthread_mutex_lock\<close> is not noticed, since it answers an error number and is
  compared with -1: the message is written without the mutex, which is then unlocked although
  nobody holds it.\<close>

theorem lock_error_unnoticed:
  assumes "fd_locks s = r # rs" and "0 < r" and "\<not> fd_mux s"
  shows "send_encoded_message t s = Undef"
  using assms by (auto simp: send_encoded_message_def lock_fd_def write_fd_def and_run_def Let_def split: list.splits)

theorem lock_error_unnoticed_witness:
  "send_encoded_message ''{}'' ((test_sender [])\<lparr>fd_locks := [22]\<rparr>) = Undef"
  by (rule lock_error_unnoticed[of _ 22 "[]"]) (simp_all add: test_sender_def)

section \<open>Starting and stopping the client\<close>

text \<open>\<open>start_sending\<close> succeeds exactly if the kernel gives a socket, the connection and a timer,
  which then fires every \<open>KEEP_ALIVE_INTERVAL\<close> seconds; when the connection fails, the socket
  stays open with nobody to close it but \<open>stop_sending\<close>.\<close>

theorem start_sending_paths:
  "(fst (start_sending fd con tc ts s) \<longleftrightarrow> fd \<noteq> - 1 \<and> con \<noteq> - 1 \<and> tc = 0 \<and> ts = 0)
    \<and> (fst (start_sending fd con tc ts s) \<longrightarrow> (\<exists>spec. send_timer (snd (start_sending fd con tc ts s)) = Some spec
        \<and> firings n spec = map (\<lambda>k. (int k + 1) * KEEP_ALIVE_INTERVAL) [0..<n]))
    \<and> sending_fd (snd (start_sending fd con tc ts s)) = fd
    \<and> closed_fds (snd (start_sending fd con tc ts s)) = closed_fds s"
proof -
  have "fst (start_sending fd con tc ts s) \<longleftrightarrow> fd \<noteq> - 1 \<and> con \<noteq> - 1 \<and> tc = 0 \<and> ts = 0"
    by (simp add: start_sending_def create_timer_def Let_def)
  moreover have "\<exists>spec. send_timer (snd (start_sending fd con tc ts s)) = Some spec
        \<and> firings n spec = map (\<lambda>k. (int k + 1) * KEEP_ALIVE_INTERVAL) [0..<n]"
    if h: "fst (start_sending fd con tc ts s)"
  proof -
    obtain spec where spec: "create_timer tc ts KEEP_ALIVE_INTERVAL = (True, Some spec)"
      using h by (auto simp: start_sending_def create_timer_def Let_def split: if_splits)
    then have "send_timer (snd (start_sending fd con tc ts s)) = Some spec"
      using h by (auto simp: start_sending_def Let_def split: if_splits)
    moreover have "KEEP_ALIVE_INTERVAL \<noteq> 0" by (simp add: KEEP_ALIVE_INTERVAL_def)
    ultimately show ?thesis using timer_fires[OF spec] by blast
  qed
  moreover have "sending_fd (snd (start_sending fd con tc ts s)) = fd"
    "closed_fds (snd (start_sending fd con tc ts s)) = closed_fds s"
    by (simp_all add: start_sending_def create_timer_def Let_def)
  ultimately show ?thesis by blast
qed

theorem start_sending_paths_witness:
  "sending_fd (snd (start_sending 7 (- 1) 0 0 (test_sender []))) = 7 \<and> \<not> fst (start_sending 7 (- 1) 0 0 (test_sender []))
    \<and> fst (start_sending 7 0 0 0 (test_sender []))
    \<and> (\<exists>spec. send_timer (snd (start_sending 7 0 0 0 (test_sender []))) = Some spec
        \<and> firings 2 spec = map (\<lambda>k. (int k + 1) * KEEP_ALIVE_INTERVAL) [0..<2])"
  using start_sending_paths[of 7 "- 1" 0 0 "test_sender []" 0] start_sending_paths[of 7 0 0 0 "test_sender []" 2] by simp

abbreviation disarmed :: itimerspec where
  "disarmed \<equiv> \<lparr>interval_sec = 0, interval_nsec = 0, value_sec = 0, value_nsec = 0\<rparr>"

lemma disarmed_fires: "firings n disarmed = []"
  by (cases n) simp_all

lemma stop_ready:
  assumes "sender_ready F s"
  shows "stop_sending settime s = Done (s\<lparr>send_timer := if settime = 0 then Some disarmed else send_timer s,
    closed_fds := closed_fds s @ [sending_fd s], sending_fd := - 1, fd_mux := False, fd_mux_destroyed := True\<rparr>)"
  using assms by (cases s; cases "settime = 0") (simp_all add: stop_sending_def stop_timer_def lock_fd_def sender_ready_def Let_def)

text \<open>C35: \<open>stop_sending\<close> closes the connection, once, and destroys the mutex, which nothing
  initialises again: from then on, even after a \<open>start_sending\<close> that succeeds, to send a message
  or a keep-alive is to lock a destroyed mutex, and so is to stop again. The timer is stopped when
  \<open>timer_settime\<close> allows it.\<close>

theorem stopped_for_good:
  assumes "sender_ready F s" and "view G m = Some n" and "notice_ok n" and "length (wire_text n) + 2 \<le> 2147483647"
  shows "\<exists>s'. stop_sending settime s = Done s' \<and> closed_fds s' = closed_fds s @ [sending_fd s] \<and> sending_fd s' = - 1
    \<and> (settime = 0 \<longrightarrow> (\<exists>spec. send_timer s' = Some spec \<and> firings 1 spec = []))
    \<and> send_message G (Some m) (snd (start_sending fd con tc ts s')) = Undef
    \<and> send_keep_alive (snd (start_sending fd con tc ts s')) = Undef
    \<and> stop_sending settime (snd (start_sending fd con tc ts s')) = Undef"
proof -
  obtain s' where s': "stop_sending settime s = Done s'" "closed_fds s' = closed_fds s @ [sending_fd s]" "sending_fd s' = - 1"
    "fd_mux_destroyed s'" "json_heap s' = json_heap s"
    "settime = 0 \<longrightarrow> (\<exists>spec. send_timer s' = Some spec \<and> firings 1 spec = [])"
    by (intro that[OF stop_ready[OF assms(1)]]) (use assms(1) in \<open>auto simp: disarmed_fires sender_ready_def\<close>)
  let ?t = "snd (start_sending fd con tc ts s')"
  have t: "fd_mux_destroyed ?t" "json_heap ?t = json_heap s"
    using s'(4,5) by (simp_all add: start_sending_def create_timer_def Let_def)
  then have e: "send_encoded_message x (?t\<lparr>json_heap := h\<rparr>) = Undef" "send_encoded_message x ?t = Undef" for x h
    by (simp_all add: send_encoded_message_def lock_fd_def and_run_def)
  have "forest (json_heap ?t) F" "hmem (json_heap ?t) = []" using assms(1) t by (simp_all add: sender_ready_def)
  from encode_ok[OF this assms(2-4), of None] have "send_message G (Some m) ?t = Undef" by (auto simp: send_message_def e)
  moreover have "send_keep_alive ?t = Undef" by (simp add: send_keep_alive_def e and_run_def)
  moreover have "stop_sending settime ?t = Undef"
    using t(1) by (simp add: stop_sending_def lock_fd_def and_run_def Let_def split: option.splits)
  ultimately show ?thesis using s' by blast
qed

theorem stopped_for_good_witness:
  "\<exists>s'. stop_sending 0 (test_sender []) = Done s' \<and> closed_fds s' = [] @ [7] \<and> sending_fd s' = - 1
    \<and> (\<exists>spec. send_timer s' = Some spec \<and> firings 1 spec = [])
    \<and> send_message test_glib (Some valve_message) (snd (start_sending 7 0 0 0 s')) = Undef
    \<and> send_keep_alive (snd (start_sending 7 0 0 0 s')) = Undef
    \<and> stop_sending 0 (snd (start_sending 7 0 0 0 s')) = Undef"
proof -
  have n: "notice_ok (ValveError 42 ''hot'')" by (simp add: INT_MIN_def INT_MAX_def)
  have "length (escaped (message_string (ValveError 42 ''hot''))) \<le> MAX_MSG_LEN"
    by (simp add: MAX_MSG_LEN_def escaped_def escape_char_def)
  from stopped_for_good[OF test_sender_ready valve_view n uncut(2)[OF n this], of 0 "[]" 7 0 0 0]
  show ?thesis unfolding test_sender_fields by blast
qed

section \<open>Keep-alives keep a client alive\<close>

text \<open>C34: A client whose keep-alive has been handled is not reported as silent by a check during
  the next 30 seconds, three times the interval at which \<open>start_sending\<close> lets it send them.\<close>

theorem keep_alive_prevents_timeout:
  assumes "libraries_ok G Q H" and "server_ok H s" and "calm s" and "json_mem s = []"
    and "inbox s k = keep_alive_msg @ rest" and "clients (abstraction G Q H s) k = Some (ad, seen)"
    and "now \<noteq> - 1" and "now \<le> clock s + 3 * KEEP_ALIVE_INTERVAL"
  shows "\<exists>s1 s2 ks. io_handler G Q H k s = Done s1 \<and> iter_keep_alives G Q H (s1\<lparr>clock := now\<rparr>) = Done s2
    \<and> k \<notin> set ks \<and> waiting (abstraction G Q H s2) = waiting (abstraction G Q H s)
      @ map (\<lambda>j. (Some (SoftwareError ''Connection timeout''), fst (the (clients (abstraction G Q H s1) j)), now)) ks"
proof -
  note l = assms(1)[unfolded libraries_ok_def]
  obtain s1 where s1: "io_handler G Q H k s = Done s1" "server_ok H s1" "calm s1"
    "abstraction G Q H s1 = receive G [] (clock s) (ending s k) k (abstraction G Q H s)"
    using io_handler_refines[OF assms(2,3), of Q G k] l assms(4) by auto
  have "stream (abstraction G Q H s) k = wire_text Alive @ rest"
    using assms(5) keep_alive_text by (simp add: abstraction_fields)
  from receive_message[OF _ _ assms(6) this, where G = G and now = "clock s" and e = "ending s k"] l s1(4)
  have a: "waiting (abstraction G Q H s1) = waiting (abstraction G Q H s)"
    "clients (abstraction G Q H s1) k = Some (ad, clock s)" by (simp_all add: sendable_def nesting_ok_def)
  have f: "server_ok H (s1\<lparr>clock := now\<rparr>)" "calm (s1\<lparr>clock := now\<rparr>)"
    "abstraction G Q H (s1\<lparr>clock := now\<rparr>) = abstraction G Q H s1"
    using s1(2,3) by (simp_all add: server_ok_def calm_def abstraction_def table_lookup_def queued_def cong: option.case_cong)
  obtain s2 ks where "iter_keep_alives G Q H (s1\<lparr>clock := now\<rparr>) = Done s2"
    "set ks = stale (abstraction G Q H s1) now"
    "abstraction G Q H s2 = (abstraction G Q H s1)\<lparr>waiting := waiting (abstraction G Q H s1)
        @ map (\<lambda>j. (Some (SoftwareError ''Connection timeout''), fst (the (clients (abstraction G Q H s1) j)), now)) ks\<rparr>"
    using iter_keep_alives_reports[OF f(1,2), of Q G] l assms(7) f(3) unfolding timeout_def by auto
  moreover have "k \<notin> stale (abstraction G Q H s1) now" using a(2) assms(8) by (simp add: stale_def KEEP_ALIVE_INTERVAL_def)
  ultimately show ?thesis using s1(1) a(1) by fastforce
qed

theorem keep_alive_prevents_timeout_witness:
  "\<exists>s1 s2 ks. io_handler test_glib list_queue alist_table 4 (test_server (keep_alive_msg @ [])) = Done s1
    \<and> iter_keep_alives test_glib list_queue alist_table (s1\<lparr>clock := 80\<rparr>) = Done s2
    \<and> 4 \<notin> set ks \<and> waiting (abstraction test_glib list_queue alist_table s2) = []
      @ map (\<lambda>j. (Some (SoftwareError ''Connection timeout''), fst (the (clients (abstraction test_glib list_queue alist_table s1) j)), 80)) ks"
proof -
  let ?s = "test_server (keep_alive_msg @ [])"
  have s: "json_mem ?s = []" "inbox ?s 4 = keep_alive_msg @ []" "clock ?s = 50" by (simp_all add: test_server_def)
  have c: "clients (abstraction test_glib list_queue alist_table ?s) 4 = Some (1, 0)" by (simp add: test_abstraction)
  show ?thesis using keep_alive_prevents_timeout[OF test_libraries test_server_ok s(1,2) c, of 80] s(3)
    unfolding test_abstraction by (simp add: KEEP_ALIVE_INTERVAL_def)
qed

end
