(* ===== verification/JsonMinify.thy ===== *)
theory JsonMinify
  imports JsonRoundtrip
begin

text \<open>
  \<open>cJSON_Minify\<close> of \<open>src/contrib/cJSON.c\<close>, which removes blanks and comments from a text in
  place. The text is a block with its terminating NUL; \<open>json\<close> is the rest of the block from the
  read pointer on, \<open>out\<close> what has been written at its start, and \<^const>\<open>None\<close> a read behind the
  block. A byte is written only where one has been read before, so what is still to be read is
  as it was.
\<close>

section \<open>The loops\<close>

fun skip_line_comment :: "bytes \<Rightarrow> bytes option" where
  "skip_line_comment [] = None"
| "skip_line_comment (c # json) = (if c \<noteq> NUL \<and> c \<noteq> CHR 0x0A then skip_line_comment json else Some (c # json))"

text \<open>Up to the end of the comment, or to the end of the text; \<open>json += 2\<close> comes after it.\<close>

fun skip_block_comment :: "bytes \<Rightarrow> bytes option" where
  "skip_block_comment [] = None"
| "skip_block_comment (c # json) =
     (if c = NUL then Some (c # json)
      else if c = CHR ''*'' then
        (case json of [] \<Rightarrow> None | d # _ \<Rightarrow> if d = CHR ''/'' then Some (c # json) else skip_block_comment json)
      else skip_block_comment json)"

text \<open>After the opening quote; the byte that ends the loop, a quote or the NUL, is copied too.\<close>

fun copy_literal :: "bytes \<Rightarrow> bytes \<Rightarrow> (bytes \<times> bytes) option" where
  "copy_literal out [] = None"
| "copy_literal out (c # json) =
     (if c \<noteq> NUL \<and> c \<noteq> QUOTE then
        (if c = BSLASH then (case json of [] \<Rightarrow> None | d # json' \<Rightarrow> copy_literal (out @ [c, d]) json')
         else copy_literal (out @ [c]) json)
      else Some (out @ [c], json))"

lemma skip_line_comment_length: "skip_line_comment s = Some t \<Longrightarrow> length t \<le> length s"
  by (induction s rule: skip_line_comment.induct) (auto split: if_splits)

lemma skip_block_comment_length: "skip_block_comment s = Some t \<Longrightarrow> length t \<le> length s"
  by (induction s rule: skip_block_comment.induct) (auto split: if_splits list.splits)

lemma copy_literal_lengths:
  "copy_literal out s = Some (out', t) \<Longrightarrow> length out' + length t = length out + length s \<and> length t < length s"
proof (induction out s rule: copy_literal.induct)
  case (2 out c json)
  consider "c = NUL \<or> c = QUOTE" | "c \<noteq> NUL" "c \<noteq> QUOTE" "c \<noteq> BSLASH"
    | d json' where "c = BSLASH" "json = d # json'" using "2.prems" by (cases json) (auto split: if_splits)
  then show ?case
  proof cases
    case 1
    then show ?thesis using "2.prems" by auto
  next
    case 2
    then show ?thesis using "2.IH"(2) "2.prems" by auto
  next
    case 3
    then have "length out' + length t = length (out @ [c, d]) + length json' \<and> length t < length json'"
      using "2.IH"(1)[of d json'] "2.prems" by simp
    then show ?thesis using 3 by simp
  qed
qed simp

definition minify_blank :: "char \<Rightarrow> bool" where
  "minify_blank c \<longleftrightarrow> c = CHR '' '' \<or> c = CHR 0x09 \<or> c = CHR 0x0D \<or> c = CHR 0x0A"

function minify_loop :: "bytes \<Rightarrow> bytes \<Rightarrow> bytes option" where
  "minify_loop out [] = None"
| "minify_loop out (c # json) =
     (if c = NUL then Some out
      else if minify_blank c then minify_loop out json
      else if c = CHR ''/'' \<and> nth_opt json 0 = Some (CHR ''/'') then
        (case skip_line_comment (c # json) of None \<Rightarrow> None | Some rest \<Rightarrow> minify_loop out rest)
      else if c = CHR ''/'' \<and> nth_opt json 0 = Some (CHR ''*'') then
        (case skip_block_comment (c # json) of None \<Rightarrow> None | Some rest \<Rightarrow>
           minify_loop out (drop 2 rest))
      else if c = QUOTE then
        (case copy_literal (out @ [c]) json of None \<Rightarrow> None | Some (out', rest) \<Rightarrow> minify_loop out' rest)
      else minify_loop (out @ [c]) json)"
  by pat_completeness auto
termination
  by (relation "measure (\<lambda>(out, json). length json)") (auto dest: copy_literal_lengths skip_line_comment_length skip_block_comment_length)


declare minify_loop.simps(2) [simp del]

text \<open>The write pointer never overtakes the read pointer.\<close>

lemma minify_length: "minify_loop out json = Some out' \<Longrightarrow> length out' + 1 \<le> length out + length json"
proof (induction out json rule: minify_loop.induct)
  case (2 out c json)
  note eq = minify_loop.simps(2)[of out c json]
  consider "c = NUL" | "c \<noteq> NUL" "minify_blank c"
    | "c \<noteq> NUL" "\<not> minify_blank c" "c = CHR ''/''" "nth_opt json 0 = Some (CHR ''/'')"
    | "c \<noteq> NUL" "\<not> minify_blank c" "c = CHR ''/''" "nth_opt json 0 = Some (CHR ''*'')"
    | "c \<noteq> NUL" "\<not> minify_blank c" "c = QUOTE"
    | "c \<noteq> NUL" "\<not> minify_blank c" "c \<noteq> QUOTE"
      "\<not> (c = CHR ''/'' \<and> (nth_opt json 0 = Some (CHR ''/'') \<or> nth_opt json 0 = Some (CHR ''*'')))" by blast
  then show ?case
  proof cases
    case 3
    then obtain r where r: "skip_line_comment (c # json) = Some r" "minify_loop out r = Some out'"
      using "2.prems" by (auto simp: minify_loop.simps(2) minify_blank_def split: option.splits)
    then show ?thesis using "2.IH"(2)[OF _ _ _ r(1)] 3 skip_line_comment_length[OF r(1)] by simp
  next
    case 4
    then obtain r where r: "skip_block_comment (c # json) = Some r" "minify_loop out (drop 2 r) = Some out'"
      using "2.prems" by (auto simp: minify_loop.simps(2) minify_blank_def split: option.splits)
    then show ?thesis using "2.IH"(3)[OF _ _ _ _ r(1)] 4 skip_block_comment_length[OF r(1)] by simp
  next
    case 5
    then obtain o1 r where r: "copy_literal (out @ [c]) json = Some (o1, r)" "minify_loop o1 r = Some out'"
      using "2.prems" by (auto simp: minify_loop.simps(2) split: option.splits)
    then show ?thesis using "2.IH"(4)[OF _ _ _ _ _ r(1)] 5 copy_literal_lengths[OF r(1)] by simp
  qed (use "2.prems" "2.IH"(1,5) in \<open>auto simp: eq minify_loop.simps(2)[of out NUL]\<close>)
qed simp

definition cJSON_Minify :: "bytes option \<Rightarrow> bytes option option" where
  "cJSON_Minify json = (case json of None \<Rightarrow> Some None
     | Some block \<Rightarrow> (case minify_loop [] block of None \<Rightarrow> None
         | Some out \<Rightarrow> Some (Some (out @ NUL # drop (length out + 1) block))))"

section \<open>Minifying printed texts\<close>

text \<open>What the loop does to the pieces of a printed text.\<close>

definition plain_char :: "char \<Rightarrow> bool" where
  "plain_char c \<longleftrightarrow> c \<noteq> NUL \<and> \<not> minify_blank c \<and> c \<noteq> CHR ''/'' \<and> c \<noteq> QUOTE"

lemma minify_NUL [simp]: "minify_loop out (NUL # json) = Some out"
  by (simp add: minify_loop.simps)

lemma minify_plain: "\<forall>c \<in> set s. plain_char c \<Longrightarrow> minify_loop out (s @ json) = minify_loop (out @ s) json"
  by (induction s arbitrary: out) (auto simp: minify_loop.simps(2) plain_char_def)

lemma minify_blanks: "\<forall>c \<in> set s. minify_blank c \<Longrightarrow> minify_loop out (s @ json) = minify_loop out json"
  by (induction s) (auto simp: minify_loop.simps(2) minify_blank_def)

text \<open>The form of a literal: no quote in it but behind a backslash.\<close>

lemma copy_escaped:
  assumes "nul_free s"
  shows "copy_literal out (concat (map escape_char s) @ QUOTE # json) = Some (out @ concat (map escape_char s) @ [QUOTE], json)"
  using assms
proof (induction s arbitrary: out)
  case (Cons c s)
  note hex = hex_digit_props(2,3)
  have n: "hex_digit (k mod 16) \<noteq> NUL" for k
    using hex_digit_props(1)[of "k mod 16"] by (auto simp: hex_val_def split: if_splits)
  show ?case
  proof (cases rule: escape_cases[of c])
    case plain
    then show ?thesis using Cons by simp
  next
    case (short e)
    then show ?thesis using Cons by simp
  next
    case hex
    then show ?thesis using Cons n hex_digit_props(2,3) by (simp add: u04x_def)
  qed
qed simp

lemma minify_string:
  assumes "c_string_opt s"
  shows "minify_loop out (render_string s @ json) = minify_loop (out @ render_string s) json"
proof (cases s)
  case None
  then show ?thesis by (simp add: render_string_def minify_loop.simps(2) minify_blank_def)
next
  case (Some t)
  then have "nul_free t" using assms by (simp add: c_string_opt_def)
  from copy_escaped[OF this, of "out @ [QUOTE]" json] show ?thesis
    using Some by (simp add: render_string_def minify_loop.simps(2) minify_blank_def)
qed

lemma number_char_plain: "is_number_char c \<Longrightarrow> plain_char c"
  by (auto simp: is_number_char_def is_digit_def plain_char_def minify_blank_def)

lemma int15_plain: "int15 d \<Longrightarrow> \<forall>c \<in> set (number_text d). plain_char c"
  using show_int_chars number_char_plain by (metis int15_text)

lemma tabs_blank: "\<forall>c \<in> set (tabs n). minify_blank c"
  by (simp add: tabs_def minify_blank_def)

lemma minify_brackets:
  "minify_loop out (CHR ''['' # json) = minify_loop (out @ ''['') json"
  "minify_loop out (CHR '']'' # json) = minify_loop (out @ '']'') json"
  "minify_loop out (CHR ''{'' # json) = minify_loop (out @ ''{'') json"
  "minify_loop out (CHR ''}'' # json) = minify_loop (out @ ''}'') json"
  "minify_loop out (CHR '','' # json) = minify_loop (out @ '','') json"
  "minify_loop out (CHR '':'' # json) = minify_loop (out @ '':'') json"
  "minify_loop out (CHR '' '' # json) = minify_loop out json"
  "minify_loop out (CHR 0x09 # json) = minify_loop out json"
  "minify_loop out (CHR 0x0A # json) = minify_loop out json"
  by (simp_all add: minify_loop.simps(2) minify_blank_def)

text \<open>An item whose formatted text is minified to its unformatted one, at any depths.\<close>

definition minified :: "nat \<Rightarrow> cJSON \<Rightarrow> bool" where
  "minified e i \<longleftrightarrow> (\<forall>d out json. minify_loop out (render True d i @ json) = minify_loop (out @ render False e i) json)"

lemma minify_elements:
  "\<forall>i \<in> set is. minified e i \<Longrightarrow>
    minify_loop out (render_elements True d is @ json) = minify_loop (out @ render_elements False e is) json"
  by (induction "is" arbitrary: out) (auto simp: minified_def minify_brackets)

lemma minify_members:
  "\<forall>i \<in> set is. minified e i \<and> named i \<Longrightarrow>
    minify_loop out (render_members True d is @ json) = minify_loop (out @ render_members False e is) json"
proof (induction "is" arbitrary: out)
  case (Cons i "is")
  have k: "c_string_opt (ckey i)" using Cons.prems by (auto simp: named_def c_string_opt_def split: option.splits)
  have m: "minify_loop o' (render True d i @ t) = minify_loop (o' @ render False e i) t" for o' t
    using Cons.prems by (simp add: minified_def)
  show ?case using Cons minify_string[OF k] m minify_blanks[OF tabs_blank] by (auto simp: minify_brackets)
qed simp

lemma minify_render: "canonical n i \<Longrightarrow> minified e i"
proof (induction n i arbitrary: e rule: canonical.induct)
  case (1 n t vs vi vd k ch e)
  consider "t = cJSON_Number" "int15 vd" | s where "t = cJSON_String" "vs = Some s" "nul_free s"
    | "t = cJSON_Array" "\<forall>i \<in> set ch. minified (e + 1) i"
    | "t = cJSON_Object" "\<forall>i \<in> set ch. minified (e + 1) i \<and> named i"
    | "t = cJSON_NULL \<or> t = cJSON_False \<or> t = cJSON_True"
    using "1.prems" "1.IH" by (auto split: if_splits option.splits)
  then show ?case
  proof cases
    case 1
    then show ?thesis using minify_plain[OF int15_plain] by (simp add: minified_def)
  next
    case 2
    then show ?thesis using minify_string[of vs] by (simp add: minified_def c_string_opt_def)
  next
    case 3
    then show ?thesis using minify_elements[of ch "e + 1"] by (simp add: minified_def minify_brackets)
  next
    case 4
    have t: "minify_loop out (tabs m @ json) = minify_loop out json" for out m json by (rule minify_blanks[OF tabs_blank])
    show ?thesis using 4 minify_members[of ch "e + 1"] by (simp add: minified_def minify_brackets t)
  next
    case 5
    then show ?thesis by (auto simp: minified_def minify_loop.simps(2) minify_blank_def)
  qed
qed

text \<open>C21: Minifying the formatted text of an item gives its unformatted text: what \<open>cJSON_Print\<close>
  has written for a canonical item, \<open>cJSON_Minify\<close> turns into what \<open>cJSON_PrintUnformatted\<close>
  writes, without reading behind the block, which keeps its size.\<close>

theorem minify_unformats:
  assumes "canonical 1000 i" and "ckey i = None" and "length (render True 0 i) + 2 \<le> 2147483647"
  shows "\<exists>s s' r. cJSON_Print (Some i) [] = Printed s \<and> cJSON_PrintUnformatted (Some i) [] = Printed s'
    \<and> cJSON_Minify (Some (s @ [NUL])) = Some (Some (s' @ NUL # r)) \<and> length (s' @ NUL # r) = length (s @ [NUL])"
proof -
  note p = canonical_printable[OF assms(1) disjI1[OF assms(2)]]
  have m: "minify_loop [] (render True 0 i @ [NUL]) = Some (render False 0 i)"
    using minify_render[OF assms(1), of 0] by (simp add: minified_def)
  have "length (render False 0 i) \<le> length (render True 0 i)" using minify_length[OF m] by simp
  then have "length (render False 0 i) + 2 \<le> 2147483647" using assms(3) by simp
  from print_ok[OF p this] print_ok[OF p assms(3)] show ?thesis using m minify_length[OF m]
    by (auto simp: cJSON_Print_def cJSON_PrintUnformatted_def cJSON_Minify_def)
qed

theorem minify_unformats_witness:
  "\<exists>s s' r. cJSON_Print (Some sample_tree) [] = Printed s \<and> cJSON_PrintUnformatted (Some sample_tree) [] = Printed s'
    \<and> cJSON_Minify (Some (s @ [NUL])) = Some (Some (s' @ NUL # r)) \<and> length (s' @ NUL # r) = length (s @ [NUL])"
  using minify_unformats[OF sample_tree_canonical] sample_tree_length by simp

section \<open>Texts that are not closed\<close>

text \<open>Where in its syntax a text ends, read from its start the way \<open>cJSON_Minify\<close> reads it: the star
  that opens a comment counts as the first half of its end.\<close>

datatype place = Outside | After_slash | In_line | In_block | After_star | In_string | After_backslash

fun step_place :: "place \<Rightarrow> char \<Rightarrow> place" where
  "step_place Outside c = (if c = CHR ''/'' then After_slash else if c = QUOTE then In_string else Outside)"
| "step_place After_slash c = (if c = CHR ''/'' then In_line else if c = CHR ''*'' then After_star
     else if c = QUOTE then In_string else Outside)"
| "step_place In_line c = (if c = CHR 0x0A then Outside else In_line)"
| "step_place In_block c = (if c = CHR ''*'' then After_star else In_block)"
| "step_place After_star c = (if c = CHR ''/'' then Outside else if c = CHR ''*'' then After_star else In_block)"
| "step_place In_string c = (if c = BSLASH then After_backslash else if c = QUOTE then Outside else In_string)"
| "step_place After_backslash c = In_string"

abbreviation places :: "place \<Rightarrow> bytes \<Rightarrow> place" where
  "places \<equiv> foldl step_place"

lemma nul_free_Cons: "nul_free (c # s) \<longleftrightarrow> c \<noteq> NUL \<and> nul_free s"
  by auto

lemma skip_line_places:
  "nul_free s \<Longrightarrow> \<exists>t. skip_line_comment (s @ [NUL]) = Some (t @ [NUL]) \<and> nul_free t \<and> length t \<le> length s
    \<and> (places In_line s = places Outside t \<or> t = [] \<and> places In_line s = In_line)"
proof (induction s)
  case (Cons c s)
  show ?case
  proof (cases "c = CHR 0x0A")
    case True
    then show ?thesis using Cons.prems by (intro exI[of _ "c # s"]) simp
  next
    case False
    then show ?thesis using Cons by fastforce
  qed
qed simp

lemma after_star: "s = [] \<or> hd s \<noteq> CHR ''/'' \<Longrightarrow> s \<noteq> [] \<Longrightarrow> places After_star s = places In_block s"
  by (cases s) auto

lemma skip_block_places:
  "nul_free s \<Longrightarrow>
    (\<exists>t. skip_block_comment (s @ [NUL]) = Some (''*/'' @ t @ [NUL]) \<and> nul_free t \<and> length t < length s
      \<and> places In_block s = places Outside t)
    \<or> skip_block_comment (s @ [NUL]) = Some [NUL] \<and> places In_block s \<in> {In_block, After_star}"
proof (induction s)
  case (Cons c s)
  note IH = Cons.IH[OF Cons.prems[unfolded nul_free_Cons, THEN conjunct2]]
  have c: "c \<noteq> NUL" using Cons.prems by simp
  consider "c \<noteq> CHR ''*''" | "c = CHR ''*''" "s = []" | t where "c = CHR ''*''" "s = CHR ''/'' # t"
    | d t where "c = CHR ''*''" "s = d # t" "d \<noteq> CHR ''/''" by (cases s) auto
  then show ?case
  proof cases
    case 1
    then show ?thesis using IH c by fastforce
  next
    case 4
    then have "places In_block (c # s) = places In_block s" using after_star[of s] by simp
    moreover have "skip_block_comment ((c # s) @ [NUL]) = skip_block_comment (s @ [NUL])" using 4 c by simp
    ultimately show ?thesis using IH by (auto simp del: skip_block_comment.simps foldl_Cons intro: less_SucI)
  qed (use Cons.prems in auto)
qed simp

lemma copy_literal_places:
  "nul_free s \<Longrightarrow>
    (\<exists>out' t. copy_literal out (s @ [NUL]) = Some (out', t @ [NUL]) \<and> nul_free t \<and> length t < length s
      \<and> places In_string s = places Outside t)
    \<or> (\<forall>out' t. copy_literal out (s @ [NUL]) = Some (out', t) \<longrightarrow> t = []) \<and> places In_string s \<in> {In_string, After_backslash}"
proof (induction "length s" arbitrary: s out rule: less_induct)
  case less
  show ?case
  proof (cases s)
    case (Cons c s1)
    have c: "c \<noteq> NUL" "nul_free s1" using less.prems Cons by auto
    consider "c = QUOTE" | "c \<noteq> QUOTE" "c \<noteq> BSLASH" | "c = BSLASH" "s1 = []" | d s2 where "c = BSLASH" "s1 = d # s2"
      by (cases s1) auto
    then show ?thesis
    proof cases
      case 2
      then show ?thesis using less.hyps[of s1 "out @ [c]"] Cons c by fastforce
    next
      case 4
      then show ?thesis using less.hyps[of s2 "out @ [c, d]"] Cons c by fastforce
    qed (use Cons c in auto)
  qed simp
qed

lemma minify_places:
  "nul_free t \<Longrightarrow> minify_loop out (t @ [NUL]) = None
    \<longleftrightarrow> places Outside t \<in> {In_block, After_star, In_string, After_backslash}"
proof (induction "length t" arbitrary: t out rule: less_induct)
  case less
  note IH = less.hyps
  show ?case
  proof (cases t)
    case (Cons c s)
    have c: "c \<noteq> NUL" "nul_free s" using less.prems Cons by auto
    consider (line) r where "c = CHR ''/''" "s = CHR ''/'' # r" | (block) r where "c = CHR ''/''" "s = CHR ''*'' # r"
      | (slash) "c = CHR ''/''" "\<not> (\<exists>r. s = CHR ''/'' # r \<or> s = CHR ''*'' # r)" | (lit) "c = QUOTE"
      | (other) "c \<noteq> CHR ''/''" "c \<noteq> QUOTE" by blast
    then show ?thesis
    proof cases
      case line
      obtain u where u: "skip_line_comment (r @ [NUL]) = Some (u @ [NUL])" "nul_free u" "length u \<le> length r"
        "places In_line r = places Outside u \<or> u = [] \<and> places In_line r = In_line"
        using skip_line_places[of r] line c(2) by auto
      have "minify_loop out (t @ [NUL]) = minify_loop out (u @ [NUL])"
        using u(1) line Cons by (simp add: minify_loop.simps(2) minify_blank_def)
      then show ?thesis using IH[of u out] u Cons line by auto
    next
      case block
      have b: "places Outside t = places In_block (CHR ''*'' # r)" using Cons block by simp
      have m: "minify_loop out (t @ [NUL]) = (case skip_block_comment ((CHR ''*'' # r) @ [NUL]) of None \<Rightarrow> None
          | Some rest \<Rightarrow> minify_loop out (drop 2 rest))"
        using Cons block by (simp add: minify_loop.simps(2) minify_blank_def)
      show ?thesis using skip_block_places[of "CHR ''*'' # r"]
      proof
        show "nul_free (CHR ''*'' # r)" using c block by simp
        assume "\<exists>u. skip_block_comment ((CHR ''*'' # r) @ [NUL]) = Some (''*/'' @ u @ [NUL]) \<and> nul_free u
            \<and> length u < length (CHR ''*'' # r) \<and> places In_block (CHR ''*'' # r) = places Outside u"
        then obtain u where u: "skip_block_comment ((CHR ''*'' # r) @ [NUL]) = Some (''*/'' @ u @ [NUL])" "nul_free u"
          "length u < length (CHR ''*'' # r)" "places In_block (CHR ''*'' # r) = places Outside u" by blast
        have "length u < length t" using u(3) Cons block by simp
        then show ?thesis unfolding b m u(1,4) using IH[OF _ u(2), of out] by simp
      next
        assume "skip_block_comment ((CHR ''*'' # r) @ [NUL]) = Some [NUL] \<and> places In_block (CHR ''*'' # r) \<in> {In_block, After_star}"
        then show ?thesis unfolding b m by auto
      qed
    next
      case slash
      then have "minify_loop out (t @ [NUL]) = minify_loop (out @ [c]) (s @ [NUL])"
        using Cons by (cases s) (auto simp: minify_loop.simps(2) minify_blank_def)
      moreover have "places Outside t = places Outside s \<or> s = [] \<and> places Outside t = After_slash"
        using Cons slash by (cases s) auto
      ultimately show ?thesis using IH[of s "out @ [c]"] Cons c(2) by auto
    next
      case lit
      have m: "minify_loop out (t @ [NUL]) = (case copy_literal (out @ [c]) (s @ [NUL]) of None \<Rightarrow> None | Some (out', rest) \<Rightarrow> minify_loop out' rest)"
        using Cons lit by (simp add: minify_loop.simps(2) minify_blank_def)
      have b: "places Outside t = places In_string s" using Cons lit by simp
      show ?thesis using copy_literal_places[OF c(2), of "out @ [c]"]
      proof
        assume "\<exists>out' u. copy_literal (out @ [c]) (s @ [NUL]) = Some (out', u @ [NUL]) \<and> nul_free u \<and> length u < length s
          \<and> places In_string s = places Outside u"
        then obtain out' u where u: "copy_literal (out @ [c]) (s @ [NUL]) = Some (out', u @ [NUL])" "nul_free u" "length u < length s"
          "places In_string s = places Outside u" by blast
        then show ?thesis unfolding b m using IH[of u out'] Cons by simp
      qed (auto simp: b m split: option.splits)
    next
      case other
      then have "minify_loop out (t @ [NUL]) = minify_loop (if minify_blank c then out else out @ [c]) (s @ [NUL])"
        using Cons c(1) by (simp add: minify_loop.simps(2))
      then show ?thesis using IH[of s] Cons c(2) other by simp
    qed
  qed (simp add: minify_loop.simps(2))
qed

text \<open>C38: \<open>cJSON_Minify\<close> steps over the terminating NUL and reads behind the block exactly for the
  texts that end inside a string (also right after its backslash) or inside a block comment;
  a line comment that is not closed is harmless. The star that opens a comment may also close
  it: \<open>/*/\<close> counts as a whole comment.\<close>

theorem minify_overreads:
  assumes "nul_free t"
  shows "cJSON_Minify (Some (t @ [NUL])) = None
    \<longleftrightarrow> foldl step_place Outside t \<in> {In_block, After_star, In_string, After_backslash}"
  using minify_places[OF assms, of "[]"] by (auto simp: cJSON_Minify_def split: option.splits)

theorem minify_overreads_witness:
  "cJSON_Minify (Some (''1/*a*'' @ [NUL])) = None \<and> cJSON_Minify (Some ([QUOTE, CHR ''a'', BSLASH, QUOTE] @ [NUL])) = None
    \<and> cJSON_Minify (Some (''1//a'' @ [NUL])) \<noteq> None \<and> cJSON_Minify (Some (''/*/1'' @ [NUL])) \<noteq> None"
  using minify_overreads[of "''1/*a*''"] minify_overreads[of "[QUOTE, CHR ''a'', BSLASH, QUOTE]"]
    minify_overreads[of "''1//a''"] minify_overreads[of "''/*/1''"]
  by simp

end
