(* ===== verification/HeapCopy.thy ===== *)
theory HeapCopy
  imports HeapTrees
begin

text \<open>
  \<open>cJSON_Duplicate\<close> of \<open>src/contrib/cJSON.c\<close> on the store, and that it makes a copy which shares
  nothing with the original, or leaves no block behind when memory runs out.
\<close>

section \<open>Duplicating an item\<close>

text \<open>A string field of the copy: \<open>put\<close> is the assignment; false without memory.\<close>

definition duplicate_string :: "addr option \<Rightarrow> (addr option \<Rightarrow> node \<Rightarrow> node) \<Rightarrow> addr \<Rightarrow> heap \<Rightarrow> (bool \<times> heap) option" where
  "duplicate_string p put a h = (case p of None \<Rightarrow> Some (True, h) | Some _ \<Rightarrow> do {
     s \<leftarrow> deref p h;
     (case cJSON_strdup s h of (q, h1) \<Rightarrow> do {
        h2 \<leftarrow> update a (put q) h1;
        Some (q \<noteq> None, h2) }) })"

text \<open>The label \<open>fail\<close>, once the new item exists.\<close>

definition duplicate_fail :: "addr \<Rightarrow> heap \<Rightarrow> (addr option \<times> heap) option" where
  "duplicate_fail newitem h = do { h1 \<leftarrow> cJSON_Delete (Some newitem) h; Some (None, h1) }"

text \<open>The function and its loop over the children: the new item, the last copied child (\<open>next\<close>)
  and the child to copy.\<close>

datatype duplicate_call = Duplicate "addr option" bool | Duplicate_children addr "addr option" "addr option"

partial_function (option) duplicate :: "duplicate_call \<Rightarrow> heap \<Rightarrow> (addr option \<times> heap) option" where
  "duplicate call h = (case call of
     Duplicate item recurse \<Rightarrow> (case item of None \<Rightarrow> Some (None, h) | Some i \<Rightarrow>
       (case New_Item h of (None, h1) \<Rightarrow> Some (None, h1) | (Some a, h1) \<Rightarrow> do {
          n \<leftarrow> nodes h1 i;
          h2 \<leftarrow> update a (\<lambda>m. m\<lparr>ntype := ntype n AND NOT cJSON_IsReference,
                  nvalueint := nvalueint n, nvaluedouble := nvaluedouble n\<rparr>) h1;
          (ok, h3) \<leftarrow> duplicate_string (nvaluestring n) (\<lambda>p m. m\<lparr>nvaluestring := p\<rparr>) a h2;
          (if \<not> ok then duplicate_fail a h3 else do {
            (ok, h4) \<leftarrow> (if nstring n \<noteq> None \<and> has_flag (ntype n) cJSON_StringIsConst
               then do { h4 \<leftarrow> update a (\<lambda>m. m\<lparr>nstring := nstring n\<rparr>) h3; Some (True, h4) }
               else duplicate_string (nstring n) (\<lambda>p m. m\<lparr>nstring := p\<rparr>) a h3);
            (if \<not> ok then duplicate_fail a h4
             else if \<not> recurse then Some (Some a, h4)
             else duplicate (Duplicate_children a None (nchild n)) h4) }) }))
   | Duplicate_children newitem next ch \<Rightarrow> (case ch of None \<Rightarrow> Some (Some newitem, h) | Some c \<Rightarrow> do {
       (newchild, h1) \<leftarrow> duplicate (Duplicate ch True) h;
       (case newchild of None \<Rightarrow> duplicate_fail newitem h1 | Some m \<Rightarrow> do {
          h2 \<leftarrow> (case next of None \<Rightarrow> update newitem (\<lambda>k. k\<lparr>nchild := Some m\<rparr>) h1
                 | Some x \<Rightarrow> suffix_object x m h1);
          n \<leftarrow> nodes h2 c;
          duplicate (Duplicate_children newitem (Some m) (nnext n)) h2 }) }))"

definition cJSON_Duplicate :: "addr option \<Rightarrow> bool \<Rightarrow> heap \<Rightarrow> (addr option \<times> heap) option" where
  "cJSON_Duplicate item recurse = duplicate (Duplicate item recurse)"

section \<open>The copy of a tree\<close>

text \<open>Copying one string of a childless item; \<open>which\<close> is true for its value, false for its name.\<close>

definition put_string :: "bool \<Rightarrow> addr option \<Rightarrow> node \<Rightarrow> node" where
  "put_string which p m = (if which then m\<lparr>nvaluestring := p\<rparr> else m\<lparr>nstring := p\<rparr>)"

lemma duplicate_string_forest:
  assumes F: "forest h (LT a t vs vi vd k [] # F)" and p: "string_at h str"
    and empty: "(if which then vs else k) = None"
  shows "(\<exists>h'. duplicate_string (map_option fst str) (put_string which) a h = Some (False, h')
        \<and> forest h' (LT a t vs vi vd k [] # F) \<and> hmem h \<noteq> [])
    \<or> (\<exists>h' str'. duplicate_string (map_option fst str) (put_string which) a h = Some (True, h')
        \<and> map_option snd str' = map_option snd str
        \<and> forest h' (LT a t (if which then str' else vs) vi vd (if which then k else str') [] # F)
        \<and> (hmem h = [] \<longrightarrow> hmem h' = []))"
proof (cases str)
  case None
  then show ?thesis using F empty by (cases which) (auto simp: duplicate_string_def)
next
  case (Some ps)
  then obtain q s where str: "str = Some (q, s)" and s: "strs h q = Some s" using p by (cases ps) (auto simp: string_at_def)
  let ?n = "lnode None (LT a t vs vi vd k []) []"
  have n: "nodes h a = Some ?n" "string_at h vs" "string_at h k" using F by (auto simp: forest_def)
  obtain ok m where m: "alloc (hmem h) = (ok, m)" by fastforce
  show ?thesis
  proof (cases ok)
    case False
    have "put_string which None ?n = ?n" using empty by (cases which) (simp_all add: put_string_def lnode_def)
    then have "duplicate_string (map_option fst str) (put_string which) a h = Some (False, h\<lparr>hmem := m\<rparr>)"
      using str s m False n(1) by (simp add: duplicate_string_def deref_def cJSON_strdup_def update_def fun_upd_idem)
    moreover have "hmem h \<noteq> []" using m False by auto
    ultimately show ?thesis using F by simp
  next
    case True
    define h' where "h' = h\<lparr>nodes := (nodes h)(a \<mapsto> put_string which (Some (brk h)) ?n),
      strs := (strs h)(brk h \<mapsto> s), brk := brk h + 1, hmem := m\<rparr>"
    let ?str = "Some (brk h, s)"
    define T' where "T' = LT a t (if which then ?str else vs) vi vd (if which then k else ?str) []"
    have d: "duplicate_string (map_option fst str) (put_string which) a h = Some (True, h')"
      using str s m True n(1) by (simp add: duplicate_string_def deref_def cJSON_strdup_def update_def h'_def)
    have fresh: "brk h \<notin> set (string_list vs)" "brk h \<notin> set (string_list k)" "a \<noteq> brk h"
      using forest_fresh(1,2)[OF F, of "brk h"] by auto
    have "string_at h' x" if "string_at h x" "brk h \<notin> set (string_list x)" for x
      using that by (auto simp: h'_def string_at_def string_list_def split: option.splits)
    then have l: "linked h' None [T']" using n fresh by (auto simp: T'_def h'_def put_string_def lnode_def string_at_def)
    have "separate [LT a t vs vi vd k []]" "owning [LT a t vs vi vd k []]"
      using F by (auto simp: forest_def separate_def)
    then have o: "separate [T']" "owning [T']" using empty fresh
      by (cases which; auto simp: T'_def separate_def string_list_def)+
    have a: "node_addrs [T'] = [a]" "node_addrs [LT a t vs vi vd k []] = [a]" by (simp_all add: T'_def)
    have s': "set (string_addrs [T']) = insert (brk h) (set (string_addrs [LT a t vs vi vd k []]))"
      using empty by (cases which) (auto simp: T'_def string_list_def)
    have "forest h' ([T'] @ F)"
      by (rule forest_frame[of h "[LT a t vs vi vd k []]"])
        (use F l o in \<open>simp_all add: a s' h'_def del: linked.simps node_addrs.simps string_addrs.simps owning.simps\<close>)
    then show ?thesis using d str m by (intro disjI2 exI[of _ h'] exI[of _ ?str]) (auto simp: h'_def T'_def)
  qed
qed

text \<open>\<open>inside F prev ts\<close>: the siblings \<open>ts\<close>, after the node \<open>prev\<close>, are part of a tree of \<open>F\<close>.\<close>

inductive inside :: "ltree list \<Rightarrow> addr option \<Rightarrow> ltree list \<Rightarrow> bool" for F where
  root: "x \<in> set F \<Longrightarrow> inside F None [x]"
| below: "inside F prev (LT a t vs vi vd k ch # ts) \<Longrightarrow> inside F None ch"
| beside: "inside F prev (LT a t vs vi vd k ch # ts) \<Longrightarrow> inside F (Some a) ts"

lemma inside_Cons: "inside F prev ts \<Longrightarrow> inside (y # F) prev ts"
  by (induction rule: inside.induct) (auto intro: inside.intros)

lemma inside_linked: "inside F prev ts \<Longrightarrow> forest h F \<Longrightarrow> linked h prev ts"
  by (induction rule: inside.induct) (auto simp: forest_def)

lemma inside_owning: "inside F prev ts \<Longrightarrow> owning F \<Longrightarrow> owning ts"
  by (induction rule: inside.induct) (auto simp: owning_all[of F])

text \<open>The item with its strings, still without children.\<close>

lemma put_string_fields: "(\<lambda>p m. m\<lparr>nvaluestring := p\<rparr>) = put_string True" "(\<lambda>p m. m\<lparr>nstring := p\<rparr>) = put_string False"
  by (simp_all add: put_string_def fun_eq_iff)

definition copied :: "(addr option \<times> heap) option \<Rightarrow> heap \<Rightarrow> cJSON \<Rightarrow> ltree list \<Rightarrow> bool" where
  "copied r h i F \<longleftrightarrow> (\<exists>h'. r = Some (None, h') \<and> forest h' F \<and> hmem h \<noteq> [])
    \<or> (\<exists>y h'. r = Some (Some (laddr y), h') \<and> forest h' (y # F) \<and> erase y = i \<and> (hmem h = [] \<longrightarrow> hmem h' = []))"

lemma duplicate_fail_forest:
  "forest h (x # F) \<Longrightarrow> \<exists>h'. duplicate_fail (laddr x) h = Some (None, h') \<and> forest h' F"
  using Delete_forest[of h "[]" x F] by (auto simp: duplicate_fail_def)

lemma copied_failI:
  "forest h (x # F) \<Longrightarrow> hmem h0 \<noteq> [] \<Longrightarrow> copied (duplicate_fail (laddr x) h) h0 i F"
  using duplicate_fail_forest by (force simp: copied_def)

lemma duplicate_item:
  assumes F: "forest h F" and x: "inside F prev (LT i t vs vi vd k ch # ts)"
    and flags: "\<not> has_flag t cJSON_IsReference" "\<not> has_flag t cJSON_StringIsConst"
    and rest: "\<And>h' a vs' k'. forest h' (LT a t vs' vi vd k' [] # F) \<Longrightarrow> map_option snd vs' = map_option snd vs
      \<Longrightarrow> map_option snd k' = map_option snd k \<Longrightarrow> (hmem h = [] \<Longrightarrow> hmem h' = [])
      \<Longrightarrow> copied (if \<not> recurse then Some (Some a, h') else duplicate (Duplicate_children a None (first ch)) h') h j F"
  shows "copied (duplicate (Duplicate (Some i) recurse) h) h j F"
proof (cases "alloc (hmem h)")
  case (Pair ok m)
  let ?n = "lnode prev (LT i t vs vi vd k ch) ts"
  let ?dup = "duplicate (Duplicate (Some i) recurse) h"
  show ?thesis
  proof (cases ok)
    case False
    then have "?dup = Some (None, h\<lparr>hmem := m\<rparr>)" "hmem h \<noteq> []"
      using Pair by (auto simp: duplicate.simps New_Item_def)
    then show ?thesis using F by (simp add: copied_def)
  next
    case True
    let ?a = "brk h" and ?T = "LT (brk h) t None vi vd None []"
    have t: "t AND NOT cJSON_IsReference = t" by (rule flag_off_on(2)) (use flags(1) in \<open>simp only: has_flag_def not_not\<close>)
    define h2 where "h2 = h\<lparr>brk := ?a + 1, hmem := m, nodes := (nodes h)(?a \<mapsto> lnode None ?T [])\<rparr>"
    have n: "nodes h i = Some ?n" "string_at h vs" "string_at h k" "i \<noteq> ?a"
      using inside_linked[OF x F] forest_fresh(3)[OF F, of ?a] by auto
    have h2: "forest h2 (?T # F)"
      using forest_leaf[OF F flags, of h2 ?a None vi vd] by (simp add: leaf_def h2_def)
    have dup: "?dup = do {
          (ok, h3) \<leftarrow> duplicate_string (map_option fst vs) (put_string True) ?a h2;
          (if \<not> ok then duplicate_fail ?a h3 else do {
            (ok, h4) \<leftarrow> duplicate_string (map_option fst k) (put_string False) ?a h3;
            (if \<not> ok then duplicate_fail ?a h4
             else if \<not> recurse then Some (Some ?a, h4)
             else duplicate (Duplicate_children ?a None (first ch)) h4) }) }"
      using Pair True n(1,4) flags(2) t
      by (simp add: duplicate.simps[of "Duplicate _ _"] New_Item_def update_def h2_def put_string_fields blank_node_def lnode_def
          cong: if_cong)
    have str: "string_at h' vs" "string_at h' k" if "forest h' (T # F)" for h' T
      using inside_linked[OF inside_Cons[OF x] that] by auto
    have m2: "hmem h = [] \<Longrightarrow> hmem h2 = []" using Pair by (auto simp: h2_def)
    from duplicate_string_forest[OF h2 str(1)[OF h2], where which = True]
    consider (failed) h3 where "duplicate_string (map_option fst vs) (put_string True) ?a h2 = Some (False, h3)"
        "forest h3 (?T # F)" "hmem h \<noteq> []"
      | (valued) h3 vs' where "duplicate_string (map_option fst vs) (put_string True) ?a h2 = Some (True, h3)"
        "map_option snd vs' = map_option snd vs" "forest h3 (LT ?a t vs' vi vd None [] # F)" "hmem h = [] \<longrightarrow> hmem h3 = []"
      using m2 by auto
    then show ?thesis
    proof cases
      case failed
      then show ?thesis unfolding dup using copied_failI[OF failed(2,3), of j] by simp
    next
      case (valued h3 vs')
      from duplicate_string_forest[OF valued(3) str(2)[OF valued(3)], where which = False]
      consider (failed) h4 where "duplicate_string (map_option fst k) (put_string False) ?a h3 = Some (False, h4)"
          "forest h4 (LT ?a t vs' vi vd None [] # F)" "hmem h \<noteq> []"
        | (named) h4 k' where "duplicate_string (map_option fst k) (put_string False) ?a h3 = Some (True, h4)"
          "map_option snd k' = map_option snd k" "forest h4 (LT ?a t vs' vi vd k' [] # F)" "hmem h = [] \<longrightarrow> hmem h4 = []"
        using valued(4) by auto
      then show ?thesis
      proof cases
        case failed
        then show ?thesis unfolding dup using valued(1) copied_failI[OF failed(2,3), of j] by simp
      next
        case (named h4 k')
        then show ?thesis unfolding dup using valued(1,2) rest[OF named(3)] by simp
      qed
    qed
  qed
qed

text \<open>Linking a copied child behind those copied before.\<close>

definition last_addr :: "ltree list \<Rightarrow> addr option" where
  "last_addr ts = (if ts = [] then None else Some (laddr (last ts)))"

text \<open>\<open>cJSON_AddItemToArray\<close> on the root of a tree; the loop of \<open>cJSON_Duplicate\<close> does the same with
  the last sibling at hand.\<close>

lemma AddItemToArray_forest:
  assumes F: "forest h (y # LT a t vs vi vd k ds # F)"
  shows "\<exists>h'. cJSON_AddItemToArray (Some a) (Some (laddr y)) h = Some h'
    \<and> forest h' (LT a t vs vi vd k (ds @ [y]) # F) \<and> hmem h' = hmem h"
proof -
  let ?T = "LT a t vs vi vd k ds" and ?T' = "LT a t vs vi vd k (ds @ [y])"
  have f: "linked h None [?T]" "linked h None [y]" "separate (y # ?T # F)" "owning (y # ?T # F)"
    using F unfolding forest_def by auto
  have sep: "separate ([y] @ [?T])" using f(3) separate_append[of "[y, ?T]" F] by simp
  then have sep': "separate ([?T] @ [y])" unfolding separate_append by blast
  from AddItemToArray_linked[OF f(1,2) sep', of a] obtain h' where
    add: "cJSON_AddItemToArray (Some a) (Some (laddr y)) h = Some h'" and l: "linked h' None [?T']"
    and eq: "strs h' = strs h" "brk h' = brk h" "hmem h' = hmem h"
      "\<forall>b. b \<notin> set (node_addrs ([?T] @ [y])) \<longrightarrow> nodes h' b = nodes h b"
    using sep by (auto simp: separate_append)
  have m: "mset (node_addrs [?T']) = mset (node_addrs [y, ?T])" "mset (string_addrs [?T']) = mset (string_addrs [y, ?T])"
    using addrs_append(1,2)[of "[y]" "[?T]"] by (simp_all add: ac_simps)
  have sets: "set (node_addrs [?T']) = set (node_addrs [y, ?T])" "set (string_addrs [?T']) = set (string_addrs [y, ?T])"
    using mset_eq_setD[OF m(1)] mset_eq_setD[OF m(2)] .
  have "forest h' ([?T'] @ F)"
  proof (rule forest_frame[of h "[y, ?T]"])
    show "separate [?T']" using sep mset_eq_imp_distinct_iff[OF m(1)] mset_eq_imp_distinct_iff[OF m(2)]
      by (simp add: separate_def)
    show "owning [?T']" using f(4) by (cases y) auto
    show "nodes h' b = nodes h b" if "b \<notin> set (node_addrs [y, ?T])" for b
      using that eq(4) addrs_append(1)[of "[y]" "[?T]"] by auto
  qed (use F l in \<open>simp_all add: sets eq del: linked.simps node_addrs.simps string_addrs.simps\<close>)
  then show ?thesis using add eq(3) by (intro exI[of _ h']) simp
qed

lemma link_child:
  assumes F: "forest h (y # LT a t vs vi vd k ds # F)"
  shows "\<exists>h'. (case last_addr ds of None \<Rightarrow> update a (\<lambda>k. k\<lparr>nchild := Some (laddr y)\<rparr>) h
        | Some x \<Rightarrow> suffix_object x (laddr y) h) = Some h'
    \<and> forest h' (LT a t vs vi vd k (ds @ [y]) # F) \<and> hmem h' = hmem h"
proof -
  have n: "nodes h a = Some (lnode None (LT a t vs vi vd k ds) [])" "linked h None ds" using F by (auto simp: forest_def)
  have "cJSON_AddItemToArray (Some a) (Some (laddr y)) h = (case last_addr ds of
      None \<Rightarrow> update a (\<lambda>k. k\<lparr>nchild := Some (laddr y)\<rparr>) h | Some x \<Rightarrow> suffix_object x (laddr y) h)"
  proof (cases ds)
    case (Cons c cs)
    then show ?thesis using n(1) last_sibling_linked[OF n(2)]
      by (simp add: cJSON_AddItemToArray_def lnode_def last_addr_def)
  qed (use n(1) in \<open>simp add: cJSON_AddItemToArray_def lnode_def last_addr_def\<close>)
  then show ?thesis using AddItemToArray_forest[OF F] by simp
qed

text \<open>The loop over the children.\<close>

lemma duplicate_children:
  assumes "inside F prev ts" and "owning ts" and "forest h (LT a t vs vi vd k ds # F)"
  shows "(\<exists>h'. duplicate (Duplicate_children a (last_addr ds) (first ts)) h = Some (None, h') \<and> forest h' F \<and> hmem h \<noteq> [])
    \<or> (\<exists>h' ys. duplicate (Duplicate_children a (last_addr ds) (first ts)) h = Some (Some a, h')
        \<and> forest h' (LT a t vs vi vd k (ds @ ys) # F) \<and> map erase ys = map erase ts \<and> (hmem h = [] \<longrightarrow> hmem h' = []))"
  using assms
proof (induction ts arbitrary: F prev h a t vs vi vd k ds rule: node_addrs.induct)
  case 1
  then show ?case by (auto simp: duplicate.simps[of "Duplicate_children _ _ _"])
next
  case (2 i t' vs' vi' vd' k' ch ts)
  let ?x = "LT i t' vs' vi' vd' k' ch" and ?T = "LT a t vs vi vd k ds"
  let ?run = "duplicate (Duplicate_children a (last_addr ds) (Some i)) h"
  have x: "inside (?T # F) prev (?x # ts)" by (rule inside_Cons[OF "2.prems"(1)])
  have "copied (duplicate (Duplicate (Some i) True) h) h (erase ?x) (?T # F)"
  proof (rule duplicate_item[OF "2.prems"(3) x])
    fix h' b vs1 k1
    assume h': "forest h' (LT b t' vs1 vi' vd' k1 [] # ?T # F)" and s: "map_option snd vs1 = map_option snd vs'"
      "map_option snd k1 = map_option snd k'" and m: "hmem h = [] \<Longrightarrow> hmem h' = []"
    have "owning ch" using "2.prems"(2) by simp
    from "2.IH"(1)[OF inside.below[OF x] this h'] show "copied (if \<not> True then Some (Some b, h')
        else duplicate (Duplicate_children b None (first ch)) h') h (erase ?x) (?T # F)"
    proof (elim disjE exE conjE, goal_cases)
      case (1 h'')
      then show ?thesis using m by (auto simp: copied_def last_addr_def)
    next
      case (2 h'' ys)
      then show ?thesis using m s
        by (auto simp: copied_def last_addr_def intro!: exI[of _ "LT b t' vs1 vi' vd' k1 ys"])
    qed
  qed (use "2.prems"(2) in simp_all)
  then consider (failed) h1 where "duplicate (Duplicate (Some i) True) h = Some (None, h1)" "forest h1 (?T # F)" "hmem h \<noteq> []"
    | (made) y h1 where "duplicate (Duplicate (Some i) True) h = Some (Some (laddr y), h1)" "forest h1 (y # ?T # F)"
      "erase y = erase ?x" "hmem h = [] \<longrightarrow> hmem h1 = []" by (auto simp: copied_def)
  then show ?case
  proof cases
    case failed
    then show ?thesis using duplicate_fail_forest[OF failed(2)]
      by (auto simp: duplicate.simps[of "Duplicate_children _ _ _"])
  next
    case (made y h1)
    obtain h2 where h2: "(case last_addr ds of None \<Rightarrow> update a (\<lambda>k. k\<lparr>nchild := Some (laddr y)\<rparr>) h1
        | Some x \<Rightarrow> suffix_object x (laddr y) h1) = Some h2" "forest h2 (LT a t vs vi vd k (ds @ [y]) # F)" "hmem h2 = hmem h1"
      using link_child[OF made(2)] by blast
    have "nodes h2 i = Some (lnode prev ?x ts)"
      using inside_linked[OF inside_Cons[OF "2.prems"(1)] h2(2)] by simp
    then have run: "?run = duplicate (Duplicate_children a (last_addr (ds @ [y])) (first ts)) h2"
      using made(1) h2(1) by (simp add: duplicate.simps[of "Duplicate_children a (last_addr ds) (Some i)"]) (simp add: last_addr_def lnode_def)
    have "owning ts" using "2.prems"(2) by simp
    from "2.IH"(2)[OF inside.beside[OF "2.prems"(1)] this h2(2)] show ?thesis
    proof (elim disjE exE conjE, goal_cases)
      case (1 h')
      then show ?thesis using made(4) h2(3) run by auto
    next
      case (2 h' ys)
      then show ?thesis using made(3,4) h2(3) run by (intro disjI2 exI[of _ h'] exI[of _ "y # ys"]) auto
    qed
  qed
qed

fun without_children :: "cJSON \<Rightarrow> cJSON" where
  "without_children (CJSON t vs vi vd k ch) = CJSON t vs vi vd k []"

lemma Duplicate_forest:
  assumes "forest h F" and "inside F prev (x # ts)"
  shows "(\<exists>h'. cJSON_Duplicate (Some (laddr x)) recurse h = Some (None, h') \<and> forest h' F \<and> hmem h \<noteq> [])
    \<or> (\<exists>y h'. cJSON_Duplicate (Some (laddr x)) recurse h = Some (Some (laddr y), h') \<and> forest h' (y # F)
        \<and> erase y = (if recurse then erase x else without_children (erase x)))"
proof -
  obtain i t vs vi vd k ch where x: "x = LT i t vs vi vd k ch" by (cases x)
  have o: "owning ch" "\<not> has_flag t cJSON_IsReference" "\<not> has_flag t cJSON_StringIsConst"
    using inside_owning[OF assms(2)] assms(1) by (auto simp: x forest_def)
  have "copied (duplicate (Duplicate (Some i) recurse) h) h (if recurse then erase x else without_children (erase x)) F"
  proof (rule duplicate_item[OF assms(1) assms(2)[unfolded x] o(2,3)])
    fix h' a vs' k'
    assume h': "forest h' (LT a t vs' vi vd k' [] # F)" and s: "map_option snd vs' = map_option snd vs"
      "map_option snd k' = map_option snd k" and m: "hmem h = [] \<Longrightarrow> hmem h' = []"
    show "copied (if \<not> recurse then Some (Some a, h') else duplicate (Duplicate_children a None (first ch)) h') h
      (if recurse then erase x else without_children (erase x)) F"
    proof (cases recurse)
      case False
      then show ?thesis using h' s m by (auto simp: copied_def x intro!: exI[of _ "LT a t vs' vi vd k' []"])
    next
      case True
      from duplicate_children[OF inside.below[OF assms(2)[unfolded x]] o(1) h'] show ?thesis
      proof (elim disjE exE conjE, goal_cases)
        case (2 h'' ys)
        then show ?thesis using True m s
          by (auto simp: copied_def last_addr_def x intro!: exI[of _ "LT a t vs' vi vd k' ys"])
      qed (use True m in \<open>auto simp: copied_def last_addr_def\<close>)
    qed
  qed
  then show ?thesis unfolding copied_def cJSON_Duplicate_def x ltree.sel by blast
qed

text \<open>C13: \<open>cJSON_Duplicate\<close> of an item anywhere in the store makes a new tree with the same types,
  values, names and, if asked to recurse, children, in blocks of its own: the trees that were
  in the store are as they were. When memory runs out it answers NULL and has freed the partial
  copy. It always returns.\<close>

theorem Duplicate_copies:
  assumes "forest h F" and "inside F prev (x # ts)"
  shows "(\<exists>h'. cJSON_Duplicate (Some (laddr x)) recurse h = Some (None, h') \<and> forest h' F \<and> hmem h \<noteq> [])
    \<or> (\<exists>y h'. cJSON_Duplicate (Some (laddr x)) recurse h = Some (Some (laddr y), h') \<and> forest h' (y # F)
        \<and> erase y = (if recurse then erase x else without_children (erase x)))"
  by (rule Duplicate_forest[OF assms])

theorem Duplicate_copies_witness:
  "\<exists>y h'. cJSON_Duplicate (Some 0) True sample_heap = Some (Some (laddr y), h') \<and> forest h' (y # sample_forest)
    \<and> erase y = CJSON 64 None 0 (Fin 0) None [CJSON 16 (Some ''a'') 0 (Fin 0) (Some ''k'') []]"
proof -
  have "inside sample_forest None [hd sample_forest]" by (rule inside.root) (simp add: sample_forest_def)
  from Duplicate_copies[OF sample_forest this, of True] show ?thesis
    by (simp add: sample_forest_def sample_heap_def)
qed

end
