(* ===== verification/HeapCompare.thy ===== *)
theory HeapCompare
  imports HeapCopy
begin

text \<open>
  \<open>cJSON_Compare\<close> of \<open>src/contrib/cJSON.c\<close> on the store, and that it decides whether two items
  denote the same JSON value.
\<close>

section \<open>Comparing two items\<close>

text \<open>The function, its loop over two arrays, and its loop over the members of an object, each of
  which is looked up in the other object and compared.\<close>

datatype compare_call = Compare "addr option" "addr option" | Compare_elements "addr option" "addr option"
  | Compare_members "addr option" addr

partial_function (option) compare_run :: "bool \<Rightarrow> compare_call \<Rightarrow> heap \<Rightarrow> bool option" where
  "compare_run case_sensitive call h = (case call of
     Compare a b \<Rightarrow> (case (a, b) of
       (Some i, Some j) \<Rightarrow> do {
         n \<leftarrow> nodes h i;
         m \<leftarrow> nodes h j;
         (let ty = ntype n AND 255 in
          if ty \<noteq> ntype m AND 255 \<or> ty = cJSON_Invalid then Some False
          else if ty \<notin> {cJSON_False, cJSON_True, cJSON_NULL, cJSON_Number, cJSON_String, cJSON_Raw, cJSON_Array, cJSON_Object}
          then Some False
          else if i = j then Some True
          else if ty \<in> {cJSON_False, cJSON_True, cJSON_NULL} then Some True
          else if ty = cJSON_Number then Some (deq (nvaluedouble n) (nvaluedouble m))
          else if ty \<in> {cJSON_String, cJSON_Raw} then do {
            s \<leftarrow> deref (nvaluestring n) h;
            t \<leftarrow> deref (nvaluestring m) h;
            Some (s \<noteq> None \<and> t \<noteq> None \<and> s = t) }
          else if ty = cJSON_Array then compare_run case_sensitive (Compare_elements (nchild n) (nchild m)) h
          else do {
            ok \<leftarrow> compare_run case_sensitive (Compare_members (nchild n) j) h;
            (if \<not> ok then Some False else compare_run case_sensitive (Compare_members (nchild m) i) h) }) }
     | _ \<Rightarrow> Some False)
   | Compare_elements a b \<Rightarrow> (case (a, b) of
       (Some i, Some j) \<Rightarrow> do {
         ok \<leftarrow> compare_run case_sensitive (Compare a b) h;
         (if \<not> ok then Some False
          else do {
            n \<leftarrow> nodes h i;
            m \<leftarrow> nodes h j;
            compare_run case_sensitive (Compare_elements (nnext n) (nnext m)) h }) }
     | _ \<Rightarrow> Some (a = b))
   | Compare_members a ob \<Rightarrow> (case a of
       None \<Rightarrow> Some True
     | Some i \<Rightarrow> do {
         n \<leftarrow> nodes h i;
         name \<leftarrow> deref (nstring n) h;
         b \<leftarrow> get_object_item_h (Some ob) name case_sensitive h;
         (if b = None then Some False
          else do {
            ok \<leftarrow> compare_run case_sensitive (Compare a b) h;
            (if \<not> ok then Some False else compare_run case_sensitive (Compare_members (nnext n) ob) h) }) }))"

definition cJSON_Compare :: "addr option \<Rightarrow> addr option \<Rightarrow> bool \<Rightarrow> heap \<Rightarrow> bool option" where
  "cJSON_Compare a b case_sensitive h = compare_run case_sensitive (Compare a b) h"

section \<open>The values that items denote\<close>

text \<open>An object is a map from names; names are compared by their bytes or by their lower case.\<close>

datatype json = JNull | JBool bool | JNumber double | JString bytes | JRaw bytes | JArray "json list"
  | JObject "int list \<Rightarrow> json option"

definition key_code :: "bool \<Rightarrow> bytes \<Rightarrow> int list" where
  "key_code case_sensitive k = map (\<lambda>c. if case_sensitive then int (code c) else tolower c) k"

definition item_key :: "bool \<Rightarrow> cJSON \<Rightarrow> int list" where
  "item_key case_sensitive i = key_code case_sensitive (case ckey i of None \<Rightarrow> [] | Some k \<Rightarrow> k)"

definition has_name :: "cJSON \<Rightarrow> bool" where
  "has_name i \<longleftrightarrow> (case ckey i of None \<Rightarrow> False | Some k \<Rightarrow> nul_free k)"

definition number_value :: "double \<Rightarrow> double" where
  "number_value d = (if d = NegZero then Fin 0 else d)"

fun meaning :: "bool \<Rightarrow> cJSON \<Rightarrow> json" where
  "meaning cs (CJSON t vs vi vd k ch) =
     (let ty = t AND 255 in
      if ty = cJSON_False then JBool False else if ty = cJSON_True then JBool True
      else if ty = cJSON_Number then JNumber (number_value vd)
      else if ty = cJSON_String then JString (case vs of None \<Rightarrow> [] | Some s \<Rightarrow> s)
      else if ty = cJSON_Raw then JRaw (case vs of None \<Rightarrow> [] | Some s \<Rightarrow> s)
      else if ty = cJSON_Array then JArray (map (meaning cs) ch)
      else if ty = cJSON_Object then JObject (map_of (map (\<lambda>i. (item_key cs i, meaning cs i)) ch))
      else JNull)"

text \<open>Items with a meaning: a type, a text where one is needed, no NaN, members with different names.\<close>

fun meaningful :: "bool \<Rightarrow> cJSON \<Rightarrow> bool" where
  "meaningful cs (CJSON t vs vi vd k ch) =
     (let ty = t AND 255 in
      (ty = cJSON_Number \<longrightarrow> vd \<noteq> NaN) \<and> (ty = cJSON_String \<or> ty = cJSON_Raw \<longrightarrow> vs \<noteq> None)
      \<and> (ty = cJSON_Array \<longrightarrow> (\<forall>i \<in> set ch. meaningful cs i))
      \<and> (ty = cJSON_Object \<longrightarrow> distinct (map (item_key cs) ch) \<and> (\<forall>i \<in> set ch. has_name i \<and> meaningful cs i))
      \<and> ty \<in> {cJSON_NULL, cJSON_False, cJSON_True, cJSON_Number, cJSON_String, cJSON_Raw, cJSON_Array, cJSON_Object})"

section \<open>Names and maps\<close>

lemma tolower_NUL: "c \<noteq> NUL \<Longrightarrow> tolower NUL \<noteq> tolower c"
  using of_char_eq_iff[where 'a = nat, of c NUL] by (simp add: tolower_def)

lemma ci_loop_zero: "nul_free s \<Longrightarrow> nul_free t \<Longrightarrow> ci_loop s t = 0 \<longleftrightarrow> map tolower s = map tolower t"
proof (induction s t rule: ci_loop.induct)
  case (2 c t)
  then show ?case using tolower_NUL[of c] by simp
next
  case (3 c s)
  then show ?case using tolower_NUL[of c] by auto
qed auto

lemma key_code_eq:
  assumes "nul_free s" and "nul_free t"
  shows "key_code cs s = key_code cs t \<longleftrightarrow> (if cs then s = t else case_insensitive_strcmp (Some s) (Some t) = 0)"
proof (cases cs)
  case True
  have "inj (\<lambda>c. int (code c))" by (auto simp: inj_def)
  then show ?thesis using True by (simp add: key_code_def inj_map_eq_map)
next
  case False
  then show ?thesis using ci_loop_zero[OF assms] by (simp add: key_code_def case_insensitive_strcmp_def)
qed

text \<open>The member with a name, on trees and in the store.\<close>

definition member :: "bool \<Rightarrow> bytes \<Rightarrow> ltree list \<Rightarrow> ltree option" where
  "member cs name ts = find (\<lambda>t. item_key cs (erase t) = key_code cs name) ts"

lemma find_sibling_linked:
  assumes "linked h prev ts" and "nul_free name" and "\<forall>t \<in> set ts. has_name (erase t)"
  shows "find_sibling name cs (first ts) h = Some (map_option laddr (member cs name ts))"
  using assms
proof (induction ts arbitrary: prev rule: node_addrs.induct)
  case 1
  then show ?case by (simp add: find_sibling.simps member_def)
next
  case (2 a t vs vi vd k ch ts)
  obtain q s where k: "k = Some (q, s)" "nul_free s" using "2.prems"(3) by (cases k) (auto simp: has_name_def)
  have n: "nodes h a = Some (lnode prev (LT a t vs vi vd k ch) ts)" "strs h q = Some s" "linked h (Some a) ts"
    using "2.prems"(1) k by (auto simp: string_at_def)
  have e: "item_key cs (erase (LT a t vs vi vd k ch)) = key_code cs name
      \<longleftrightarrow> (if cs then name = s else case_insensitive_strcmp (Some name) (Some s) = 0)"
  proof -
    have "item_key cs (erase (LT a t vs vi vd k ch)) = key_code cs s" by (simp add: item_key_def k(1))
    then show ?thesis using key_code_eq[OF "2.prems"(2) k(2), of cs] by metis
  qed
  let ?t = "LT a t vs vi vd k ch"
  have "find_sibling name cs (first (?t # ts)) h
      = (if item_key cs (erase ?t) = key_code cs name then Some (Some a) else find_sibling name cs (first ts) h)"
    unfolding e first_simps ltree.sel using n(1,2)
    by (subst find_sibling.simps) (auto simp: lnode_def deref_def k(1))
  then show ?case using "2.IH"(2)[OF n(3) "2.prems"(2)] "2.prems"(3) by (simp add: member_def del: erase.simps)
qed

text \<open>Two lists of members denote the same map if each member of one is found in the other.\<close>

lemma map_of_eq_iff:
  assumes "distinct (map fst xs)" and "distinct (map fst ys)"
  shows "map_of xs = map_of ys \<longleftrightarrow>
    (\<forall>(k, v) \<in> set xs. map_of ys k = Some v) \<and> (\<forall>(k, v) \<in> set ys. map_of xs k = Some v)"
proof
  assume r: "(\<forall>(k, v) \<in> set xs. map_of ys k = Some v) \<and> (\<forall>(k, v) \<in> set ys. map_of xs k = Some v)"
  have "map_of xs \<subseteq>\<^sub>m map_of ys" "map_of ys \<subseteq>\<^sub>m map_of xs"
    using r by (fastforce simp: map_le_def dest: map_of_SomeD)+
  then show "map_of xs = map_of ys" by (rule map_le_antisym)
next
  assume e: "map_of xs = map_of ys"
  have "map_of ys k = Some v" if "(k, v) \<in> set xs" for k v using map_of_is_SomeI[OF assms(1) that] e by simp
  moreover have "map_of xs k = Some v" if "(k, v) \<in> set ys" for k v using map_of_is_SomeI[OF assms(2) that] e by simp
  ultimately show "(\<forall>(k, v) \<in> set xs. map_of ys k = Some v) \<and> (\<forall>(k, v) \<in> set ys. map_of xs k = Some v)" by blast
qed

lemma map_of_member:
  assumes "distinct (map (item_key cs) (map erase ts))"
  shows "map_of (map (\<lambda>i. (item_key cs i, meaning cs i)) (map erase ts)) (key_code cs name)
    = map_option (\<lambda>t. meaning cs (erase t)) (member cs name ts)"
  by (induction ts) (auto simp: member_def)

section \<open>Comparison decides equality of values\<close>

definition agree :: "heap \<Rightarrow> bool \<Rightarrow> ltree \<Rightarrow> ltree \<Rightarrow> bool" where
  "agree h cs x y \<longleftrightarrow> compare_run cs (Compare (Some (laddr x)) (Some (laddr y))) h
     = Some (meaning cs (erase x) = meaning cs (erase y))"

lemma compare_elements:
  assumes "linked h p xs" and "linked h q ys" and "\<forall>x \<in> set xs. \<forall>y \<in> set ys. agree h cs x y"
  shows "compare_run cs (Compare_elements (first xs) (first ys)) h
    = Some (map (meaning cs) (map erase xs) = map (meaning cs) (map erase ys))"
  using assms
proof (induction xs arbitrary: p q ys)
  case Nil
  then show ?case by (cases ys) (simp_all add: compare_run.simps[of _ "Compare_elements _ _"])
next
  case (Cons x xs)
  show ?case
  proof (cases ys)
    case Nil
    then show ?thesis by (simp add: compare_run.simps[of _ "Compare_elements _ _"])
  next
    case ys: (Cons y ys')
    obtain n m where n: "nodes h (laddr x) = Some n" "nnext n = first xs" "nodes h (laddr y) = Some m" "nnext m = first ys'"
      and l: "linked h (Some (laddr x)) xs" "linked h (Some (laddr y)) ys'"
      using Cons.prems(1,2) ys by (cases x; cases y) (auto simp: lnode_def)
    have "agree h cs x y" using Cons.prems(3) ys by simp
    then show ?thesis using Cons.IH[OF l] Cons.prems(3) n ys
      by (subst compare_run.simps) (simp add: agree_def)
  qed
qed

lemma has_nameD: "has_name i \<Longrightarrow> \<exists>s. ckey i = Some s \<and> nul_free s \<and> item_key cs i = key_code cs s"
  by (auto simp: has_name_def item_key_def split: option.splits)

lemma compare_members:
  assumes "linked h p xs" and ob: "nodes h ob = Some n" "nchild n = first ys" and ys: "linked h None ys"
    "\<forall>y \<in> set ys. has_name (erase y)" "distinct (map (item_key cs) (map erase ys))"
    and "\<forall>x \<in> set xs. has_name (erase x)" and "\<forall>x \<in> set xs. \<forall>y \<in> set ys. agree h cs x y"
  shows "compare_run cs (Compare_members (first xs) ob) h = Some (\<forall>i \<in> set (map erase xs).
    map_of (map (\<lambda>i. (item_key cs i, meaning cs i)) (map erase ys)) (item_key cs i) = Some (meaning cs i))"
  using assms(1,7,8)
proof (induction xs arbitrary: p)
  case Nil
  then show ?case by (simp add: compare_run.simps[of _ "Compare_members _ _"])
next
  case (Cons x xs)
  obtain s where s: "ckey (erase x) = Some s" "nul_free s" "item_key cs (erase x) = key_code cs s"
    using Cons.prems(2) has_nameD by (metis list.set_intros(1))
  obtain m where m: "nodes h (laddr x) = Some m" "nnext m = first xs" "deref (nstring m) h = Some (Some s)"
      and l: "linked h (Some (laddr x)) xs"
    using Cons.prems(1) s(1) by (cases x) (auto simp: lnode_def string_at_def deref_def)
  have g: "get_object_item_h (Some ob) (Some s) cs h = Some (map_option laddr (member cs s ys))"
    using find_sibling_linked[OF ys(1) s(2) ys(2)] ob by (simp add: get_object_item_h_def)
  note look = map_of_member[OF ys(3), of s]
  have run: "compare_run cs (Compare_members (first (x # xs)) ob) h = (case member cs s ys of None \<Rightarrow> Some False
      | Some y \<Rightarrow> do { ok \<leftarrow> compare_run cs (Compare (Some (laddr x)) (Some (laddr y))) h;
          (if \<not> ok then Some False else compare_run cs (Compare_members (first xs) ob) h) })"
    using m g by (simp add: compare_run.simps[of _ "Compare_members _ _"] split: option.split cong: if_cong)
  show ?case
  proof (cases "member cs s ys")
    case None
    then show ?thesis using run look s(3) by simp
  next
    case (Some y)
    then have "y \<in> set ys" unfolding member_def by (metis find_Some_iff nth_mem)
    then have "agree h cs x y" using Cons.prems(3) by simp
    then show ?thesis using run Cons.IH[OF l] Cons.prems(2,3) look s(3) Some by (auto simp: agree_def)
  qed
qed

lemma deq_value: "d \<noteq> NaN \<Longrightarrow> e \<noteq> NaN \<Longrightarrow> deq d e \<longleftrightarrow> number_value d = number_value e"
  by (cases d; cases e) (auto simp: number_value_def)

lemma map_fst_keys: "map fst (map (\<lambda>i. (item_key cs i, meaning cs i)) is) = map (item_key cs) is"
  by simp

lemma linked_suffix: "linked h p (ts @ us) \<Longrightarrow> \<exists>q. linked h q us"
  by (induction ts arbitrary: p rule: node_addrs.induct) auto

lemma compare_agrees:
  assumes "linked h p (x # ts)" and "linked h q (y # us)" and "set (node_addrs [x]) \<inter> set (node_addrs [y]) = {}"
    and "meaningful cs (erase x)" and "meaningful cs (erase y)"
  shows "agree h cs x y"
  using assms
proof (induction "size x + size y" arbitrary: x y p q ts us rule: less_induct)
  case less
  obtain i t vs vi vd k ch where x: "x = LT i t vs vi vd k ch" by (cases x)
  obtain j t' vs' vi' vd' k' ch' where y: "y = LT j t' vs' vi' vd' k' ch'" by (cases y)
  note l = less.prems(1,2)[unfolded x y linked.simps] and mx = less.prems(4)[unfolded x erase.simps]
    and my = less.prems(5)[unfolded y erase.simps]
  define ty where "ty = t AND 255"
  have types: "ty \<in> {cJSON_NULL, cJSON_False, cJSON_True, cJSON_Number, cJSON_String, cJSON_Raw, cJSON_Array, cJSON_Object}"
    "t' AND 255 \<in> {cJSON_NULL, cJSON_False, cJSON_True, cJSON_Number, cJSON_String, cJSON_Raw, cJSON_Array, cJSON_Object}"
    using mx my by (simp_all add: Let_def ty_def)
  have "i \<noteq> j" using less.prems(3) by (simp add: x y)
  have run: "compare_run cs (Compare (Some i) (Some j)) h =
     (if ty \<noteq> t' AND 255 then Some False
      else if ty \<in> {cJSON_False, cJSON_True, cJSON_NULL} then Some True
      else if ty = cJSON_Number then Some (deq vd vd')
      else if ty \<in> {cJSON_String, cJSON_Raw} then Some (map_option snd vs \<noteq> None \<and> map_option snd vs' \<noteq> None \<and> map_option snd vs = map_option snd vs')
      else if ty = cJSON_Array then compare_run cs (Compare_elements (first ch) (first ch')) h
      else do { ok \<leftarrow> compare_run cs (Compare_members (first ch) j) h;
            (if \<not> ok then Some False else compare_run cs (Compare_members (first ch') i) h) })"
  proof -
    have n: "nodes h i = Some (lnode p x ts)" "nodes h j = Some (lnode q y us)" "string_at h vs" "string_at h vs'"
      using l by (simp_all add: x y)
    have d: "deref (map_option fst v) h = Some (map_option snd v)" if "string_at h v" for v
      using that by (auto simp: deref_def string_at_def split: option.splits)
    obtain nn mm where nn: "nodes h i = Some nn" "ntype nn AND 255 = ty" "nvaluedouble nn = vd" "nchild nn = first ch"
        "deref (nvaluestring nn) h = Some (map_option snd vs)"
      and mm: "nodes h j = Some mm" "ntype mm = t'" "nvaluedouble mm = vd'" "nchild mm = first ch'"
        "deref (nvaluestring mm) h = Some (map_option snd vs')"
      using n(1,2) d[OF n(3)] d[OF n(4)] by (simp add: lnode_def x y ty_def)
    consider "ty = 4" | "ty = 1" | "ty = 2" | "ty = 8" | "ty = 16" | "ty = 128" | "ty = 32" | "ty = 64"
      using types(1) by auto
    then show ?thesis by cases (use nn mm \<open>i \<noteq> j\<close> in \<open>simp_all add: compare_run.simps[of _ "Compare _ _"] Let_def del: not_None_eq cong: if_cong\<close>)
  qed
  have sub: "agree h cs u w" "agree h cs w u" if u: "u \<in> set ch" "w \<in> set ch'" "meaningful cs (erase u)" "meaningful cs (erase w)" for u w
  proof -
    have sz: "size u + size w < size x + size y"
      using size_list_estimation'[OF u(1), of "size u" size] size_list_estimation'[OF u(2), of "size w" size] by (simp add: x y)
    obtain A B C D where A: "ch = A @ u # B" and C: "ch' = C @ w # D" using u(1,2) by (meson split_list)
    have "\<exists>p. linked h p (u # B)" "\<exists>q. linked h q (w # D)" using l linked_suffix A C by blast+
    moreover have "set (node_addrs [u]) \<inter> set (node_addrs [w]) = {}"
      using less.prems(3) node_addrs_member[OF u(1)] node_addrs_member[OF u(2)] by (auto simp: x y)
    ultimately show "agree h cs u w" "agree h cs w u"
      using less.hyps[OF sz _ _ _ u(3,4)] less.hyps[of w u, OF _ _ _ _ u(4,3)] sz by (auto simp: add.commute[of "size w"] Int_commute)
  qed
  consider "ty \<noteq> t' AND 255" | "ty = t' AND 255" "ty \<in> {cJSON_False, cJSON_True, cJSON_NULL}"
    | "ty = t' AND 255" "ty = cJSON_Number" | "ty = t' AND 255" "ty \<in> {cJSON_String, cJSON_Raw}"
    | "ty = t' AND 255" "ty = cJSON_Array" | "ty = t' AND 255" "ty = cJSON_Object" using types by blast
  then show ?case
  proof cases
    case 1
    then have "meaning cs (erase x) \<noteq> meaning cs (erase y)"
      using types by (auto simp: x y Let_def simp flip: ty_def)
    then show ?thesis using run 1 by (simp add: agree_def x y)
  next
    case 2
    then show ?thesis using run by (auto simp: agree_def x y Let_def ty_def)
  next
    case 3
    then show ?thesis using run deq_value[of vd vd'] mx my by (simp add: agree_def x y Let_def ty_def)
  next
    case 4
    have "map_option snd vs \<noteq> None" "map_option snd vs' \<noteq> None" using 4 mx my by (simp_all add: Let_def ty_def) blast+
    then obtain a b s s' where "vs = Some (a, s)" "vs' = Some (b, s')" by (cases vs; cases vs') auto
    then show ?thesis using run 4 by (auto simp: agree_def x y Let_def simp flip: ty_def)
  next
    case 5
    then have "\<forall>u \<in> set ch. \<forall>w \<in> set ch'. agree h cs u w" using mx my sub by (simp add: Let_def ty_def)
    from compare_elements[of h None ch None ch', OF _ _ this] l run 5 show ?thesis by (simp add: agree_def x y Let_def ty_def)
  next
    case 6
    have names: "\<forall>u \<in> set ch. has_name (erase u)" "\<forall>w \<in> set ch'. has_name (erase w)"
      "distinct (map (item_key cs) (map erase ch))" "distinct (map (item_key cs) (map erase ch'))"
      and agrees: "\<forall>u \<in> set ch. \<forall>w \<in> set ch'. agree h cs u w" "\<forall>w \<in> set ch'. \<forall>u \<in> set ch. agree h cs w u"
      using 6 mx my sub by (simp_all add: Let_def ty_def)
    let ?m = "\<lambda>ts. map (\<lambda>i. (item_key cs i, meaning cs i)) (map erase ts)"
    have "compare_run cs (Compare_members (first ch) j) h
        = Some (\<forall>i \<in> set (map erase ch). map_of (?m ch') (item_key cs i) = Some (meaning cs i))"
      "compare_run cs (Compare_members (first ch') i) h
        = Some (\<forall>i \<in> set (map erase ch'). map_of (?m ch) (item_key cs i) = Some (meaning cs i))"
      using compare_members[OF _ _ _ _ names(2,4,1) agrees(1)] compare_members[OF _ _ _ _ names(1,3,2) agrees(2)] l
      by (auto simp: lnode_def)
    moreover have "map_of (?m ch) = map_of (?m ch') \<longleftrightarrow>
        (\<forall>i \<in> set (map erase ch). map_of (?m ch') (item_key cs i) = Some (meaning cs i))
        \<and> (\<forall>i \<in> set (map erase ch'). map_of (?m ch) (item_key cs i) = Some (meaning cs i))"
      by (subst map_of_eq_iff) (use names(3,4) in \<open>auto simp: o_def\<close>)
    ultimately show ?thesis using run 6 by (simp add: agree_def x y Let_def ty_def)
  qed
qed

lemma Compare_forest:
  assumes "forest h (x # y # F)" and "meaningful cs (erase x)" and "meaningful cs (erase y)"
  shows "cJSON_Compare (Some (laddr x)) (Some (laddr y)) cs h = Some (meaning cs (erase x) = meaning cs (erase y))"
proof -
  have "linked h None [x]" "linked h None [y]" "separate ([x] @ [y] @ F)" using assms(1) by (auto simp: forest_def)
  then have "agree h cs x y" using assms(2,3) by (intro compare_agrees[of h None x "[]" None y "[]"]) (auto simp: separate_append simp del: append.simps)
  then show ?thesis by (simp add: agree_def cJSON_Compare_def)
qed

text \<open>C12: \<open>cJSON_Compare\<close> always returns on items of two trees of the store, and its answer is whether
  they denote the same JSON value: arrays in order, objects as maps from names (or from names in
  lower case), numbers as numbers. The items must be of a known type and have texts where their
  types need them, no NaN, and no two members of the same name.\<close>

theorem Compare_decides:
  assumes "forest h (x # y # F)" and "meaningful cs (erase x)" and "meaningful cs (erase y)"
  shows "cJSON_Compare (Some (laddr x)) (Some (laddr y)) cs h = Some (meaning cs (erase x) = meaning cs (erase y))"
  by (rule Compare_forest[OF assms])

text \<open>Two objects with the same members in different orders and cases.\<close>

definition sample_pair :: "ltree list" where
  "sample_pair = [LT 0 64 None 0 (Fin 0) None [LT 1 2 None 1 (Fin 0) (Some (6, ''a'')) [], LT 2 8 None 0 NegZero (Some (7, ''b'')) []],
     LT 3 64 None 0 (Fin 0) None [LT 4 8 None 0 (Fin 0) (Some (8, ''B'')) [], LT 5 2 None 1 (Fin 0) (Some (9, ''A'')) []]]"

definition pair_heap :: heap where
  "pair_heap = \<lparr>nodes = [0 \<mapsto> lnode None (sample_pair ! 0) [],
       1 \<mapsto> lnode None (lchildren (sample_pair ! 0) ! 0) [lchildren (sample_pair ! 0) ! 1],
       2 \<mapsto> lnode (Some 1) (lchildren (sample_pair ! 0) ! 1) [], 3 \<mapsto> lnode None (sample_pair ! 1) [],
       4 \<mapsto> lnode None (lchildren (sample_pair ! 1) ! 0) [lchildren (sample_pair ! 1) ! 1],
       5 \<mapsto> lnode (Some 4) (lchildren (sample_pair ! 1) ! 1) []],
     strs = [6 \<mapsto> ''a'', 7 \<mapsto> ''b'', 8 \<mapsto> ''B'', 9 \<mapsto> ''A''], brk = 10, hmem = []\<rparr>"

lemma pair_heap_forest: "forest pair_heap (sample_pair ! 0 # sample_pair ! 1 # [])"
  by (simp add: forest_def pair_heap_def sample_pair_def separate_def string_at_def string_list_def has_flag_def) auto

theorem Compare_decides_witness:
  "cJSON_Compare (Some 0) (Some 3) False pair_heap = Some True \<and> cJSON_Compare (Some 0) (Some 3) True pair_heap = Some False"
proof -
  have m: "meaningful cs (erase (sample_pair ! 0))" "meaningful cs (erase (sample_pair ! 1))" for cs
    by (simp_all add: sample_pair_def item_key_def key_code_def has_name_def tolower_def)
  have "meaning False (erase (sample_pair ! 0)) = meaning False (erase (sample_pair ! 1))"
    "meaning True (erase (sample_pair ! 0)) \<noteq> meaning True (erase (sample_pair ! 1))"
    by (auto simp: sample_pair_def item_key_def key_code_def tolower_def number_value_def fun_eq_iff)
  then show ?thesis 
    using Compare_decides[OF pair_heap_forest m(1) m(2), of False] Compare_decides[OF pair_heap_forest m(1) m(2), of True]
    by (simp add: sample_pair_def del: meaning.simps erase.simps)
qed

text \<open>C23: A copy compares equal to its original: with memory enough, \<open>cJSON_Duplicate\<close> of the root of
  a tree that has a meaning answers an item that \<open>cJSON_Compare\<close> finds equal to the tree.\<close>

theorem duplicate_compares_equal:
  assumes "forest h (x # F)" and "hmem h = []" and "meaningful cs (erase x)"
  shows "\<exists>a h'. cJSON_Duplicate (Some (laddr x)) True h = Some (Some a, h')
    \<and> cJSON_Compare (Some a) (Some (laddr x)) cs h' = Some True"
proof -
  have "inside (x # F) None [x]" by (rule inside.root) simp
  from Duplicate_forest[OF assms(1) this, of True] obtain y h' where
    "cJSON_Duplicate (Some (laddr x)) True h = Some (Some (laddr y), h')" "forest h' (y # x # F)" "erase y = erase x"
    using assms(2) by auto
  then show ?thesis using Compare_forest[of h' y x F cs] assms(3) by auto
qed

theorem duplicate_compares_equal_witness:
  "\<exists>a h'. cJSON_Duplicate (Some 0) True pair_heap = Some (Some a, h') \<and> cJSON_Compare (Some a) (Some 0) True h' = Some True"
proof -
  have "meaningful True (erase (sample_pair ! 0))"
    by (simp add: sample_pair_def item_key_def key_code_def has_name_def)
  moreover have "laddr (sample_pair ! 0) = 0" "hmem pair_heap = []" by (simp_all add: sample_pair_def pair_heap_def)
  ultimately show ?thesis using duplicate_compares_equal[OF pair_heap_forest, of True] by simp
qed

end
