(* ===== verification/HeapRelink.thy ===== *)
theory HeapRelink
  imports HeapCopy
begin

text \<open>
  Taking items out of an array, putting them in and replacing them, in the store
  (\<open>cJSON_DetachItemViaPointer\<close>, \<open>cJSON_InsertItemInArray\<close>, \<open>cJSON_ReplaceItemViaPointer\<close>,
  \<open>cJSON_DeleteItemFromArray\<close>): what they make of the list of the children.
\<close>

section \<open>Splicing a list of siblings\<close>

text \<open>Assignments to some fields of some nodes: \<open>g a\<close> is what happens to the node at \<open>a\<close>.\<close>

definition adjust :: "(addr \<Rightarrow> node \<Rightarrow> node) \<Rightarrow> heap \<Rightarrow> heap" where
  "adjust g h = h\<lparr>nodes := (\<lambda>a. map_option (g a) (nodes h a))\<rparr>"

lemma adjust_fields [simp]:
  "nodes (adjust g h) a = map_option (g a) (nodes h a)" "strs (adjust g h) = strs h"
  "brk (adjust g h) = brk h" "hmem (adjust g h) = hmem h"
  by (simp_all add: adjust_def)

lemma update_adjust: "nodes h a \<noteq> None \<Longrightarrow> update a f h = Some (adjust (\<lambda>b. if b = a then f else (\<lambda>n. n)) h)"
  by (cases h) (auto simp: update_def adjust_def fun_eq_iff option.map_ident)

lemma update_opt_adjust:
  "(\<And>b. a = Some b \<Longrightarrow> nodes h b \<noteq> None) \<Longrightarrow> update_opt a f h = Some (adjust (\<lambda>b. if a = Some b then f else (\<lambda>n. n)) h)"
  by (cases a; cases h) (auto simp: update_opt_def update_def adjust_def fun_eq_iff option.map_ident)

lemma string_at_adjust [simp]: "string_at (adjust g h) v = string_at h v"
  by (cases v) (simp_all add: string_at_def split: prod.splits)

lemma adjust_adjust: "adjust g' (adjust g h) = adjust (\<lambda>a. g' a \<circ> g a) h"
  by (simp add: adjust_def option.map_comp)

lemma linked_adjust_other:
  "linked h p ts \<Longrightarrow> \<forall>a \<in> set (node_addrs ts). g a = (\<lambda>n. n) \<Longrightarrow> linked (adjust g h) p ts"
  by (rule linked_agree[of h]) (auto simp: option.map_ident)

lemma node_addrs_hd: "node_addrs (t # ts) = laddr t # node_addrs (lchildren t) @ node_addrs ts"
  by (cases t) simp

lemma linked_hd: "linked h p (t # ts) \<longleftrightarrow> nodes h (laddr t) = Some (lnode p t ts) \<and> string_at h (lvs t) \<and> string_at h (lkey t)
    \<and> linked h None (lchildren t) \<and> linked h (Some (laddr t)) ts"
  by (cases t) simp

text \<open>The first item with other neighbours.\<close>

lemma linked_adjust_hd:
  assumes "linked h p (t # ts)" and "g (laddr t) (lnode p t ts) = lnode p' t ts'"
    and "\<forall>a \<in> set (node_addrs (lchildren t)). g a = (\<lambda>n. n)" and "linked (adjust g h) (Some (laddr t)) ts'"
  shows "linked (adjust g h) p' (t # ts')"
  using assms linked_adjust_other[of h None "lchildren t" g] by (auto simp: linked_hd string_at_def split: option.splits)

text \<open>The items before a splice: only the last of them is changed.\<close>

lemma linked_adjust_prefix:
  assumes "linked h p (pre @ ts)" and "pre \<noteq> []" and "distinct (node_addrs pre)"
    and "\<And>n. g (laddr (last pre)) n = n\<lparr>nnext := first ts'\<rparr>"
    and "\<forall>a \<in> set (node_addrs pre) - {laddr (last pre)}. g a = (\<lambda>n. n)"
    and "linked (adjust g h) (last_addr pre) ts'"
  shows "linked (adjust g h) p (pre @ ts')"
  using assms
proof (induction pre arbitrary: p)
  case (Cons t pre)
  have notin: "laddr (last (t # pre)) \<notin> set (node_addrs (lchildren t))"
    using Cons.prems(3) laddr_in[of "last (t # pre)" "t # pre"] laddr_in[of "last pre" pre]
    by (auto simp: node_addrs_hd simp del: laddr_in)
  then have ch: "\<forall>a \<in> set (node_addrs (lchildren t)). g a = (\<lambda>n. n)"
    using Cons.prems(5) by (auto simp: node_addrs_hd)
  have l: "linked h p (t # pre @ ts)" using Cons.prems(1) by simp
  show ?case
  proof (cases "pre = []")
    case True
    then show ?thesis using linked_adjust_hd[OF l, of g p ts'] ch Cons.prems(4,6) by (simp add: lnode_def last_addr_def)
  next
    case False
    then have "laddr t \<noteq> laddr (last pre)" using Cons.prems(3) laddr_in[of "last pre" pre] by (auto simp: node_addrs_hd)
    then have "g (laddr t) = (\<lambda>n. n)" using Cons.prems(5) False by (simp add: node_addrs_hd)
    moreover have "linked (adjust g h) (Some (laddr t)) (pre @ ts')"
    proof (rule Cons.IH)
      show "linked h (Some (laddr t)) (pre @ ts)" using l by (simp add: linked_hd)
    qed (use Cons.prems False in \<open>auto simp: node_addrs_hd last_addr_def\<close>)
    moreover have "first (pre @ ts') = first (pre @ ts)" using False by (cases pre) auto
    ultimately show ?thesis using linked_adjust_hd[OF l, of g p "pre @ ts'"] ch by (simp add: lnode_def)
  qed
qed simp

lemma linked_split: "linked h None (pre @ ts) \<Longrightarrow> linked h (last_addr pre) ts"
proof -
  have "linked h q (pre @ ts) \<Longrightarrow> linked h (if pre = [] then q else last_addr pre) ts" for q
    by (induction pre arbitrary: q) (auto simp: linked_hd last_addr_def split: if_splits)
  then show "linked h None (pre @ ts) \<Longrightarrow> linked h (last_addr pre) ts"
    by (fastforce simp: last_addr_def split: if_splits)
qed

lemma linked_adjust_row:
  assumes "linked h None (pre @ ts)" and "distinct (node_addrs pre)"
    and "\<And>a n. last_addr pre = Some a \<Longrightarrow> g a n = n\<lparr>nnext := first ts'\<rparr>"
    and "\<And>a. a \<in> set (node_addrs pre) \<Longrightarrow> last_addr pre \<noteq> Some a \<Longrightarrow> g a = (\<lambda>n. n)"
    and "linked (adjust g h) (last_addr pre) ts'"
  shows "linked (adjust g h) None (pre @ ts')"
proof (cases "pre = []")
  case False
  show ?thesis
    by (rule linked_adjust_prefix[OF assms(1) False assms(2)]) (use assms(3-5) False in \<open>auto simp: last_addr_def\<close>)
qed (use assms(5) in \<open>simp add: last_addr_def\<close>)

lemma linked_adjust_reprev:
  assumes "linked h q ts" and "distinct (node_addrs ts)"
    and "\<And>a n. first ts = Some a \<Longrightarrow> g a n = n\<lparr>nprev := q'\<rparr>"
    and "\<And>a. a \<in> set (node_addrs ts) \<Longrightarrow> first ts \<noteq> Some a \<Longrightarrow> g a = (\<lambda>n. n)"
  shows "linked (adjust g h) q' ts"
proof (cases ts)
  case (Cons t us)
  have "linked h (Some (laddr t)) us" using assms(1) Cons by (simp add: linked_hd)
  then have "linked (adjust g h) (Some (laddr t)) us"
    by (rule linked_adjust_other) (use assms(2,4) Cons in \<open>auto simp: node_addrs_hd\<close>)
  moreover have "\<forall>a \<in> set (node_addrs (lchildren t)). g a = (\<lambda>n. n)"
    using assms(2,4) Cons by (auto simp: node_addrs_hd)
  ultimately show ?thesis using linked_adjust_hd[of h q t us g q' us] assms(1,3) Cons by (simp add: lnode_def)
qed simp

text \<open>A row of siblings around a gap, and the addresses at the gap.\<close>

lemma row_ends:
  assumes "linked h None (pre @ ts)" and "distinct (node_addrs (pre @ ts))"
  shows "last_addr pre = Some a \<Longrightarrow> nodes h a \<noteq> None \<and> a \<in> set (node_addrs pre)"
    and "first ts = Some b \<Longrightarrow> nodes h b \<noteq> None \<and> b \<in> set (node_addrs ts)"
proof -
  show "nodes h a \<noteq> None \<and> a \<in> set (node_addrs pre)" if "last_addr pre = Some a"
    using that laddr_in[of "last pre" pre] linked_node[OF assms(1), of a]
    by (auto simp: last_addr_def split: if_splits)
  show "nodes h b \<noteq> None \<and> b \<in> set (node_addrs ts)" if "first ts = Some b"
    using that linked_node[OF assms(1), of b] by (cases ts) (auto simp: node_addrs_hd)
qed

section \<open>The assignments of a splice\<close>

text \<open>
  The three operations make the same assignments: between the neighbours \<open>l\<close> and \<open>r\<close> below \<open>p\<close> the
  item \<open>old\<close>, if any, is taken out and \<open>new\<close>, if any, put in.
\<close>

definition splice :: "addr option \<Rightarrow> addr option \<Rightarrow> addr option \<Rightarrow> addr option \<Rightarrow> addr \<Rightarrow> addr \<Rightarrow> node \<Rightarrow> node" where
  "splice l r old new p a n = (if new = Some a then n\<lparr>nprev := l, nnext := r\<rparr>
     else if old = Some a then n\<lparr>nprev := None, nnext := None\<rparr>
     else if l = Some a then n\<lparr>nnext := (if new = None then r else new)\<rparr>
     else if r = Some a then n\<lparr>nprev := (if new = None then l else new)\<rparr>
     else if a = p \<and> l = None then n\<lparr>nchild := (if new = None then r else new)\<rparr> else n)"

lemma Detach_run:
  assumes "nodes h i = Some n" and "nodes h p = Some m" and "nchild m = Some i \<longleftrightarrow> nprev n = None"
    and "\<And>a. nprev n = Some a \<Longrightarrow> nodes h a \<noteq> None \<and> a \<noteq> i \<and> a \<noteq> p \<and> nnext n \<noteq> Some a"
    and "\<And>a. nnext n = Some a \<Longrightarrow> nodes h a \<noteq> None \<and> a \<noteq> i \<and> a \<noteq> p" and "i \<noteq> p"
  shows "cJSON_DetachItemViaPointer (Some p) (Some i) h = Some (Some i, adjust (splice (nprev n) (nnext n) (Some i) None p) h)"
proof -
  define h1 where "h1 = (adjust (\<lambda>b. if nprev n = Some b then (\<lambda>m. m\<lparr>nnext := nnext n\<rparr>) else (\<lambda>n. n)) h)"
  define h2 where "h2 = (adjust (\<lambda>b. if nnext n = Some b then (\<lambda>m. m\<lparr>nprev := nprev n\<rparr>) else (\<lambda>n. n)) h1)"
  define h3 where "h3 = (if nprev n = None then adjust (\<lambda>b. if b = p then (\<lambda>m. m\<lparr>nchild := nnext n\<rparr>) else (\<lambda>n. n)) h2 else h2)"
  define h4 where "h4 = (adjust (\<lambda>b. if b = i then (\<lambda>m. m\<lparr>nprev := None, nnext := None\<rparr>) else (\<lambda>n. n)) h3)"
  have 1: "update_opt (nprev n) (\<lambda>m. m\<lparr>nnext := nnext n\<rparr>) h = Some h1"
    unfolding h1_def by (rule update_opt_adjust) (use assms(4) in blast)
  have i1: "nodes h1 i = Some n" using assms(1) assms(4)[of i] by (auto simp: h1_def)
  have 2: "update_opt (nnext n) (\<lambda>m. m\<lparr>nprev := nprev n\<rparr>) h1 = Some h2"
    unfolding h2_def by (rule update_opt_adjust) (use assms(5) in \<open>auto simp: h1_def\<close>)
  have i2: "nodes h2 i = Some n" "nodes h2 p = Some m" using i1 assms(2,4,5) by (auto simp: h2_def) (auto simp: h1_def)
  have 3: "(if nchild m = Some i then update p (\<lambda>m. m\<lparr>nchild := nnext n\<rparr>) h2 else Some h2) = Some h3"
    using i2(2) assms(3) by (simp add: h3_def update_adjust)
  have 4: "update i (\<lambda>m. m\<lparr>nprev := None, nnext := None\<rparr>) h3 = Some h4"
    unfolding h4_def using i2(1) assms(6) by (intro update_adjust) (auto simp: h3_def)
  have "h4 = adjust (splice (nprev n) (nnext n) (Some i) None p) h"
    using assms(4-6) unfolding h4_def h3_def h2_def h1_def by (auto simp: adjust_adjust splice_def fun_eq_iff intro!: arg_cong[where f = "\<lambda>g. adjust g h"])
  then show ?thesis using assms(1) 1 i1 2 i2 3 4 by (simp add: cJSON_DetachItemViaPointer_def)
qed

text \<open>The frame rule for changes of links only.\<close>

lemma forest_permute:
  assumes F: "forest h (L @ F)" and l: "\<forall>t \<in> set L'. linked h' None [t]"
    and m: "mset (node_addrs L') = mset (node_addrs L)" "mset (string_addrs L') = mset (string_addrs L)" "owning L' \<longleftrightarrow> owning L"
    and same: "\<And>a. a \<notin> set (node_addrs L) \<Longrightarrow> nodes h' a = nodes h a" "strs h' = strs h" "brk h' = brk h"
  shows "forest h' (L' @ F)"
proof -
  note sets = mset_eq_setD[OF m(1)] mset_eq_setD[OF m(2)]
  have "separate (L @ F)" "owning (L @ F)" using F unfolding forest_def by simp_all
  then have "separate L" "owning L" by (simp_all add: separate_append addrs_append)
  then have "separate L'" "owning L'"
    using m mset_eq_imp_distinct_iff[OF m(1)] mset_eq_imp_distinct_iff[OF m(2)] by (simp_all add: separate_def)
  then show ?thesis by (intro forest_frame[OF F l]) (simp_all add: sets same)
qed

text \<open>An array at the root of a tree of the store, and its parts.\<close>

lemma array_parts:
  assumes F: "forest h (LT p t vs vi vd k (pre @ ts) # F)"
  shows "nodes h p = Some (lnode None (LT p t vs vi vd k (pre @ ts)) [])" and "linked h None (pre @ ts)"
    and "linked h (last_addr pre) ts" and "string_at h vs" "string_at h k"
    and "p \<notin> set (node_addrs pre)" "p \<notin> set (node_addrs ts)" and "distinct (node_addrs pre)" "distinct (node_addrs ts)"
    and "set (node_addrs pre) \<inter> set (node_addrs ts) = {}"
    and "last_addr pre = Some a \<Longrightarrow> nodes h a \<noteq> None \<and> a \<in> set (node_addrs pre)"
    and "first ts = Some b \<Longrightarrow> nodes h b \<noteq> None \<and> b \<in> set (node_addrs ts)"
proof -
  show l: "linked h None (pre @ ts)" and "nodes h p = Some (lnode None (LT p t vs vi vd k (pre @ ts)) [])"
    and "string_at h vs" "string_at h k"
    using F by (auto simp: forest_def)
  then show "linked h (last_addr pre) ts" by (simp add: linked_split)
  have "separate ([LT p t vs vi vd k (pre @ ts)] @ F)" using F unfolding forest_def by simp
  then have d: "distinct (p # node_addrs (pre @ ts))" unfolding separate_append by (simp add: separate_def)
  then show "p \<notin> set (node_addrs pre)" "p \<notin> set (node_addrs ts)" "distinct (node_addrs pre)" "distinct (node_addrs ts)"
    "set (node_addrs pre) \<inter> set (node_addrs ts) = {}" by simp_all
  have "distinct (node_addrs (pre @ ts))" using d by simp
  from row_ends[OF l this] show "last_addr pre = Some a \<Longrightarrow> nodes h a \<noteq> None \<and> a \<in> set (node_addrs pre)"
    and "first ts = Some b \<Longrightarrow> nodes h b \<noteq> None \<and> b \<in> set (node_addrs ts)" by blast+
qed

lemma last_addr_None [simp]: "last_addr pre = None \<longleftrightarrow> pre = []"
  by (simp add: last_addr_def)

lemma first_append: "first (pre @ ts) = (if pre = [] then first ts else first pre)"
  by (cases pre) auto

lemma first_in: "first ts = Some a \<Longrightarrow> a \<in> set (node_addrs ts)"
  by (cases ts) (auto simp: node_addrs_hd)

lemma array_linked:
  assumes F: "forest h (LT p t vs vi vd k (pre @ ts) # F)"
    and "\<And>a n. last_addr pre = Some a \<Longrightarrow> g a n = n\<lparr>nnext := first ts'\<rparr>"
    and "\<And>a. a \<in> set (node_addrs pre) \<Longrightarrow> last_addr pre \<noteq> Some a \<Longrightarrow> g a = (\<lambda>n. n)"
    and "\<And>n. g p n = (if pre = [] then n\<lparr>nchild := first ts'\<rparr> else n)"
    and "linked (adjust g h) (last_addr pre) ts'"
  shows "linked (adjust g h) None [LT p t vs vi vd k (pre @ ts')]"
proof -
  note a = array_parts[OF F]
  have "linked (adjust g h) None (pre @ ts')" by (rule linked_adjust_row[OF a(2,8) assms(2,3,5)])
  then show ?thesis using a(1,4,5) by (simp add: assms(4) lnode_def first_append)
qed

lemma last_in: "last_addr pre = Some a \<Longrightarrow> a \<in> set (node_addrs pre)"
  by (auto simp: last_addr_def split: if_splits)

lemma splice_acts:
  assumes D: "distinct (p # node_addrs pre @ node_addrs ys @ node_addrs post @ node_addrs xs)"
  defines "g \<equiv> splice (last_addr pre) (first post) (first ys) (first xs) p"
  shows "first xs = Some a \<Longrightarrow> g a n = n\<lparr>nprev := last_addr pre, nnext := first post\<rparr>"
    and "first ys = Some a \<Longrightarrow> g a n = n\<lparr>nprev := None, nnext := None\<rparr>"
    and "last_addr pre = Some a \<Longrightarrow> g a n = n\<lparr>nnext := first (xs @ post)\<rparr>"
    and "first post = Some a \<Longrightarrow> g a n = n\<lparr>nprev := (if xs = [] then last_addr pre else first xs)\<rparr>"
    and "g p n = (if pre = [] then n\<lparr>nchild := first (xs @ post)\<rparr> else n)"
    and "a \<noteq> p \<Longrightarrow> last_addr pre \<noteq> Some a \<Longrightarrow> first post \<noteq> Some a \<Longrightarrow> first xs \<noteq> Some a \<Longrightarrow> first ys \<noteq> Some a \<Longrightarrow> g a = (\<lambda>n. n)"
proof -
  have f [simp]: "first xs = None \<longleftrightarrow> xs = []" by (cases xs) auto
  note ins = last_in[of pre] first_in[of ys] first_in[of post] first_in[of xs]
  show "g a n = n\<lparr>nprev := last_addr pre, nnext := first post\<rparr>" if "first xs = Some a"
    using that by (simp add: g_def splice_def)
  show "g a n = n\<lparr>nprev := None, nnext := None\<rparr>" if "first ys = Some a"
  proof -
    have "first xs \<noteq> Some a" using ins(2,4)[of a] D that by auto
    then show ?thesis using that by (simp add: g_def splice_def)
  qed
  show "g a n = n\<lparr>nnext := first (xs @ post)\<rparr>" if "last_addr pre = Some a"
  proof -
    have "first xs \<noteq> Some a" "first ys \<noteq> Some a" using ins(1,2,4)[of a] D that by auto
    then show ?thesis using that by (simp add: g_def splice_def first_append)
  qed
  show "g a n = n\<lparr>nprev := (if xs = [] then last_addr pre else first xs)\<rparr>" if "first post = Some a"
  proof -
    have "first xs \<noteq> Some a" "first ys \<noteq> Some a" "last_addr pre \<noteq> Some a" using ins[of a] D that by auto
    then show ?thesis using that by (simp add: g_def splice_def)
  qed
  have "first xs \<noteq> Some p" "first ys \<noteq> Some p" "last_addr pre \<noteq> Some p" "first post \<noteq> Some p" using ins[of p] D by auto
  then show "g p n = (if pre = [] then n\<lparr>nchild := first (xs @ post)\<rparr> else n)"
    by (simp add: g_def splice_def first_append)
  show "g a = (\<lambda>n. n)" if "a \<noteq> p" "last_addr pre \<noteq> Some a" "first post \<noteq> Some a" "first xs \<noteq> Some a" "first ys \<noteq> Some a"
    using that by (simp add: g_def splice_def fun_eq_iff)
qed

lemma single_cases: "length xs \<le> 1 \<Longrightarrow> xs = [] \<or> (\<exists>x. xs = [x])"
  by (cases xs) auto

lemma splice_links:
  assumes F: "forest h (LT p t vs vi vd k (pre @ ys @ post) # xs @ F)" and n: "length xs \<le> 1" "length ys \<le> 1"
    and g_def: "g = splice (last_addr pre) (first post) (first ys) (first xs) p"
  shows "linked (adjust g h) None ys" and "linked (adjust g h) None [LT p t vs vi vd k (pre @ xs @ post)]"
proof -
  have D: "distinct (p # node_addrs pre @ node_addrs ys @ node_addrs post @ node_addrs xs)"
    using forest_distinct[OF F] by (auto simp: node_addrs_hd)
  note act = splice_acts[OF D, folded g_def]
  note ins = last_in[of pre] first_in[of ys] first_in[of post] first_in[of xs]
  have l: "linked h None (pre @ ys @ post)" "\<forall>x \<in> set xs. linked h None [x]" using F by (auto simp: forest_def)
  have inner: "\<forall>a \<in> set (node_addrs (lchildren u)). g a = (\<lambda>n. n)" if "xs = [u] \<or> ys = [u]" for u
  proof
    fix a assume "a \<in> set (node_addrs (lchildren u))"
    then show "g a = (\<lambda>n. n)" using that ins[of a] D by (intro act(6)) (auto simp: node_addrs_hd)
  qed
  have lp: "linked h (if ys = [] then last_addr pre else first ys) post"
    using linked_split[OF l(1)] n(2) by (cases ys) (auto simp: linked_hd)
  have post: "linked (adjust g h) (if xs = [] then last_addr pre else first xs) post"
  proof (rule linked_adjust_reprev[OF lp])
    show "distinct (node_addrs post)" using D by simp
    show "g a n = n\<lparr>nprev := (if xs = [] then last_addr pre else first xs)\<rparr>" if "first post = Some a" for a n
      using act(4)[OF that] .
    show "g a = (\<lambda>n. n)" if "a \<in> set (node_addrs post)" "first post \<noteq> Some a" for a
      using that ins[of a] D by (intro act(6)) auto
  qed
  have xs: "linked (adjust g h) (last_addr pre) (xs @ post)"
  proof (cases xs)
    case (Cons x us)
    then have x: "xs = [x]" using n(1) by simp
    have "linked h None [x]" using l(2) x by simp
    then have "linked (adjust g h) (last_addr pre) (x # post)"
      by (rule linked_adjust_hd) (use act(1) inner x post in \<open>auto simp: lnode_def\<close>)
    then show ?thesis using x by simp
  qed (use post in simp)
  show "linked (adjust g h) None ys"
  proof (cases ys)
    case (Cons y us)
    then have y: "ys = [y]" using n(2) by simp
    have "linked h (last_addr pre) (y # post)" using linked_split[OF l(1)] y by simp
    then have "linked (adjust g h) None [y]"
      by (rule linked_adjust_hd) (use act(2) inner y in \<open>auto simp: lnode_def\<close>)
    then show ?thesis using y by simp
  qed simp
  show "linked (adjust g h) None [LT p t vs vi vd k (pre @ xs @ post)]"
  proof (rule array_linked[OF F _ _ _ xs])
    show "g a n = n\<lparr>nnext := first (xs @ post)\<rparr>" if "last_addr pre = Some a" for a n using act(3)[OF that] .
    show "g a = (\<lambda>n. n)" if "a \<in> set (node_addrs pre)" "last_addr pre \<noteq> Some a" for a
      using that ins[of a] D by (intro act(6)) auto
  qed (rule act(5))
qed

lemma splice_forest:
  assumes F: "forest h (LT p t vs vi vd k (pre @ ys @ post) # xs @ F)" and n: "length xs \<le> 1" "length ys \<le> 1"
    and g_def: "g = splice (last_addr pre) (first post) (first ys) (first xs) p"
  shows "forest (adjust g h) (ys @ LT p t vs vi vd k (pre @ xs @ post) # F)"
proof -
  let ?L = "LT p t vs vi vd k (pre @ ys @ post) # xs" and ?L' = "ys @ [LT p t vs vi vd k (pre @ xs @ post)]"
  have D: "distinct (p # node_addrs pre @ node_addrs ys @ node_addrs post @ node_addrs xs)"
    using forest_distinct[OF F] by (auto simp: node_addrs_hd)
  have l: "\<forall>t \<in> set ?L'. linked (adjust g h) None [t]"
    using splice_links[OF F n g_def] single_cases[OF n(2)] by auto
  have "forest (adjust g h) (?L' @ F)"
  proof (rule forest_permute[OF _ l])
    show "nodes (adjust g h) a = nodes h a" if "a \<notin> set (node_addrs ?L)" for a
    proof -
      have "g a = (\<lambda>n. n)" unfolding g_def
        by (rule splice_acts(6)[OF D]) (use that last_in[of pre a] first_in[of _ a] in auto)
      then show ?thesis by (simp add: option.map_ident)
    qed
  qed (use F in \<open>auto simp: addrs_append\<close>)
  then show ?thesis by simp
qed


lemma Insert_run:
  assumes "0 \<le> which" and "get_array_item_h (Some p) (nat which) h = Some (Some b)"
    and "nodes h b = Some n" and "nodes h p = Some m" and "nodes h i \<noteq> None"
    and "nchild m = Some b \<longleftrightarrow> nprev n = None"
    and "\<And>a. nprev n = Some a \<Longrightarrow> nodes h a \<noteq> None \<and> a \<noteq> i \<and> a \<noteq> p \<and> a \<noteq> b"
    and "i \<noteq> p" "i \<noteq> b" "b \<noteq> p"
  shows "cJSON_InsertItemInArray (Some p) which (Some i) h = Some (adjust (splice (nprev n) (Some b) None (Some i) p) h)"
proof -
  define h1 where "h1 = adjust (\<lambda>c. if c = i then (\<lambda>m. m\<lparr>nnext := Some b, nprev := nprev n\<rparr>) else (\<lambda>n. n)) h"
  define h2 where "h2 = adjust (\<lambda>c. if c = b then (\<lambda>m. m\<lparr>nprev := Some i\<rparr>) else (\<lambda>n. n)) h1"
  have 1: "update i (\<lambda>m. m\<lparr>nnext := Some b, nprev := nprev n\<rparr>) h = Some h1"
    unfolding h1_def by (rule update_adjust) (rule assms(5))
  have 2: "update b (\<lambda>m. m\<lparr>nprev := Some i\<rparr>) h1 = Some h2"
    unfolding h2_def by (rule update_adjust) (simp add: h1_def assms(3))
  have p2: "nodes h2 p = Some m" using assms(4,8-10) by (auto simp: h2_def) (auto simp: h1_def)
  obtain im where im: "nodes h2 i = Some im" "nprev im = nprev n"
    using assms(5,9) by (auto simp: h2_def) (auto simp: h1_def)
  have 3: "(if nchild m = Some b then update p (\<lambda>m. m\<lparr>nchild := Some i\<rparr>) h2
     else do { m \<leftarrow> nodes h2 i; q \<leftarrow> nprev m; update q (\<lambda>m. m\<lparr>nnext := Some i\<rparr>) h2 })
     = Some (adjust (splice (nprev n) (Some b) None (Some i) p) h)"
  proof (cases "nprev n")
    case None
    then have "update p (\<lambda>m. m\<lparr>nchild := Some i\<rparr>) h2 = Some (adjust (splice (nprev n) (Some b) None (Some i) p) h)"
      using p2 assms(8-10) by (subst update_adjust) (auto simp: h2_def h1_def adjust_adjust splice_def fun_eq_iff
          intro!: arg_cong[where f = "\<lambda>g. adjust g h"])
    then show ?thesis using None assms(6) by simp
  next
    case (Some q)
    have "nodes h2 q \<noteq> None" using assms(7)[OF Some] by (auto simp: h2_def) (auto simp: h1_def)
    then have "update q (\<lambda>m. m\<lparr>nnext := Some i\<rparr>) h2 = Some (adjust (splice (nprev n) (Some b) None (Some i) p) h)"
      using Some assms(7)[OF Some] assms(8-10)
      by (subst update_adjust) (auto simp: h2_def h1_def adjust_adjust splice_def fun_eq_iff
          intro!: arg_cong[where f = "\<lambda>g. adjust g h"])
    then show ?thesis using Some assms(6) im by simp
  qed
  show ?thesis using assms(1-3) 1 2 p2 3 by (simp add: cJSON_InsertItemInArray_def)
qed

lemma nth_sibling_linked: "linked h q ts \<Longrightarrow> nth_sibling j (first ts) h = Some (map_option laddr (nth_opt ts j))"
proof (induction ts arbitrary: j q)
  case (Cons t ts)
  have "nodes h (laddr t) = Some (lnode q t ts)" "linked h (Some (laddr t)) ts" using Cons.prems by (simp_all add: linked_hd)
  then show ?case using Cons.IH by (cases j) (auto simp: lnode_def)
qed simp

lemma get_array_item_linked:
  assumes "forest h (LT p t vs vi vd k ch # F)"
  shows "get_array_item_h (Some p) j h = Some (map_option laddr (nth_opt ch j))"
  using nth_sibling_linked[OF array_parts(2)[of h p t vs vi vd k "[]"]] array_parts(1)[of h p t vs vi vd k "[]"] assms
  by (simp add: get_array_item_h_def lnode_def)

lemma forest_swap: "forest h (x # y # F) \<Longrightarrow> forest h (y # x # F)"
  by (rule forest_order) simp_all

lemma first_single [simp]: "first ([] @ ts) = first ts" "first [t] = Some (laddr t)"
  by simp_all

lemma Detach_forest:
  assumes F: "forest h (LT p t vs vi vd k (pre @ x # post) # F)"
  shows "\<exists>h'. cJSON_DetachItemViaPointer (Some p) (Some (laddr x)) h = Some (Some (laddr x), h')
    \<and> forest h' (x # LT p t vs vi vd k (pre @ post) # F) \<and> hmem h' = hmem h"
proof -
  let ?g = "splice (last_addr pre) (first post) (Some (laddr x)) None p"
  note a = array_parts[OF F]
  have xn: "nodes h (laddr x) = Some (lnode (last_addr pre) x post)" "linked h (Some (laddr x)) post"
    using a(3) by (auto simp: linked_hd)
  have D: "distinct (p # node_addrs pre @ node_addrs [x] @ node_addrs post)"
    using forest_distinct[OF F] by (auto simp: node_addrs_hd)
  have nd: "nprev (lnode (last_addr pre) x post) = last_addr pre" "nnext (lnode (last_addr pre) x post) = first post"
    by (simp_all add: lnode_def)
  note ins = last_in[of pre] first_in[of post]
  have "cJSON_DetachItemViaPointer (Some p) (Some (laddr x)) h = Some (Some (laddr x), adjust ?g h)"
  proof (rule Detach_run[OF xn(1) a(1), unfolded nd])
    show "nchild (lnode None (LT p t vs vi vd k (pre @ x # post)) []) = Some (laddr x) \<longleftrightarrow> last_addr pre = None"
      using D first_in[of pre "laddr x"] by (auto simp: lnode_def first_append node_addrs_hd)
    show "nodes h c \<noteq> None \<and> c \<noteq> laddr x \<and> c \<noteq> p \<and> first post \<noteq> Some c" if "last_addr pre = Some c" for c
      using a(11)[OF that] ins[of c] D that by (auto simp: node_addrs_hd)
    show "nodes h c \<noteq> None \<and> c \<noteq> laddr x \<and> c \<noteq> p" if "first post = Some c" for c
      using linked_node[OF xn(2) ins(2)[OF that]] ins[of c] D that by (auto simp: node_addrs_hd)
    show "laddr x \<noteq> p" using D by (auto simp: node_addrs_hd)
  qed
  moreover have "forest (adjust ?g h) ([x] @ LT p t vs vi vd k (pre @ [] @ post) # F)"
    by (rule splice_forest) (use F in simp_all)
  ultimately show ?thesis by simp
qed

lemma Insert_forest:
  assumes F: "forest h (LT p t vs vi vd k (pre @ y # post) # x # F)"
  shows "\<exists>h'. cJSON_InsertItemInArray (Some p) (int (length pre)) (Some (laddr x)) h = Some h'
    \<and> forest h' (LT p t vs vi vd k (pre @ x # y # post) # F) \<and> hmem h' = hmem h"
proof -
  let ?g = "splice (last_addr pre) (first (y # post)) None (Some (laddr x)) p"
  note a = array_parts[OF F]
  have yn: "nodes h (laddr y) = Some (lnode (last_addr pre) y post)" using a(3) by (auto simp: linked_hd)
  have D: "distinct (p # node_addrs pre @ node_addrs [y] @ node_addrs post @ node_addrs [x])"
    using forest_distinct[OF F] by (auto simp: node_addrs_hd)
  have nd: "nprev (lnode (last_addr pre) y post) = last_addr pre" by (simp add: lnode_def)
  have "cJSON_InsertItemInArray (Some p) (int (length pre)) (Some (laddr x)) h = Some (adjust ?g h)"
    unfolding first_simps
  proof (rule Insert_run[OF _ _ yn a(1), unfolded nd])
    show "get_array_item_h (Some p) (nat (int (length pre))) h = Some (Some (laddr y))"
      using get_array_item_linked[OF F] by (simp add: nth_opt_def)
    show "nodes h (laddr x) \<noteq> None" using F by (auto simp: forest_def linked_hd)
    show "nchild (lnode None (LT p t vs vi vd k (pre @ y # post)) []) = Some (laddr y) \<longleftrightarrow> last_addr pre = None"
      using D first_in[of pre "laddr y"] by (auto simp: lnode_def first_append node_addrs_hd)
    show "nodes h c \<noteq> None \<and> c \<noteq> laddr x \<and> c \<noteq> p \<and> c \<noteq> laddr y" if "last_addr pre = Some c" for c
      using a(11)[OF that] D by (auto simp: node_addrs_hd)
    show "laddr x \<noteq> p" "laddr x \<noteq> laddr y" "laddr y \<noteq> p" using D by (auto simp: node_addrs_hd)
  qed simp
  moreover have "forest (adjust ?g h) ([] @ LT p t vs vi vd k (pre @ [x] @ y # post) # F)"
    by (rule splice_forest) (use F in simp_all)
  ultimately show ?thesis by simp
qed

lemma Replace_run:
  assumes "nodes h i = Some n" and "nodes h p = Some m" and "nodes h r \<noteq> None" and "nchild m = Some i \<longleftrightarrow> nprev n = None"
    and "\<And>a. nprev n = Some a \<Longrightarrow> nodes h a \<noteq> None \<and> a \<noteq> i \<and> a \<noteq> p \<and> a \<noteq> r \<and> nnext n \<noteq> Some a"
    and "\<And>a. nnext n = Some a \<Longrightarrow> nodes h a \<noteq> None \<and> a \<noteq> i \<and> a \<noteq> p \<and> a \<noteq> r" and "i \<noteq> p" "r \<noteq> i" "r \<noteq> p"
  shows "cJSON_ReplaceItemViaPointer (Some p) (Some i) (Some r) h
    = map_option (Pair True) (cJSON_Delete (Some i) (adjust (splice (nprev n) (nnext n) (Some i) (Some r) p) h))"
proof -
  let ?at = "\<lambda>c f b. if c = Some b then f else (\<lambda>n. n)"
  define h1 where "h1 = adjust (?at (Some r) (\<lambda>m. m\<lparr>nnext := nnext n, nprev := nprev n\<rparr>)) h"
  define h2 where "h2 = adjust (?at (nnext n) (\<lambda>m. m\<lparr>nprev := Some r\<rparr>)) h1"
  define h3 where "h3 = adjust (?at (nprev n) (\<lambda>m. m\<lparr>nnext := Some r\<rparr>)) h2"
  define h4 where "h4 = (if nprev n = None then adjust (?at (Some p) (\<lambda>m. m\<lparr>nchild := Some r\<rparr>)) h3 else h3)"
  define h5 where "h5 = adjust (?at (Some i) (\<lambda>m. m\<lparr>nnext := None, nprev := None\<rparr>)) h4"
  have at: "update_opt (Some a) f h = update a f h" for a f h by (simp add: update_opt_def)
  obtain rm where rm: "nodes h1 r = Some rm" "nnext rm = nnext n" "nprev rm = nprev n"
    using assms(3) by (auto simp: h1_def)
  have r2: "nodes h2 r = Some rm" using rm(1) assms(6) by (auto simp: h2_def)
  have p3: "nodes h3 p = Some m" using assms(2,5-9) by (auto simp: h3_def h2_def h1_def)
  have i4: "nodes h4 i \<noteq> None" using assms(1) by (auto simp: h4_def h3_def h2_def h1_def)
  have 1: "update r (\<lambda>m. m\<lparr>nnext := nnext n, nprev := nprev n\<rparr>) h = Some h1"
    unfolding h1_def at[symmetric] by (rule update_opt_adjust) (use assms(3) in simp)
  have 2: "update_opt (nnext n) (\<lambda>m. m\<lparr>nprev := Some r\<rparr>) h1 = Some h2"
    unfolding h2_def by (rule update_opt_adjust) (use assms(6) in \<open>auto simp: h1_def\<close>)
  have 3: "update_opt (nprev n) (\<lambda>m. m\<lparr>nnext := Some r\<rparr>) h2 = Some h3"
    unfolding h3_def by (rule update_opt_adjust) (use assms(5) in \<open>auto simp: h2_def h1_def\<close>)
  have 4: "(if nchild m = Some i then update p (\<lambda>m. m\<lparr>nchild := Some r\<rparr>) h3 else Some h3) = Some h4"
    using p3 assms(4) update_opt_adjust[of "Some p" h3 "\<lambda>m. m\<lparr>nchild := Some r\<rparr>"] by (simp add: h4_def at)
  have 5: "update i (\<lambda>m. m\<lparr>nnext := None, nprev := None\<rparr>) h4 = Some h5"
    unfolding h5_def at[symmetric] by (rule update_opt_adjust) (use i4 in simp)
  have "h5 = adjust (splice (nprev n) (nnext n) (Some i) (Some r) p) h"
  proof -
    have "h5 = adjust (\<lambda>a m. ?at (Some i) (\<lambda>m. m\<lparr>nnext := None, nprev := None\<rparr>) a
        ((if nprev n = None then ?at (Some p) (\<lambda>m. m\<lparr>nchild := Some r\<rparr>) a else (\<lambda>m. m)) (?at (nprev n) (\<lambda>m. m\<lparr>nnext := Some r\<rparr>) a
          (?at (nnext n) (\<lambda>m. m\<lparr>nprev := Some r\<rparr>) a (?at (Some r) (\<lambda>m. m\<lparr>nnext := nnext n, nprev := nprev n\<rparr>) a m))))) h"
      by (cases "nprev n") (simp_all add: h5_def h4_def h3_def h2_def h1_def adjust_adjust comp_def)
    also have "\<dots> = adjust (splice (nprev n) (nnext n) (Some i) (Some r) p) h"
    proof (intro arg_cong[where f = "\<lambda>g. adjust g h"] ext, goal_cases)
      case (1 a m)
      consider "a = i" | "a = r" | "a = p" | "nprev n = Some a" | "nnext n = Some a" "nprev n \<noteq> Some a"
        | "a \<noteq> i" "a \<noteq> r" "a \<noteq> p" "nprev n \<noteq> Some a" "nnext n \<noteq> Some a" by blast
      then show ?case by cases (use assms(5)[of a] assms(6)[of a] assms(7-9) in \<open>auto simp: splice_def\<close>)
    qed
    finally show ?thesis .
  qed
  then show ?thesis using assms(1,8) 1 rm 2 r2 3 p3 4 5
    by (cases "cJSON_Delete (Some i) h5") (simp_all add: cJSON_ReplaceItemViaPointer_def)
qed

lemma Replace_forest:
  assumes F: "forest h (LT p t vs vi vd k (pre @ y # post) # x # F)"
  shows "\<exists>h'. cJSON_ReplaceItemViaPointer (Some p) (Some (laddr y)) (Some (laddr x)) h = Some (True, h')
    \<and> forest h' (LT p t vs vi vd k (pre @ x # post) # F) \<and> hmem h' = hmem h"
proof -
  let ?g = "splice (last_addr pre) (first post) (Some (laddr y)) (Some (laddr x)) p"
  note a = array_parts[OF F]
  have yn: "nodes h (laddr y) = Some (lnode (last_addr pre) y post)" "linked h (Some (laddr y)) post"
    using a(3) by (auto simp: linked_hd)
  have D: "distinct (p # node_addrs pre @ node_addrs [y] @ node_addrs post @ node_addrs [x])"
    using forest_distinct[OF F] by (auto simp: node_addrs_hd)
  have nd: "nprev (lnode (last_addr pre) y post) = last_addr pre" "nnext (lnode (last_addr pre) y post) = first post"
    by (simp_all add: lnode_def)
  note ins = last_in[of pre] first_in[of post]
  have run: "cJSON_ReplaceItemViaPointer (Some p) (Some (laddr y)) (Some (laddr x)) h
      = map_option (Pair True) (cJSON_Delete (Some (laddr y)) (adjust ?g h))"
  proof (rule Replace_run[OF yn(1) a(1), unfolded nd])
    show "nodes h (laddr x) \<noteq> None" using F by (auto simp: forest_def linked_hd)
    show "nchild (lnode None (LT p t vs vi vd k (pre @ y # post)) []) = Some (laddr y) \<longleftrightarrow> last_addr pre = None"
      using D first_in[of pre "laddr y"] by (auto simp: lnode_def first_append node_addrs_hd)
    show "nodes h c \<noteq> None \<and> c \<noteq> laddr y \<and> c \<noteq> p \<and> c \<noteq> laddr x \<and> first post \<noteq> Some c" if "last_addr pre = Some c" for c
      using a(11)[OF that] ins[of c] D that by (auto simp: node_addrs_hd)
    show "nodes h c \<noteq> None \<and> c \<noteq> laddr y \<and> c \<noteq> p \<and> c \<noteq> laddr x" if "first post = Some c" for c
      using linked_node[OF yn(2) ins(2)[OF that]] ins[of c] D that by (auto simp: node_addrs_hd)
    show "laddr y \<noteq> p" "laddr x \<noteq> laddr y" "laddr x \<noteq> p" using D by (auto simp: node_addrs_hd)
  qed
  have "forest (adjust ?g h) ([y] @ LT p t vs vi vd k (pre @ [x] @ post) # F)"
    by (rule splice_forest) (use F in simp_all)
  from Delete_forest[of "adjust ?g h" "[]" y] this run show ?thesis by fastforce
qed

section \<open>Arrays by index\<close>

lemma take_nth_drop: "k < length ch \<Longrightarrow> ch = take k ch @ ch ! k # drop (Suc k) ch"
  by (simp add: id_take_nth_drop)

text \<open>C18: \<open>cJSON_InsertItemInArray\<close> takes a tree of the store for any position that is not negative: the
  tree becomes the child at that position, or the last one when there is no child at it.\<close>

theorem InsertItemInArray_inserts:
  assumes "forest h (LT p t vs vi vd k ch # x # F)" and "0 \<le> i"
  shows "\<exists>h'. cJSON_InsertItemInArray (Some p) i (Some (laddr x)) h = Some h'
    \<and> forest h' (LT p t vs vi vd k (take (nat i) ch @ x # drop (nat i) ch) # F) \<and> hmem h' = hmem h"
proof (cases "nat i < length ch")
  case True
  then show ?thesis using Insert_forest[of h p t vs vi vd k "take (nat i) ch" "ch ! nat i" "drop (Suc (nat i)) ch" x F]
      assms take_nth_drop[OF True] Cons_nth_drop_Suc[OF True] by (simp add: min_def)
next
  case False
  have "cJSON_InsertItemInArray (Some p) i (Some (laddr x)) h = cJSON_AddItemToArray (Some p) (Some (laddr x)) h"
    using False assms(2) get_array_item_linked[OF assms(1), of "nat i"] by (simp add: cJSON_InsertItemInArray_def nth_opt_def)
  then show ?thesis using AddItemToArray_forest[OF forest_swap[OF assms(1)]] False by simp
qed

text \<open>\<open>cJSON_DetachItemFromArray\<close> takes the child at the index out and returns it as a tree of its
  own; with no child at the index it returns NULL and changes nothing.\<close>

lemma DetachItemFromArray_forest:
  assumes "forest h (LT p t vs vi vd k ch # F)"
  shows "if 0 \<le> i \<and> nat i < length ch
    then \<exists>h'. cJSON_DetachItemFromArray (Some p) i h = Some (Some (laddr (ch ! nat i)), h')
      \<and> forest h' (ch ! nat i # LT p t vs vi vd k (take (nat i) ch @ drop (Suc (nat i)) ch) # F) \<and> hmem h' = hmem h
    else cJSON_DetachItemFromArray (Some p) i h = Some (None, h)"
proof (cases "0 \<le> i \<and> nat i < length ch")
  case True
  have "forest h (LT p t vs vi vd k (take (nat i) ch @ ch ! nat i # drop (Suc (nat i)) ch) # F)"
    using assms True by (metis take_nth_drop)
  from Detach_forest[OF this] True get_array_item_linked[OF assms, of "nat i"]
  show ?thesis by (simp add: cJSON_DetachItemFromArray_def nth_opt_def)
next
  case False
  then show ?thesis using get_array_item_linked[OF assms, of "nat i"]
    by (auto simp: cJSON_DetachItemFromArray_def nth_opt_def cJSON_DetachItemViaPointer_def)
qed

text \<open>\<open>cJSON_DeleteItemFromArray\<close> removes the child at the index and frees exactly its blocks; with no
  child at the index it changes nothing.\<close>

theorem DeleteItemFromArray_deletes:
  assumes "forest h (LT p t vs vi vd k ch # F)"
  shows "\<exists>h'. cJSON_DeleteItemFromArray (Some p) i h = Some h'
    \<and> forest h' (LT p t vs vi vd k (if i < 0 then ch else take (nat i) ch @ drop (Suc (nat i)) ch) # F) \<and> hmem h' = hmem h"
proof (cases "0 \<le> i \<and> nat i < length ch")
  case True
  then obtain h1 where "cJSON_DetachItemFromArray (Some p) i h = Some (Some (laddr (ch ! nat i)), h1)" "hmem h1 = hmem h"
    and f: "forest h1 ([] @ ch ! nat i # LT p t vs vi vd k (take (nat i) ch @ drop (Suc (nat i)) ch) # F)"
    using DetachItemFromArray_forest[OF assms, of i] by auto
  with Delete_forest[OF f] True show ?thesis by (auto simp: cJSON_DeleteItemFromArray_def)
next
  case False
  then have "cJSON_DeleteItemFromArray (Some p) i h = Some h"
    using DetachItemFromArray_forest[OF assms, of i] cJSON_Delete.simps[of None h]
    by (auto simp: cJSON_DeleteItemFromArray_def simp del: cJSON_Delete.simps)
  then show ?thesis using False assms by auto
qed

text \<open>C17: \<open>cJSON_ReplaceItemInArray\<close> puts the tree in the place of the child at the index and frees that
  child; with no child at the index it changes nothing, and the tree stays without a parent.\<close>

theorem ReplaceItemInArray_replaces:
  assumes "forest h (LT p t vs vi vd k ch # x # F)"
  shows "\<exists>h'. cJSON_ReplaceItemInArray (Some p) i (Some (laddr x)) h = Some h' \<and> hmem h' = hmem h
    \<and> forest h' (if 0 \<le> i \<and> nat i < length ch then LT p t vs vi vd k (ch[nat i := x]) # F
        else LT p t vs vi vd k ch # x # F)"
proof (cases "0 \<le> i \<and> nat i < length ch")
  case True
  have "forest h (LT p t vs vi vd k (take (nat i) ch @ ch ! nat i # drop (Suc (nat i)) ch) # x # F)"
    using assms True by (metis take_nth_drop)
  from Replace_forest[OF this] True get_array_item_linked[OF assms, of "nat i"]
  show ?thesis by (auto simp: cJSON_ReplaceItemInArray_def nth_opt_def upd_conv_take_nth_drop)
next
  case False
  then show ?thesis using assms get_array_item_linked[OF assms, of "nat i"]
    by (auto simp: cJSON_ReplaceItemInArray_def nth_opt_def cJSON_ReplaceItemViaPointer_def)
qed

section \<open>Objects by name\<close>

definition other_name :: "bytes \<Rightarrow> ltree \<Rightarrow> bool" where
  "other_name s t \<longleftrightarrow> case_insensitive_strcmp (Some s) (map_option snd (lkey t)) \<noteq> 0"

lemma deref_string_at: "string_at h v \<Longrightarrow> deref (map_option fst v) h = Some (map_option snd v)"
  by (cases v) (auto simp: string_at_def deref_def)

lemma find_sibling_name: "linked h q ts \<Longrightarrow> find_sibling s False (first ts) h = Some (first (dropWhile (other_name s) ts))"
proof (induction ts arbitrary: q)
  case (Cons t ts)
  have "nodes h (laddr t) = Some (lnode q t ts)" "deref (map_option fst (lkey t)) h = Some (map_option snd (lkey t))"
    "linked h (Some (laddr t)) ts"
    using Cons.prems by (simp_all add: linked_hd deref_string_at)
  moreover have "case_insensitive_strcmp (Some s) (map_option snd (lkey t)) = 0 \<longleftrightarrow> \<not> other_name s t"
    by (simp add: other_name_def)
  ultimately show ?case using Cons.IH by (subst find_sibling.simps) (auto simp: lnode_def)
qed (simp add: find_sibling.simps)

lemma get_object_item_linked:
  assumes "forest h (LT p t vs vi vd k ch # F)"
  shows "get_object_item_h (Some p) (Some s) False h = Some (first (dropWhile (other_name s) ch))"
  using array_parts(1,2)[of h p t vs vi vd k "[]" ch F] assms find_sibling_name[of h None ch s]
  by (simp add: get_object_item_h_def lnode_def)

text \<open>C19: \<open>cJSON_DeleteItemFromObject\<close> removes the first member whose name is the string up to the case of
  its letters and frees exactly its blocks; when no member has the name it changes nothing.\<close>

theorem DeleteItemFromObject_deletes:
  assumes "forest h (LT p t vs vi vd k ch # F)"
  shows "\<exists>h'. cJSON_DeleteItemFromObject (Some p) (Some s) h = Some h' \<and> hmem h' = hmem h
    \<and> forest h' (LT p t vs vi vd k (takeWhile (other_name s) ch @ tl (dropWhile (other_name s) ch)) # F)"
proof (cases "dropWhile (other_name s) ch")
  case Nil
  then have "takeWhile (other_name s) ch = ch" by (metis append_Nil2 takeWhile_dropWhile_id)
  moreover have "get_object_item_h (Some p) (Some s) False h = Some None"
    using get_object_item_linked[OF assms, of s] by (simp only: Nil first_simps)
  then have "cJSON_DeleteItemFromObject (Some p) (Some s) h = Some h"
    using cJSON_Delete.simps[of None h]
    by (simp add: cJSON_DeleteItemFromObject_def cJSON_DetachItemFromObject_def detach_from_object_def
        cJSON_DetachItemViaPointer_def del: cJSON_Delete.simps)
  ultimately show ?thesis using assms by (simp only: Nil list.sel append_Nil2 simp_thms) simp
next
  case (Cons x post)
  then have ch: "ch = takeWhile (other_name s) ch @ x # post" by (metis takeWhile_dropWhile_id)
  then have F: "forest h (LT p t vs vi vd k (takeWhile (other_name s) ch @ x # post) # F)" using assms by simp
  obtain h1 where d: "cJSON_DetachItemViaPointer (Some p) (Some (laddr x)) h = Some (Some (laddr x), h1)" "hmem h1 = hmem h"
    and f: "forest h1 ([] @ x # LT p t vs vi vd k (takeWhile (other_name s) ch @ post) # F)"
    using Detach_forest[OF F] by auto
  with Delete_forest[OF f] get_object_item_linked[OF assms, of s] Cons show ?thesis
    by (auto simp: cJSON_DeleteItemFromObject_def cJSON_DetachItemFromObject_def detach_from_object_def)
qed

section \<open>Examples\<close>

text \<open>In the store of \<^const>\<open>sample_heap\<close> the second tree moves into the first, in front of its only child
  or in its place; or the child is deleted.\<close>

theorem InsertItemInArray_inserts_witness:
  "\<exists>h'. cJSON_InsertItemInArray (Some 0) 0 (Some 4) sample_heap = Some h'
    \<and> forest h' [LT 0 64 None 0 (Fin 0) None [LT 4 64 None 0 (Fin 0) None [], LT 1 16 (Some (2, ''a'')) 0 (Fin 0) (Some (3, ''k'')) []]]"
  using InsertItemInArray_inserts[of sample_heap 0 64 None 0 "Fin 0" None _ "LT 4 64 None 0 (Fin 0) None []" "[]" 0]
    sample_forest by (fastforce simp: sample_forest_def)

theorem DeleteItemFromArray_deletes_witness:
  "\<exists>h'. cJSON_DeleteItemFromArray (Some 0) 0 sample_heap = Some h'
    \<and> forest h' [LT 0 64 None 0 (Fin 0) None [], LT 4 64 None 0 (Fin 0) None []]"
  using DeleteItemFromArray_deletes[of sample_heap 0 64 None 0 "Fin 0" None _ "[LT 4 64 None 0 (Fin 0) None []]" 0]
    sample_forest by (fastforce simp: sample_forest_def)

theorem ReplaceItemInArray_replaces_witness:
  "\<exists>h'. cJSON_ReplaceItemInArray (Some 0) 0 (Some 4) sample_heap = Some h'
    \<and> forest h' [LT 0 64 None 0 (Fin 0) None [LT 4 64 None 0 (Fin 0) None []]]"
  using ReplaceItemInArray_replaces[of sample_heap 0 64 None 0 "Fin 0" None _ "LT 4 64 None 0 (Fin 0) None []" "[]" 0]
    sample_forest by (fastforce simp: sample_forest_def)

theorem DeleteItemFromObject_deletes_witness:
  "\<exists>h'. cJSON_DeleteItemFromObject (Some 0) (Some ''K'') sample_heap = Some h'
    \<and> forest h' [LT 0 64 None 0 (Fin 0) None [], LT 4 64 None 0 (Fin 0) None []]"
proof -
  have "\<not> other_name ''K'' (LT 1 16 (Some (2, ''a'')) 0 (Fin 0) (Some (3, ''k'')) [])"
    by (simp add: other_name_def case_insensitive_strcmp_def tolower_def)
  then show ?thesis
    using DeleteItemFromObject_deletes[of sample_heap 0 64 None 0 "Fin 0" None _ "[LT 4 64 None 0 (Fin 0) None []]" "''K''"]
      sample_forest by (fastforce simp: sample_forest_def)
qed

end
