(* ===== verification/HeapArrays.thy ===== *)
theory HeapArrays
  imports HeapCopy
begin

text \<open>
  The functions that make an array of the values in a block (\<open>cJSON_CreateIntArray\<close> and the others):
  what they need of the function that makes one item, and what they make.
\<close>

section \<open>Filling an array\<close>

text \<open>The interface to a function that makes an item: it makes a new tree in blocks of its own, or
  has freed what it had allocated when memory runs out.\<close>

locale item_maker =
  fixes mk :: "'a \<Rightarrow> heap \<Rightarrow> (addr option \<times> heap) option" and item :: "'a \<Rightarrow> cJSON" and fine :: "'a \<Rightarrow> bool"
  assumes makes: "forest h F \<Longrightarrow> fine x \<Longrightarrow> copied (mk x h) h (item x) F"
begin

lemma fill_array_makes:
  assumes "forest h (LT a t vs vi vd k ds # F)" and "n \<le> length xs" and "\<forall>x \<in> set (take n xs). fine x"
  shows "(\<exists>h'. fill_array mk a (last_addr ds) n xs h = Some (None, h') \<and> forest h' F \<and> hmem h \<noteq> [])
    \<or> (\<exists>h' ys. fill_array mk a (last_addr ds) n xs h = Some (Some a, h')
        \<and> forest h' (LT a t vs vi vd k (ds @ ys) # F) \<and> map erase ys = map item (take n xs) \<and> (hmem h = [] \<longrightarrow> hmem h' = []))"
  using assms
proof (induction n arbitrary: xs ds h)
  case (Suc n)
  then obtain x xs' where xs: "xs = x # xs'" by (cases xs) auto
  have "copied (mk x h) h (item x) (LT a t vs vi vd k ds # F)"
    by (rule makes[OF Suc.prems(1)]) (use Suc.prems(3) xs in simp)
  then consider (failed) h1 where "mk x h = Some (None, h1)" "forest h1 (LT a t vs vi vd k ds # F)" "hmem h \<noteq> []"
    | (made) y h1 where "mk x h = Some (Some (laddr y), h1)" "forest h1 (y # LT a t vs vi vd k ds # F)"
      "erase y = item x" "hmem h = [] \<longrightarrow> hmem h1 = []" by (auto simp: copied_def)
  then show ?case
  proof cases
    case failed
    then show ?thesis using Delete_forest[of h1 "[]" "LT a t vs vi vd k ds" F] by (auto simp: xs)
  next
    case (made y h1)
    obtain h2 where h2: "(case last_addr ds of None \<Rightarrow> update a (\<lambda>k. k\<lparr>nchild := Some (laddr y)\<rparr>) h1
        | Some x \<Rightarrow> suffix_object x (laddr y) h1) = Some h2" "forest h2 (LT a t vs vi vd k (ds @ [y]) # F)" "hmem h2 = hmem h1"
      using link_child[OF made(2)] by blast
    have run: "fill_array mk a (last_addr ds) (Suc n) xs h = fill_array mk a (last_addr (ds @ [y])) n xs' h2"
      using made(1) h2(1) by (simp add: xs) (simp add: last_addr_def)
    have "n \<le> length xs'" "\<forall>x \<in> set (take n xs'). fine x" using Suc.prems(2,3) by (simp_all add: xs)
    from Suc.IH[OF h2(2) this] show ?thesis
    proof (elim disjE exE conjE, goal_cases)
      case (1 h')
      then show ?thesis using made(4) h2(3) run by auto
    next
      case (2 h' ys)
      then show ?thesis using made(3,4) h2(3) run xs by (intro disjI2 exI[of _ h'] exI[of _ "y # ys"]) auto
    qed
  qed
qed auto

lemma create_array_makes:
  assumes F: "forest h F" and n: "0 \<le> cnt" "nat cnt \<le> length xs" and x: "\<forall>x \<in> set (take (nat cnt) xs). fine x"
  shows "copied (create_array mk (Some xs) cnt h) h (CJSON cJSON_Array None 0 (Fin 0) None (map item (take (nat cnt) xs))) F"
proof -
  have c: "\<not> has_flag cJSON_Array cJSON_IsReference" "\<not> has_flag cJSON_Array cJSON_StringIsConst"
    by (simp_all add: has_flag_def)
  have "blank_node\<lparr>ntype := cJSON_Array\<rparr> = lnode None (leaf (brk h) cJSON_Array None 0 (Fin 0)) []"
    by (simp add: blank_node_def lnode_def leaf_def)
  from create_forest[of h F "\<lambda>n. n\<lparr>ntype := cJSON_Array\<rparr>", OF F this c, folded cJSON_CreateArray_def]
  consider (failed) h1 where "cJSON_CreateArray h = Some (None, h1)" "forest h1 F" "hmem h \<noteq> []"
    | (made) h1 where "cJSON_CreateArray h = Some (Some (brk h), h1)"
      "forest h1 (LT (brk h) cJSON_Array None 0 (Fin 0) None [] # F)" "hmem h1 = snd (alloc (hmem h))"
    by (auto simp: leaf_def)
  then show ?thesis
  proof cases
    case failed
    then show ?thesis using n(1) by (simp add: create_array_def copied_def)
  next
    case (made h1)
    have m: "hmem h = [] \<Longrightarrow> hmem h1 = []" "hmem h1 \<noteq> [] \<Longrightarrow> hmem h \<noteq> []" using made(3) by auto
    have run: "create_array mk (Some xs) cnt h = fill_array mk (brk h) (last_addr []) (nat cnt) xs h1"
      using made(1) n(1) by (simp add: create_array_def last_addr_def)
    from fill_array_makes[OF made(2) n(2) x] show ?thesis unfolding run copied_def
      by (elim disjE exE conjE) (auto intro!: m exI[of _ "LT (brk h) cJSON_Array None 0 (Fin 0) None _"])
  qed
qed

text \<open>A count that is too large makes the loop read behind the block.\<close>

lemma fill_array_overruns:
  assumes "forest h (LT a t vs vi vd k ds # F)" and "length xs < n" and "\<forall>x \<in> set xs. fine x" and "hmem h = []"
  shows "fill_array mk a (last_addr ds) n xs h = None"
  using assms
proof (induction xs arbitrary: n ds h)
  case Nil
  then show ?case by (cases n) auto
next
  case (Cons x xs)
  then obtain n' where n: "n = Suc n'" by (cases n) auto
  have "copied (mk x h) h (item x) (LT a t vs vi vd k ds # F)"
    by (rule makes[OF Cons.prems(1)]) (use Cons.prems(3) in simp)
  then obtain y h1 where made: "mk x h = Some (Some (laddr y), h1)" "forest h1 (y # LT a t vs vi vd k ds # F)" "hmem h1 = []"
    using Cons.prems(4) by (auto simp: copied_def)
  obtain h2 where h2: "(case last_addr ds of None \<Rightarrow> update a (\<lambda>k. k\<lparr>nchild := Some (laddr y)\<rparr>) h1
      | Some x \<Rightarrow> suffix_object x (laddr y) h1) = Some h2" "forest h2 (LT a t vs vi vd k (ds @ [y]) # F)" "hmem h2 = hmem h1"
    using link_child[OF made(2)] by blast
  have "fill_array mk a (last_addr (ds @ [y])) n' xs h2 = None"
    using Cons.prems n made h2 by (intro Cons.IH) auto
  then show ?case using made(1) h2(1) n by (simp add: last_addr_def)
qed

end

section \<open>The makers of items\<close>

definition number_item :: "double \<Rightarrow> cJSON" where
  "number_item d = CJSON cJSON_Number None (saturate d) d None []"

lemma CreateNumber_copied: "forest h F \<Longrightarrow> copied (cJSON_CreateNumber d h) h (number_item d) F"
proof -
  assume F: "forest h F"
  have c: "\<not> has_flag cJSON_Number cJSON_IsReference" "\<not> has_flag cJSON_Number cJSON_StringIsConst"
    by (simp_all add: has_flag_def)
  have "blank_node\<lparr>ntype := cJSON_Number, nvaluedouble := d, nvalueint := saturate d\<rparr>
      = lnode None (leaf (brk h) cJSON_Number None (saturate d) d) []"
    by (simp add: blank_node_def lnode_def leaf_def)
  from create_forest[of h F "\<lambda>n. n\<lparr>ntype := cJSON_Number, nvaluedouble := d, nvalueint := saturate d\<rparr>", OF F this c,
      folded cJSON_CreateNumber_def]
  show ?thesis by (auto simp: copied_def leaf_def number_item_def intro!: exI[of _ "LT (brk h) cJSON_Number None (saturate d) d None []"])
qed

lemma CreateString_copied: "forest h F \<Longrightarrow> s \<noteq> None \<Longrightarrow> copied (cJSON_CreateString s h) h (CJSON cJSON_String s 0 (Fin 0) None []) F"
proof -
  assume F: "forest h F" and "s \<noteq> None"
  then obtain b where "s = Some b" by auto
  with CreateString_forest[OF F, of b] show ?thesis
    by (auto simp: copied_def leaf_def intro!: exI[of _ "LT (brk h) cJSON_String (Some (brk h + 1, b)) 0 (Fin 0) None []"])
qed

interpretation numbers: item_maker cJSON_CreateNumber number_item "\<lambda>_. True"
  by unfold_locales (rule CreateNumber_copied)

interpretation integers: item_maker "\<lambda>n. cJSON_CreateNumber (dbl_int n)" "\<lambda>n. number_item (dbl_int n)" "\<lambda>_. True"
  by unfold_locales (rule CreateNumber_copied)

interpretation texts: item_maker cJSON_CreateString "\<lambda>s. CJSON cJSON_String s 0 (Fin 0) None []" "\<lambda>s. s \<noteq> None"
  by unfold_locales (rule CreateString_copied)

section \<open>Arrays of numbers and strings\<close>

text \<open>C15: \<open>cJSON_CreateIntArray\<close> and \<open>cJSON_CreateStringArray\<close> make an array of the first values of the
  block, in their order and in blocks of its own, or free the part that is made when memory runs
  out.\<close>

theorem create_arrays:
  assumes "forest h F" and "0 \<le> cnt" and "cnt \<le> int (length ns)" and "cnt \<le> int (length ss)" and "None \<notin> set ss"
  shows "copied (cJSON_CreateIntArray (Some ns) cnt h) h
      (CJSON 32 None 0 (Fin 0) None (map (\<lambda>n. number_item (dbl_int n)) (take (nat cnt) ns))) F
    \<and> copied (cJSON_CreateStringArray (Some ss) cnt h) h
      (CJSON 32 None 0 (Fin 0) None (map (\<lambda>s. CJSON 16 s 0 (Fin 0) None []) (take (nat cnt) ss))) F"
proof
  have l: "nat cnt \<le> length ns" "nat cnt \<le> length ss" using assms(3,4) by simp_all
  show "copied (cJSON_CreateIntArray (Some ns) cnt h) h
      (CJSON 32 None 0 (Fin 0) None (map (\<lambda>n. number_item (dbl_int n)) (take (nat cnt) ns))) F"
    using integers.create_array_makes[OF assms(1,2) l(1)] by (simp add: cJSON_CreateIntArray_def)
  have "\<forall>x \<in> set (take (nat cnt) ss). x \<noteq> None" using assms(5) by (metis in_set_takeD)
  from texts.create_array_makes[OF assms(1,2) l(2) this]
  show "copied (cJSON_CreateStringArray (Some ss) cnt h) h
      (CJSON 32 None 0 (Fin 0) None (map (\<lambda>s. CJSON 16 s 0 (Fin 0) None []) (take (nat cnt) ss))) F"
    by (simp add: cJSON_CreateStringArray_def)
qed

theorem create_arrays_witness:
  "copied (cJSON_CreateIntArray (Some [7, 8]) 1 (empty_heap [True, False])) (empty_heap [True, False])
      (CJSON 32 None 0 (Fin 0) None [number_item (dbl_int 7)]) []"
  using create_arrays[of "empty_heap [True, False]" "[]" 1 "[7, 8]" "[Some ''a'']"] empty_heap_forest[of "[True, False]"]
  by simp

end
