(* ===== verification/CJsonHooks.thy ===== *)
theory CJsonHooks
  imports PrintRefine ParseSafety
begin

text \<open>
  The global state of \<open>src/contrib/cJSON.c\<close>: the allocation functions that \<open>cJSON_InitHooks\<close>
  selects, and the error position that \<open>cJSON_ParseWithOpts\<close> leaves for \<open>cJSON_GetErrorPtr\<close>.
  Functions are compared as C compares their addresses: \<open>malloc\<close>, \<open>free\<close> and \<open>realloc\<close> of the
  C library, or a function of the caller's.
\<close>

section \<open>The hooks\<close>

datatype c_function = C_malloc | C_free | C_realloc | User nat

record cJSON_Hooks =
  malloc_fn :: "c_function option"
  free_fn :: "c_function option"

record internal_hooks =
  allocate :: c_function
  deallocate :: c_function
  reallocate :: "c_function option"

definition initial_hooks :: internal_hooks where
  "initial_hooks = \<lparr>allocate = C_malloc, deallocate = C_free, reallocate = Some C_realloc\<rparr>"

text \<open>The assignments to \<open>global_hooks\<close>, in the order of the code.\<close>

definition cJSON_InitHooks :: "cJSON_Hooks option \<Rightarrow> internal_hooks \<Rightarrow> internal_hooks" where
  "cJSON_InitHooks hs g = (case hs of
     None \<Rightarrow> g\<lparr>allocate := C_malloc, deallocate := C_free, reallocate := Some C_realloc\<rparr>
   | Some hk \<Rightarrow>
       (let g1 = g\<lparr>allocate := C_malloc\<rparr>;
            g2 = (case malloc_fn hk of None \<Rightarrow> g1 | Some f \<Rightarrow> g1\<lparr>allocate := f\<rparr>);
            g3 = g2\<lparr>deallocate := C_free\<rparr>;
            g4 = (case free_fn hk of None \<Rightarrow> g3 | Some f \<Rightarrow> g3\<lparr>deallocate := f\<rparr>);
            g5 = g4\<lparr>reallocate := None\<rparr>
        in if allocate g5 = C_malloc \<and> deallocate g5 = C_free then g5\<lparr>reallocate := Some C_realloc\<rparr> else g5))"

text \<open>The two calls through the hooks; \<open>run\<close> is what the functions do to a state of the caller's.\<close>

definition cJSON_malloc :: "(c_function \<Rightarrow> nat \<Rightarrow> 's \<Rightarrow> 'r) \<Rightarrow> internal_hooks \<Rightarrow> nat \<Rightarrow> 's \<Rightarrow> 'r" where
  "cJSON_malloc run g size_of s = run (allocate g) size_of s"

definition cJSON_free :: "(c_function \<Rightarrow> 'p \<Rightarrow> 's \<Rightarrow> 's) \<Rightarrow> internal_hooks \<Rightarrow> 'p \<Rightarrow> 's \<Rightarrow> 's" where
  "cJSON_free run g object s = run (deallocate g) object s"

text \<open>\<open>realloc\<close> is only ever used on blocks of \<open>malloc\<close> that \<open>free\<close> can release.\<close>

definition hooks_sound :: "internal_hooks \<Rightarrow> bool" where
  "hooks_sound g \<longleftrightarrow> (reallocate g \<noteq> None \<longleftrightarrow> allocate g = C_malloc \<and> deallocate g = C_free)
     \<and> (\<forall>f. reallocate g = Some f \<longrightarrow> f = C_realloc)"

lemma hooks_sound_initial: "hooks_sound initial_hooks"
  by (simp add: hooks_sound_def initial_hooks_def)

lemma hooks_sound_InitHooks: "hooks_sound (cJSON_InitHooks hs g)"
  by (simp add: hooks_sound_def cJSON_InitHooks_def Let_def split: option.splits)

lemma InitHooks_functions:
  "allocate (cJSON_InitHooks hs g) = (case Option.bind hs malloc_fn of None \<Rightarrow> C_malloc | Some f \<Rightarrow> f)"
  "deallocate (cJSON_InitHooks hs g) = (case Option.bind hs free_fn of None \<Rightarrow> C_free | Some f \<Rightarrow> f)"
  by (simp_all add: cJSON_InitHooks_def Let_def split: option.splits)

lemma InitHooks_forgets: "cJSON_InitHooks hs g = cJSON_InitHooks hs g'"
proof -
  have "internal_hooks.more g = internal_hooks.more g'" by simp
  then show ?thesis by (cases g; cases g') (auto simp: cJSON_InitHooks_def Let_def split: option.splits)
qed

text \<open>What the printers do with the hooks: \<open>print\<close> is called with \<open>&global_hooks\<close>.\<close>

definition print_hooked :: "internal_hooks \<Rightarrow> cJSON option \<Rightarrow> bool \<Rightarrow> mem \<Rightarrow> printed" where
  "print_hooked g item fmt m = print item fmt (reallocate g \<noteq> None) m"

section \<open>The version\<close>

definition CJSON_VERSION_MAJOR :: nat where "CJSON_VERSION_MAJOR = 1"
definition CJSON_VERSION_MINOR :: nat where "CJSON_VERSION_MINOR = 6"
definition CJSON_VERSION_PATCH :: nat where "CJSON_VERSION_PATCH = 0"

definition cJSON_Version :: bytes where
  "cJSON_Version = dec_digits CJSON_VERSION_MAJOR @ ''.'' @ dec_digits CJSON_VERSION_MINOR @ ''.'' @ dec_digits CJSON_VERSION_PATCH"

lemma Version_fits: "cJSON_Version = ''1.6.0''" "length (cJSON_Version @ [NUL]) \<le> 15"
  by code_simp+

section \<open>The error pointer\<close>

text \<open>\<open>global_error\<close>: the text of the last parse that failed, and the position in it.\<close>

record global_error =
  error_json :: "bytes option"
  error_offset :: nat

definition no_error :: global_error where
  "no_error = \<lparr>error_json = None, error_offset = 0\<rparr>"

text \<open>\<open>cJSON_ParseWithOpts\<close> resets the global, and fills it when it fails on a text.\<close>

definition parse_global_error :: "bytes option \<Rightarrow> parse_report \<Rightarrow> global_error" where
  "parse_global_error value r = (case error_position r of None \<Rightarrow> no_error
     | Some p \<Rightarrow> \<lparr>error_json = value, error_offset = p\<rparr>)"

text \<open>The string at the pointer that is returned, \<^const>\<open>None\<close> for NULL; the inner option is a
  pointer behind the end of the text.\<close>

definition cJSON_GetErrorPtr :: "global_error \<Rightarrow> bytes option option" where
  "cJSON_GetErrorPtr e = (case error_json e of None \<Rightarrow> Some None
     | Some v \<Rightarrow> if error_offset e \<le> length v then Some (Some (drop (error_offset e) v)) else None)"

lemma GetErrorPtr_after_parse:
  assumes "nul_free v" and "cJSON_ParseWithOpts m (Some v) req = Some r"
  shows "cJSON_GetErrorPtr (parse_global_error (Some v) r)
    = Some (if parsed r = None then map_option (\<lambda>p. drop p v) (parse_end r) else None)"
  using parse_returns[OF assms(1), of m req] assms(2)
  by (auto simp: cJSON_GetErrorPtr_def parse_global_error_def no_error_def split: if_splits)

section \<open>Printing with hooks\<close>

text \<open>Whatever functions a caller installs, \<open>realloc\<close> is kept only beside the \<open>malloc\<close> and \<open>free\<close>
  of the C library, and the printers return the same text as with them.\<close>

theorem InitHooks_keeps_printing:
  assumes "printable i" and "length (render fmt 0 i) + 2 \<le> INT_MAX"
  shows "hooks_sound (cJSON_InitHooks hs g)
    \<and> print_hooked (cJSON_InitHooks hs g) (Some i) fmt [] = print_hooked initial_hooks (Some i) fmt []"
  using print_ok[OF assms(1)] assms(2) hooks_sound_InitHooks by (simp add: print_hooked_def INT_MAX_def)

theorem InitHooks_keeps_printing_witness:
  "print_hooked (cJSON_InitHooks (Some \<lparr>malloc_fn = Some (User 1), free_fn = None\<rparr>) initial_hooks)
      (Some (CJSON 2 None 1 (Fin 0) None [])) False [] = print_hooked initial_hooks (Some (CJSON 2 None 1 (Fin 0) None [])) False []"
  using InitHooks_keeps_printing[of "CJSON 2 None 1 (Fin 0) None []" False] by (simp add: INT_MAX_def c_string_opt_def)

end
