(* ===== verification/Arguments.thy ===== *)
theory Arguments
  imports Prelude
begin

text \<open>
  The command line (\<open>src/arguments.c\<close>): \<open>alloc_addr\<close> makes the socket address of a text and a port,
  \<open>get_args\<close> reads both from the options. \<open>inet_pton\<close> is a parameter, a function from the text to the
  four bytes of the address or to nothing; what \<open>g_option_context_parse\<close> finds on the command line
  is the argument \<open>answer\<close>. Of the other calls of GLib the model keeps the sequence.
\<close>

section \<open>Socket addresses\<close>

definition AF_INET :: "16 word" where "AF_INET = 2"

text \<open>The fields in network byte order are the bytes in memory.\<close>

record sockaddr_in =
  sin_family :: "16 word"
  sin_port :: "8 word list"
  sin_addr :: "8 word list"
  sin_zero :: "8 word list"

definition htons :: "16 word \<Rightarrow> 8 word list" where
  "htons p = [ucast (drop_bit 8 p), ucast p]"

text \<open>The allocated address is the only block; \<open>inet_pton\<close> fails after it was allocated, and it is
  freed then.\<close>

definition alloc_addr :: "(bytes \<Rightarrow> 8 word list option) \<Rightarrow> bytes option \<Rightarrow> 16 word \<Rightarrow> mem \<Rightarrow> sockaddr_in option \<times> mem" where
  "alloc_addr inet_pton addr port m = (case addr of None \<Rightarrow> (None, m) | Some a \<Rightarrow>
     (let (ok, m') = alloc m
      in if \<not> ok then (None, m')
         else let ret = \<lparr>sin_family = 0, sin_port = [0, 0], sin_addr = [0, 0, 0, 0], sin_zero = replicate 8 0\<rparr>;
                  ret1 = ret\<lparr>sin_family := AF_INET\<rparr>;
                  ret2 = ret1\<lparr>sin_port := htons port\<rparr>
              in (case inet_pton a of None \<Rightarrow> (None, m') | Some ip \<Rightarrow> (Some (ret2\<lparr>sin_addr := ip\<rparr>), m'))))"

section \<open>The command line\<close>

text \<open>What \<open>g_option_context_parse\<close> answers and stores into \<open>addr_str\<close> and \<open>port\<close>, which are NULL and -1
  before.\<close>

record parse_answer =
  parsed_ok :: bool
  parsed_address :: "bytes option"
  parsed_port :: int

datatype args_result = Exited | Returned "sockaddr_in option"

definition default_port :: int where "default_port = 2000"
definition default_addr :: bytes where "default_addr = ''127.0.0.1''"

text \<open>The calls of GLib; a NULL group is the group \<^const>\<open>None\<close>.\<close>

datatype group = Networking | Other

datatype glib_call = Group_new group | Group_add_entries group | Group_ref group | Group_unref "group option"
  | Context_new | Context_add_group group | Context_add_main_entries | Context_parse | Context_free | Free_string

text \<open>The statements up to and with the parse: \<open>has_group\<close> and \<open>has_entries\<close> say whether
  \<open>other_group\<close> and \<open>other_entries\<close> are not NULL.\<close>

definition parse_calls :: "bool \<Rightarrow> bool \<Rightarrow> glib_call list" where
  "parse_calls has_group has_entries =
     (if has_group then [Group_ref Other] else [])
     @ [Group_new Networking, Group_add_entries Networking, Context_new, Context_add_group Networking]
     @ (if has_entries then [Context_add_main_entries] else [])
     @ (if has_group then [Context_add_group Other] else [])
     @ [Context_parse]"

text \<open>The last test of the code is of \<open>other_entries\<close>, what it drops is \<open>other_group\<close>.\<close>

definition get_args :: "(bytes \<Rightarrow> 8 word list option) \<Rightarrow> bool \<Rightarrow> bool \<Rightarrow> parse_answer \<Rightarrow> mem
    \<Rightarrow> args_result \<times> mem \<times> glib_call list" where
  "get_args inet_pton has_group has_entries answer m =
     (let calls = parse_calls has_group has_entries; addr_str = parsed_address answer
      in if \<not> parsed_ok answer then
           (Exited, m, calls @ (if addr_str \<noteq> None then [Free_string] else [])
              @ [Context_free, Group_unref (Some Networking)]
              @ (if has_group then [Group_unref (Some Other)] else []))
         else
           (let use_addr_str = (addr_str \<noteq> None);
                port = (if -1 = parsed_port answer then default_port else parsed_port answer);
                (addr, m') = (if use_addr_str then alloc_addr inet_pton addr_str (word_of_int port) m
                              else alloc_addr inet_pton (Some default_addr) (word_of_int port) m)
            in (Returned addr, m', calls @ (if use_addr_str then [Free_string] else [])
                  @ [Context_free, Group_unref (Some Networking)]
                  @ (if has_entries then [Group_unref (if has_group then Some Other else None)] else []))))"

section \<open>Socket addresses: facts\<close>

text \<open>The port that a network reads from the two bytes.\<close>

definition port_of :: "8 word list \<Rightarrow> nat" where
  "port_of bs = unat (bs ! 0) * 256 + unat (bs ! 1)"

lemma port_of_htons: "port_of (htons p) = unat p"
proof -
  have "unat p < 65536" using unsigned_less[of p, where ?'a = nat] by simp
  then have "unat p div 256 < 256" by simp
  moreover have "unat (drop_bit 8 p) = unat p div 256" by (simp add: drop_bit_eq_div unat_div)
  ultimately show ?thesis by (simp add: port_of_def htons_def unsigned_ucast_eq take_bit_eq_mod)
qed

lemma length_htons: "length (htons p) = 2"
  by (simp add: htons_def)

lemma alloc_addr_cases:
  "alloc_addr inet_pton addr port m = (case addr of None \<Rightarrow> (None, m) | Some a \<Rightarrow>
     (if fst (alloc m) then map_option (\<lambda>ip. \<lparr>sin_family = AF_INET, sin_port = htons port, sin_addr = ip, sin_zero = replicate 8 0\<rparr>)
        (inet_pton a) else None, snd (alloc m)))"
  by (simp add: alloc_addr_def Let_def split: option.splits prod.splits)

section \<open>References to the groups\<close>

text \<open>
  GLib is a parameter here: what a call does to its state, and what can be told of a state, the
  references to a group and how many of them belong to the context. \<open>option_lib_ok\<close> is what it
  documents: a new group has one reference; \<open>g_option_context_add_group\<close> hands the reference of its
  caller over to the context, and \<open>g_option_context_free\<close> drops those; \<open>g_option_group_ref\<close> adds
  one, \<open>g_option_group_unref\<close> drops one that there is. Nothing is promised for a call that drops
  more references than there are, or that is given NULL.
\<close>

record 's option_lib =
  glib_step :: "glib_call \<Rightarrow> 's \<Rightarrow> 's"
  refs :: "'s \<Rightarrow> group \<Rightarrow> nat"
  owned :: "'s \<Rightarrow> group \<Rightarrow> nat"

definition neutral_calls :: "glib_call list" where
  "neutral_calls = [Group_add_entries Networking, Context_new, Context_add_main_entries, Context_parse, Free_string]"

definition option_lib_ok :: "'s option_lib \<Rightarrow> bool" where
  "option_lib_ok L \<longleftrightarrow>
     (\<forall>s x. refs L (glib_step L (Group_new x) s) = (refs L s)(x := 1)
        \<and> owned L (glib_step L (Group_new x) s) = (owned L s)(x := 0)
        \<and> refs L (glib_step L (Group_ref x) s) = (refs L s)(x := refs L s x + 1)
        \<and> owned L (glib_step L (Group_ref x) s) = owned L s
        \<and> refs L (glib_step L (Context_add_group x) s) = refs L s
        \<and> owned L (glib_step L (Context_add_group x) s) = (owned L s)(x := owned L s x + 1)
        \<and> (0 < refs L s x \<longrightarrow> refs L (glib_step L (Group_unref (Some x)) s) = (refs L s)(x := refs L s x - 1)
             \<and> owned L (glib_step L (Group_unref (Some x)) s) = owned L s))
     \<and> (\<forall>s. (\<forall>x. owned L s x \<le> refs L s x) \<longrightarrow>
          refs L (glib_step L Context_free s) = (\<lambda>x. refs L s x - owned L s x)
          \<and> owned L (glib_step L Context_free s) = (\<lambda>x. 0))
     \<and> (\<forall>s. \<forall>c \<in> set neutral_calls. refs L (glib_step L c s) = refs L s \<and> owned L (glib_step L c s) = owned L s)"

lemma option_lib_facts:
  assumes "option_lib_ok L"
  shows "refs L (glib_step L (Group_new x) s) = (refs L s)(x := 1)"
    and "owned L (glib_step L (Group_new x) s) = (owned L s)(x := 0)"
    and "refs L (glib_step L (Group_ref x) s) = (refs L s)(x := refs L s x + 1)"
    and "owned L (glib_step L (Group_ref x) s) = owned L s"
    and "refs L (glib_step L (Context_add_group x) s) = refs L s"
    and "owned L (glib_step L (Context_add_group x) s) = (owned L s)(x := owned L s x + 1)"
    and "0 < refs L s x \<Longrightarrow> refs L (glib_step L (Group_unref (Some x)) s) = (refs L s)(x := refs L s x - 1)"
    and "\<forall>x. owned L s x \<le> refs L s x \<Longrightarrow> refs L (glib_step L Context_free s) = (\<lambda>x. refs L s x - owned L s x)"
    and "c \<in> set neutral_calls \<Longrightarrow> refs L (glib_step L c s) = refs L s"
    and "c \<in> set neutral_calls \<Longrightarrow> owned L (glib_step L c s) = owned L s"
  using assms by (simp_all add: option_lib_ok_def)

definition glib_run :: "'s option_lib \<Rightarrow> glib_call list \<Rightarrow> 's \<Rightarrow> 's" where
  "glib_run L cs s = fold (glib_step L) cs s"

lemma glib_run_simps [simp]:
  "glib_run L [] s = s" "glib_run L (c # cs) s = glib_run L cs (glib_step L c s)"
  "glib_run L (cs @ ds) s = glib_run L ds (glib_run L cs s)"
  by (simp_all add: glib_run_def)

text \<open>What the calls up to the parse leave: the context owns its own group and that of the caller.\<close>

lemma parse_calls_refs:
  fixes g e :: bool
  assumes "option_lib_ok L" and "owned L s Other = 0"
  defines "s' \<equiv> glib_run L (parse_calls g e) s"
  shows "refs L s' Networking = 1" and "owned L s' Networking = 1"
    and "refs L s' Other = refs L s Other + (if g then 1 else 0)" and "owned L s' Other = (if g then 1 else 0)"
  unfolding s'_def
  by (cases g; cases e; simp add: parse_calls_def option_lib_facts[OF assms(1)] neutral_calls_def assms(2))+

text \<open>\<open>g_option_context_free\<close> and the release of the argument string, if there is one.\<close>

lemma context_freed_refs:
  fixes g e :: bool
  assumes "option_lib_ok L" and "owned L s Other = 0" and "cs = [] \<or> cs = [Free_string]"
  defines "s' \<equiv> glib_run L (parse_calls g e @ cs @ [Context_free]) s"
  shows "refs L s' Networking = 0" and "refs L s' Other = refs L s Other"
proof -
  let ?p = "glib_run L (parse_calls g e) s" and ?c = "glib_run L (parse_calls g e @ cs) s"
  note p = parse_calls_refs[OF assms(1,2), of g e]
  have c: "refs L ?c = refs L ?p" "owned L ?c = owned L ?p"
    using assms(3) option_lib_facts(9,10)[OF assms(1), of Free_string] by (auto simp: neutral_calls_def)
  have "owned L ?c x \<le> refs L ?c x" for x unfolding c using p by (cases x) auto
  then have "refs L (glib_step L Context_free ?c) = (\<lambda>x. refs L ?c x - owned L ?c x)"
    using option_lib_facts(8)[OF assms(1)] by blast
  then show "refs L s' Networking = 0" "refs L s' Other = refs L s Other"
    unfolding s'_def using c p by simp_all
qed

section \<open>What the caller gets\<close>

text \<open>C36: When the options are read, \<open>get_args\<close> returns the address of the \<open>--address\<close> text, or of
  127.0.0.1, with the port of the \<open>--port\<close> option, or 2000, modulo 65536 and in network byte order;
  it returns NULL exactly when \<open>inet_pton\<close> rejects the text or there is no memory.\<close>

theorem get_args_address:
  assumes "parsed_ok answer"
  shows "\<exists>r. fst (get_args pton g e answer m) = Returned r
    \<and> (r = None \<longleftrightarrow> \<not> fst (alloc m) \<or> pton (case parsed_address answer of None \<Rightarrow> ''127.0.0.1'' | Some a \<Rightarrow> a) = None)
    \<and> (\<forall>a. r = Some a \<longrightarrow> sin_family a = 2 \<and> length (sin_port a) = 2
        \<and> int (port_of (sin_port a)) = (if parsed_port answer = -1 then 2000 else parsed_port answer) mod 65536
        \<and> pton (case parsed_address answer of None \<Rightarrow> ''127.0.0.1'' | Some t \<Rightarrow> t) = Some (sin_addr a))"
proof -
  define port where "port = (if parsed_port answer = -1 then 2000 else parsed_port answer)"
  define shown where "shown = (case parsed_address answer of None \<Rightarrow> default_addr | Some a \<Rightarrow> a)"
  have "fst (get_args pton g e answer m) = Returned (fst (alloc_addr pton (Some shown) (word_of_int port) m))"
    using assms by (auto simp: get_args_def Let_def port_def shown_def default_port_def split: option.splits prod.splits)
  moreover have "int (unat (word_of_int port :: 16 word)) = port mod 65536"
    by (simp add: unsigned_of_int take_bit_eq_mod)
  ultimately show ?thesis unfolding port_def[symmetric] using shown_def[unfolded default_addr_def]
    by (auto simp: alloc_addr_cases port_of_htons AF_INET_def length_htons)
qed

text \<open>A port outside the range is not refused: any two ports that agree modulo 65536 and differ
  from -1 give the same result.\<close>

theorem get_args_port_truncated:
  assumes "p mod 65536 = q mod 65536" and "p \<noteq> -1" and "q \<noteq> -1"
  shows "get_args pton g e (answer\<lparr>parsed_port := p\<rparr>) m = get_args pton g e (answer\<lparr>parsed_port := q\<rparr>) m"
proof -
  have "(word_of_int p :: 16 word) = word_of_int q"
    using assms(1) by (simp add: word_of_int_eq_iff take_bit_eq_mod)
  then show ?thesis using assms(2,3) by (simp add: get_args_def Let_def)
qed

text \<open>C37: Whatever the arguments and the command line, \<open>get_args\<close> calls \<open>g_option_group_unref\<close> on its own
  group when no reference to it is left: the context has released it. With that call left out,
  the group of the caller ends with one reference less than it had, except when it comes
  without entries and the parse succeeds: then it keeps them all. NULL is unreferenced exactly
  when there are entries without a group, and the argument string is freed exactly once.\<close>

theorem get_args_references:
  assumes "option_lib_ok L" and "owned L s Other = 0" and "g \<longrightarrow> 0 < refs L s Other"
    and "get_args pton g e answer m = (r, m', calls)"
  shows "\<exists>pre post. calls = pre @ Group_unref (Some Networking) # post \<and> Group_new Networking \<in> set pre
    \<and> refs L (glib_run L pre s) Networking = 0
    \<and> (g \<longrightarrow> refs L (glib_run L (pre @ post) s) Other = refs L s Other - (if parsed_ok answer \<and> \<not> e then 0 else 1))
    \<and> (Group_unref None \<in> set calls \<longleftrightarrow> parsed_ok answer \<and> e \<and> \<not> g)
    \<and> count_list calls Free_string = (if parsed_address answer = None then 0 else 1)"
proof -
  define cs where "cs = (if parsed_address answer \<noteq> None then [Free_string] else [])"
  define pre where "pre = parse_calls g e @ cs @ [Context_free]"
  define post where "post = (if \<not> parsed_ok answer then (if g then [Group_unref (Some Other)] else [])
    else if e then [Group_unref (if g then Some Other else None)] else [])"
  have calls: "calls = pre @ Group_unref (Some Networking) # post"
    using assms(4) by (auto simp: get_args_def Let_def pre_def post_def cs_def split: if_splits prod.splits)
  have f: "refs L (glib_run L pre s) Networking = 0" "refs L (glib_run L pre s) Other = refs L s Other"
    using context_freed_refs[OF assms(1,2), of cs g e] unfolding pre_def cs_def by auto
  have o: "refs L (glib_run L (pre @ post) s) Other = refs L s Other - (if parsed_ok answer \<and> \<not> e then 0 else 1)" if g
    using f(2) assms(3) that option_lib_facts(7)[OF assms(1), of "glib_run L pre s" Other] by (simp add: post_def)
  have "Group_new Networking \<in> set pre" "Group_unref None \<notin> set pre"
    "count_list pre Free_string = (if parsed_address answer = None then 0 else 1)"
    by (auto simp: pre_def parse_calls_def cs_def)
  moreover have "Group_unref None \<in> set post \<longleftrightarrow> parsed_ok answer \<and> e \<and> \<not> g" "count_list post Free_string = 0"
    by (auto simp: post_def)
  ultimately show ?thesis using calls f(1) o by (intro exI[of _ pre] exI[of _ post]) auto
qed

section \<open>Examples\<close>

definition dotted :: "bytes \<Rightarrow> 8 word list option" where
  "dotted t = (if t = ''127.0.0.1'' then Some [127, 0, 0, 1] else None)"

theorem get_args_address_witness:
  "fst (get_args dotted False False \<lparr>parsed_ok = True, parsed_address = None, parsed_port = -1\<rparr> [])
    = Returned (Some \<lparr>sin_family = 2, sin_port = [7, 208], sin_addr = [127, 0, 0, 1], sin_zero = replicate 8 0\<rparr>)
  \<and> (\<exists>r. fst (get_args dotted False False \<lparr>parsed_ok = True, parsed_address = Some ''x'', parsed_port = 1\<rparr> [])
    = Returned r \<and> r = None)"
proof
  show "\<exists>r. fst (get_args dotted False False \<lparr>parsed_ok = True, parsed_address = Some ''x'', parsed_port = 1\<rparr> [])
    = Returned r \<and> r = None"
    using get_args_address[of "\<lparr>parsed_ok = True, parsed_address = Some ''x'', parsed_port = 1\<rparr>" dotted False False "[]"]
    by (auto simp: dotted_def)
qed code_simp

text \<open>A GLib that counts: the references to the two groups, and those of the context.\<close>

fun count_step :: "glib_call \<Rightarrow> (group \<Rightarrow> nat) \<times> (group \<Rightarrow> nat) \<Rightarrow> (group \<Rightarrow> nat) \<times> (group \<Rightarrow> nat)" where
  "count_step (Group_new x) (r, w) = (r(x := 1), w(x := 0))"
| "count_step (Group_ref x) (r, w) = (r(x := r x + 1), w)"
| "count_step (Context_add_group x) (r, w) = (r, w(x := w x + 1))"
| "count_step (Group_unref (Some x)) (r, w) = (r(x := r x - 1), w)"
| "count_step Context_free (r, w) = ((\<lambda>x. r x - w x), (\<lambda>x. 0))"
| "count_step _ (r, w) = (r, w)"

definition counting_lib :: "((group \<Rightarrow> nat) \<times> (group \<Rightarrow> nat)) option_lib" where
  "counting_lib = \<lparr>glib_step = count_step, refs = fst, owned = snd\<rparr>"

lemma counting_lib_ok: "option_lib_ok counting_lib"
  by (auto simp: option_lib_ok_def counting_lib_def neutral_calls_def)

theorem get_args_references_witness:
  "\<exists>pre post. snd (snd (get_args dotted True False \<lparr>parsed_ok = True, parsed_address = None, parsed_port = -1\<rparr> []))
      = pre @ Group_unref (Some Networking) # post \<and> Group_new Networking \<in> set pre
    \<and> fst (glib_run counting_lib pre (\<lambda>x. 1, \<lambda>x. 0)) Networking = 0
    \<and> fst (glib_run counting_lib (pre @ post) (\<lambda>x. 1, \<lambda>x. 0)) Other = 1"
proof -
  let ?a = "\<lparr>parsed_ok = True, parsed_address = None, parsed_port = -1\<rparr>"
  obtain r m' calls where c: "get_args dotted True False ?a [] = (r, m', calls)" by (cases "get_args dotted True False ?a []") auto
  have l: "owned counting_lib (\<lambda>x. 1, \<lambda>x. 0) Other = 0" "refs counting_lib (\<lambda>x. 1, \<lambda>x. 0) Other = 1"
    "refs counting_lib = fst" by (simp_all add: counting_lib_def)
  show ?thesis using get_args_references[OF counting_lib_ok l(1) _ c] c l(2,3) by auto
qed

theorem get_args_port_truncated_witness:
  "get_args dotted False False \<lparr>parsed_ok = True, parsed_address = None, parsed_port = 67536\<rparr> []
    = get_args dotted False False \<lparr>parsed_ok = True, parsed_address = None, parsed_port = 2000\<rparr> []"
  using get_args_port_truncated[of 67536 2000 dotted False False "\<lparr>parsed_ok = True, parsed_address = None, parsed_port = 0\<rparr>" "[]"]
  by simp

end
