(* ===== verification/ParseFuel.thy ===== *)
theory ParseFuel
  imports ParseSafety
begin

text \<open>
  The calls of the parser end: with three calls for every byte that is left no function runs out
  of fuel, and more fuel does not change what it answers, so that the answers are those of the
  recursion of the code.
\<close>

definition settles :: "'a outcome \<Rightarrow> 'a outcome \<Rightarrow> bool" where
  "settles r r' \<longleftrightarrow> r = OutOfFuel \<or> r' = r"

lemma settles_simps [simp]: "settles r r" "settles OutOfFuel r"
  by (simp_all add: settles_def)

lemma settles_and_then:
  "settles r r' \<Longrightarrow> (\<And>x b. settles (k x b) (k' x b)) \<Longrightarrow> settles (and_then r k) (and_then r' k')"
  by (cases r) (auto simp: settles_def and_then_def)

lemma settles_if: "settles x x' \<Longrightarrow> settles y y' \<Longrightarrow> settles (if P then x else y) (if P then x' else y')"
  by simp

lemma settles_Let: "(\<And>x. settles (k x) (k' x)) \<Longrightarrow> settles (let x = e in k x) (let x = e in k' x)"
  by simp

lemma settles_option:
  "settles x x' \<Longrightarrow> (\<And>c. settles (k c) (k' c)) \<Longrightarrow> settles (case o' of None \<Rightarrow> x | Some c \<Rightarrow> k c) (case o' of None \<Rightarrow> x' | Some c \<Rightarrow> k' c)"
  by (cases o') auto

lemmas settles_intros = settles_and_then settles_if settles_Let settles_option settles_simps(1)

lemma parse_settles:
  "(\<forall>item b. settles (parse_value f item b) (parse_value (Suc f) item b))
   \<and> (\<forall>item b. settles (parse_array f item b) (parse_array (Suc f) item b))
   \<and> (\<forall>b. settles (array_items f b) (array_items (Suc f) b))
   \<and> (\<forall>item b. settles (parse_object f item b) (parse_object (Suc f) item b))
   \<and> (\<forall>b. settles (object_items f b) (object_items (Suc f) b))"
proof (induction f)
  case (Suc f)
  have val: "settles (parse_value f item b) (parse_value (Suc f) item b)"
    and array: "settles (parse_array f item b) (parse_array (Suc f) item b)"
    and items: "settles (array_items f b) (array_items (Suc f) b)"
    and ob: "settles (parse_object f item b) (parse_object (Suc f) item b)"
    and members: "settles (object_items f b) (object_items (Suc f) b)" for item b
    using Suc by simp_all
  have "settles (parse_value (Suc f) item b) (parse_value (Suc (Suc f)) item b)" for item b
    by (subst parse_value.simps(2)[of "Suc f"], subst parse_value.simps(2)[of f]) (intro settles_intros array ob)
  moreover have "settles (parse_array (Suc f) item b) (parse_array (Suc (Suc f)) item b)" for item b
    by (subst parse_array.simps(2)[of "Suc f"], subst parse_array.simps(2)[of f]) (intro settles_intros items)
  moreover have "settles (array_items (Suc f) b) (array_items (Suc (Suc f)) b)" for b
    by (subst array_items.simps(2)[of "Suc f"], subst array_items.simps(2)[of f]) (intro settles_intros val items)
  moreover have "settles (parse_object (Suc f) item b) (parse_object (Suc (Suc f)) item b)" for item b
    by (subst parse_object.simps(2)[of "Suc f"], subst parse_object.simps(2)[of f]) (intro settles_intros members)
  moreover have "settles (object_items (Suc f) b) (object_items (Suc (Suc f)) b)" for b
    by (subst object_items.simps(2)[of "Suc f"], subst object_items.simps(2)[of f]) (intro settles_intros val members)
  ultimately show ?case by blast
qed simp_all

lemma parse_value_more_fuel:
  assumes "parse_value f item b \<noteq> OutOfFuel" and "f \<le> g"
  shows "parse_value g item b = parse_value f item b"
  using assms(2)
proof (induction rule: dec_induct)
  case (step n)
  then show ?case using conjunct1[OF parse_settles[of n]] assms(1) unfolding settles_def by metis
qed simp

text \<open>C14: \<open>parse_value\<close> returns: three calls for every byte from the offset on are enough, and the
  answer, which is a success or a failure and never an access outside the text, is the same
  with any more.\<close>

theorem parse_value_terminates:
  assumes "good b" and "3 * left b \<le> f"
  shows "(\<exists>r b'. parse_value f item b = Ok r b' \<or> parse_value f item b = Fail b')
    \<and> (\<forall>g. f \<le> g \<longrightarrow> parse_value g item b = parse_value f item b)"
proof -
  have p: "progress (3 * left b \<le> f) b (parse_value f item b)" by (rule parse_safe(1)[OF assms(1)])
  then have "parse_value f item b \<noteq> OutOfFuel" using assms(2) by auto
  then show ?thesis using p parse_value_more_fuel[of f item b] by (cases "parse_value f item b") auto
qed

theorem parse_value_terminates_witness:
  "good (start_buffer [] ''[[1]]'') \<and> parse_value 1000 blank_item (start_buffer [] ''[[1]]'')
     = parse_value 18 blank_item (start_buffer [] ''[[1]]'')"
proof -
  have g: "good (start_buffer [] ''[[1]]'')" by (rule start_buffer_good) (simp add: nul_free_def)
  have l: "3 * left (start_buffer [] ''[[1]]'') \<le> 18" by (simp add: left_def start_buffer_def)
  have "(18::nat) \<le> 1000" by simp
  with parse_value_terminates[OF g l, of blank_item] g show ?thesis by blast
qed

end
