(* ===== verification/Spec2Isabelle.thy ===== *)
theory Spec2Isabelle
  imports FramingLaws SendingLaws JsonMinify HeapCompare HeapRelink HeapArrays CJsonHooks Arguments ParseFuel
begin

text \<open>
  A model of \<^emph>\<open>libedsacnetworking\<close>: a library by which the parts of a computer reconstruction
  report their errors, as JSON messages over TCP, to a monitor. A client calls
  \<open>start_sending\<close> and \<open>send_message\<close>; the monitor calls \<open>start_server\<close> and \<open>read_message\<close>, and
  signal handlers read what arrives and put it into a queue. Messages are encoded and decoded with
  the copy of cJSON in \<open>src/contrib\<close>, all of which is modelled.

  \<^bold>\<open>Foundations.\<close>

  \<^item> \<open>Prelude\<close>: bytes, C strings, the allocator as the list of its answers (the empty list never
    fails), the lemma collections.
  \<^item> \<open>C_Double\<close>: doubles as rationals with the special values, \<open>strtod\<close>, \<open>sprintf("%.Pg")\<close>.

  \<^bold>\<open>cJSON\<close> (\<open>include/contrib/cJSON.h\<close>, \<open>src/contrib/cJSON.c\<close>).

  \<^item> \<open>CJson\<close>: an item as a tree, the type tests, lookups and number conversions.
  \<^item> \<open>JsonParse\<close>: the parser on its \<open>parse_buffer\<close>, function by function, with the reads and the
    stores that would be outside a block as faults. \<open>ParseSafety\<close>: no fault is reachable.
    \<open>ParseFuel\<close>: the calls end; three calls per byte (\<open>enough_fuel\<close>) suffice, and more do not change
    an answer. \<open>ParseTypes\<close>: the results are well typed.
  \<^item> \<open>JsonPrint\<close>: the printer on its growing \<open>printbuffer\<close>, with a byte that was never written, a store
    outside the block and a second \<open>free\<close> as faults. \<open>PrintRefine\<close>: it refines the function \<open>render\<close>
    on trees, for texts shorter than \<open>INT_MAX\<close>. \<open>JsonRoundtrip\<close>: parsing undoes printing on canonical
    items. \<open>JsonMinify\<close>: \<open>cJSON_Minify\<close>; it turns formatted into unformatted texts, and reads behind
    exactly those texts that end inside a string or a block comment (\<open>step_place\<close>).
  \<^item> \<open>CJson_Heap\<close>: the operations that build, relink and delete items, on an explicit store of nodes and
    strings, where \<^const>\<open>None\<close> is the use of a block that is not allocated; the recursions over links
    are partial functions, because a cyclic store would keep them from returning. \<open>HeapTrees\<close>: the
    predicate \<open>forest h F\<close>, by which a store holds exactly the trees \<open>F\<close>, each with its own blocks; an
    operation that returns a store with a forest has neither leaked nor damaged a block, and has
    returned. The theorems on deleting and adding are there; \<open>HeapCopy\<close>: the frame rule, and
    \<open>cJSON_Duplicate\<close>; \<open>HeapCompare\<close>: \<open>cJSON_Compare\<close> decides equality of the values that items denote
    (objects are maps from names); \<open>HeapRelink\<close>: detaching, inserting and replacing are one
    assignment of links, \<open>splice\<close>, and work on the list of the children as \<open>take\<close>, \<open>drop\<close> and list
    update do; \<open>HeapArrays\<close>: the functions that fill an array, over the interface \<open>item_maker\<close> to the
    function that makes one item.
  \<^item> \<open>CJsonHooks\<close>: the allocation functions that \<open>cJSON_InitHooks\<close> selects, the version, and the error
    position behind \<open>cJSON_GetErrorPtr\<close>.

  \<^bold>\<open>Messages.\<close>

  \<^item> \<open>Representation\<close> (\<open>src/representation.c\<close>): messages, their constructors, \<open>encode_message\<close> and
    \<open>decode_message\<close>. \<open>MessageCodec\<close>: the tree and text of a message, the encoder with and
    without memory, the decoder. \<open>CodecLaws\<close>: round trip, decoding of any text, the bound of 300 bytes.
  \<^item> \<open>Framing\<close>, \<open>FramingLaws\<close> (\<open>read_json_object\<close> of \<open>src/server.c\<close>): how a byte stream is cut into
    texts; a frame is whole if the braces of the message are balanced and never close two more than
    they open, and ends inside the message if they do.

  \<^bold>\<open>The server\<close> (\<open>src/server.c\<close>).

  \<^item> \<open>Server\<close>: its global state as a record with the mutexes, the table of connections and the queue,
    one definition per handler and per function of the interface. A call that would block on a locked
    mutex, and a fault, are outcomes. GLib's hash table and queue are parameters.
  \<^item> \<open>ServerSpec\<close>: an abstract server (the clients and the reports that wait) and what a signal makes
    of it; \<open>ServerRefine\<close>: connecting, reading and the periodic check refine it; \<open>ServerLifecycle\<close>:
    starting and stopping; \<open>Delivery\<close>: the interfaces \<open>fifo\<close>, \<open>message_code\<close> and \<open>framed_code\<close> with their
    interpretations by the queue, the codec and the framing; \<open>ServerRuns\<close>: runs as sequences of events
    in any order, what each event has to do for the user (\<open>expected\<close>, with the reports it gives rise to),
    and the simulation of the one by the other; \<open>ServerLaws\<close>: the properties, with GLib's laws as hypotheses and an
    instance of them by lists.

  \<^bold>\<open>The client.\<close>

  \<^item> \<open>Timer\<close> (\<open>src/timer.c\<close>), \<open>Sending\<close> (\<open>src/sending.c\<close>): the socket, the mutex and the keep-alive
    timer, with the results of the system calls as arguments. \<open>SendingLaws\<close>: from \<open>send_message\<close> to
    \<open>read_message\<close>, keep-alives, the failures.
  \<^item> \<open>Arguments\<close> (\<open>src/arguments.c\<close>): the command line, and the references to the option groups, by
    what GLib documents of them.

  \<^bold>\<open>Not modelled.\<close> The test programs; the output of \<open>printf\<close>, \<open>puts\<close> and \<open>perror\<close>; the code of GLib
  and the kernel, which are parameters, hypotheses or the answers that their calls give; threads other
  than signal handlers, which are steps between the steps of the program or, for a signal inside a
  call of the library, steps from a state with a mutex locked; the Windows and other platform branches
  of cJSON, and its locale support, which the build does not select.
\<close>

end
